(* ===== verification/Prelude.thy ===== *)
theory Prelude
  imports Main "HOL-Library.Word"
begin

text \<open>
  The prelude of the xv6 development: the types every component shares, the outcome type of
  a kernel operation with its sequencing combinators, weakest preconditions for them, and the
  little-endian codecs for the 16-bit and 32-bit fields of on-disk and in-memory structures.

  A kernel operation takes the state it runs in and ends in one of three ways: it returns a
  value in a new state (\<open>Ok\<close>), it calls \<open>panic\<close> (\<open>Panic\<close>, with the message), or the calling
  process gives up its CPU by \<open>swtch\<close> (\<open>Switch\<close>, with the state it left to the scheduler).  C pointers to
  table entries are indices of the table.
\<close>

unbundle bit_operations_syntax

section \<open>Shared types\<close>

type_synonym u8 = "8 word"
type_synonym u32 = "32 word"

text \<open>A block of bytes (a disk sector, a page, a buffer) as a function of the offset.\<close>

type_synonym bytes = "nat \<Rightarrow> u8"

text \<open>
  Sleep channels.  The code sleeps on addresses of kernel objects; distinct objects have
  distinct addresses, so a channel is a constructor applied to the object's index.
\<close>

datatype chan =
    ChProc nat
  | ChBuf nat
  | ChInode nat
  | ChLog
  | ChPipeR nat
  | ChPipeW nat
  | ChTicks
  | ChInput

text \<open>The spin locks of the kernel: one per table, and one per pipe.\<close>

datatype lockid =
    LPtable | LBcache | LLog | LIcache | LFtable | LKmem | LTicks | LInput | LCons | LIde
  | LPipe nat

section \<open>Outcomes and sequencing\<close>

text \<open>
  Why a process gave up its CPU: it sleeps on a channel, it yielded, or it exited; \<open>Frozen\<close> is the
  endless loop of \<open>consputc\<close> and \<open>panic\<close> once the kernel has panicked.
\<close>

datatype switch_why = Asleep chan | Yielded | Exited | Frozen

datatype ('a, 's) res = Ok 'a 's | Panic string | Switch switch_why 's

type_synonym ('a, 's) kop = "'s \<Rightarrow> ('a, 's) res"

definition kret :: "'a \<Rightarrow> ('a, 's) kop" where
  "kret a s = Ok a s"

definition kbind :: "('a, 's) kop \<Rightarrow> ('a \<Rightarrow> ('b, 's) kop) \<Rightarrow> ('b, 's) kop" where
  "kbind f g s = (case f s of Ok a t \<Rightarrow> g a t | Panic m \<Rightarrow> Panic m | Switch c t \<Rightarrow> Switch c t)"

definition kthen :: "('a, 's) kop \<Rightarrow> ('b, 's) kop \<Rightarrow> ('b, 's) kop" where
  "kthen f g = kbind f (\<lambda>_. g)"

definition kget :: "('s \<Rightarrow> 'a) \<Rightarrow> ('a, 's) kop" where
  "kget f s = Ok (f s) s"

definition kmod :: "('s \<Rightarrow> 's) \<Rightarrow> (unit, 's) kop" where
  "kmod f s = Ok () (f s)"

definition kpanic :: "string \<Rightarrow> ('a, 's) kop" where
  "kpanic m s = Panic m"

text \<open>\<open>if(c) panic(m);\<close>\<close>

definition kassert :: "('s \<Rightarrow> bool) \<Rightarrow> string \<Rightarrow> (unit, 's) kop" where
  "kassert c m s = (if c s then Ok () s else Panic m)"

text \<open>A \<open>for\<close> loop over the indices of a list, with no early exit.\<close>

fun kfor :: "'i list \<Rightarrow> ('i \<Rightarrow> (unit, 's) kop) \<Rightarrow> (unit, 's) kop" where
  "kfor [] f = kret ()"
| "kfor (i # is) f = kthen (f i) (kfor is f)"

lemma kbind_cong [fundef_cong]:
  "f s = f' s \<Longrightarrow> (\<And>a t. f' s = Ok a t \<Longrightarrow> g a t = g' a t) \<Longrightarrow> s = s' \<Longrightarrow>
    kbind f g s = kbind f' g' s'"
  by (simp add: kbind_def split: res.splits)

subsection \<open>Running operations\<close>

named_theorems kop_simps "unfolding rules of the sequencing combinators"

lemma run_kret [kop_simps]: "kret a s = Ok a s"
  by (simp add: kret_def)

lemma run_kget [kop_simps]: "kget f s = Ok (f s) s"
  by (simp add: kget_def)

lemma run_kmod [kop_simps]: "kmod f s = Ok () (f s)"
  by (simp add: kmod_def)

lemma run_kpanic [kop_simps]: "kpanic m s = Panic m"
  by (simp add: kpanic_def)

lemma run_kassert [kop_simps]: "kassert c m s = (if c s then Ok () s else Panic m)"
  by (simp add: kassert_def)

lemma run_kbind [kop_simps]:
  "kbind f g s = (case f s of Ok a t \<Rightarrow> g a t | Panic m \<Rightarrow> Panic m | Switch c t \<Rightarrow> Switch c t)"
  by (simp add: kbind_def)

lemma run_kthen [kop_simps]:
  "kthen f g s = (case f s of Ok a t \<Rightarrow> g t | Panic m \<Rightarrow> Panic m | Switch c t \<Rightarrow> Switch c t)"
  by (simp add: kthen_def kbind_def)

lemma kbind_Ok: "kbind f g s = Ok b u \<longleftrightarrow> (\<exists>a t. f s = Ok a t \<and> g a t = Ok b u)"
  by (auto simp: kbind_def split: res.splits)

lemma kthen_Ok: "kthen f g s = Ok b u \<longleftrightarrow> (\<exists>a t. f s = Ok a t \<and> g t = Ok b u)"
  by (auto simp: kthen_def kbind_def split: res.splits)

lemma kbind_step [simp]: "f s = Ok a t \<Longrightarrow> kbind f g s = g a t"
  by (simp add: kbind_def)

lemma kthen_step [simp]: "f s = Ok a t \<Longrightarrow> kthen f g s = g t"
  by (simp add: kthen_def)

section \<open>Weakest preconditions\<close>

text \<open>
  \<open>wp f Q s\<close>: from \<open>s\<close> the operation returns, and the value and the state satisfy \<open>Q\<close>.
  \<open>wlp f Q s\<close>: if the operation returns, the value and the state satisfy \<open>Q\<close>.
\<close>

definition wp :: "('a, 's) kop \<Rightarrow> ('a \<Rightarrow> 's \<Rightarrow> bool) \<Rightarrow> 's \<Rightarrow> bool" where
  "wp f Q s = (case f s of Ok a t \<Rightarrow> Q a t | Panic m \<Rightarrow> False | Switch c t \<Rightarrow> False)"

definition wlp :: "('a, 's) kop \<Rightarrow> ('a \<Rightarrow> 's \<Rightarrow> bool) \<Rightarrow> 's \<Rightarrow> bool" where
  "wlp f Q s = (case f s of Ok a t \<Rightarrow> Q a t | Panic m \<Rightarrow> True | Switch c t \<Rightarrow> True)"

named_theorems wp_simps "weakest preconditions of the sequencing combinators"

lemma wp_kret [wp_simps]: "wp (kret a) Q s = Q a s"
  and wlp_kret [wp_simps]: "wlp (kret a) Q s = Q a s"
  by (simp_all add: wp_def wlp_def kret_def)

lemma wp_kget [wp_simps]: "wp (kget f) Q s = Q (f s) s"
  and wlp_kget [wp_simps]: "wlp (kget f) Q s = Q (f s) s"
  by (simp_all add: wp_def wlp_def kget_def)

lemma wp_kmod [wp_simps]: "wp (kmod f) Q s = Q () (f s)"
  and wlp_kmod [wp_simps]: "wlp (kmod f) Q s = Q () (f s)"
  by (simp_all add: wp_def wlp_def kmod_def)

lemma wp_kpanic [wp_simps]: "wp (kpanic m) Q s = False"
  and wlp_kpanic [wp_simps]: "wlp (kpanic m) Q s = True"
  by (simp_all add: wp_def wlp_def kpanic_def)

lemma wp_kassert [wp_simps]: "wp (kassert c m) Q s = (c s \<and> Q () s)"
  and wlp_kassert [wp_simps]: "wlp (kassert c m) Q s = (c s \<longrightarrow> Q () s)"
  by (simp_all add: wp_def wlp_def kassert_def)

lemma wp_kbind [wp_simps]: "wp (kbind f g) Q s = wp f (\<lambda>a. wp (g a) Q) s"
  and wlp_kbind [wp_simps]: "wlp (kbind f g) Q s = wlp f (\<lambda>a. wlp (g a) Q) s"
  by (simp_all add: wp_def wlp_def kbind_def split: res.splits)

lemma wp_kthen [wp_simps]: "wp (kthen f g) Q s = wp f (\<lambda>_. wp g Q) s"
  and wlp_kthen [wp_simps]: "wlp (kthen f g) Q s = wlp f (\<lambda>_. wlp g Q) s"
  by (simp_all add: kthen_def wp_kbind wlp_kbind)

lemma wp_if [wp_simps]: "wp (if b then f else g) Q s = (if b then wp f Q s else wp g Q s)"
  and wlp_if [wp_simps]: "wlp (if b then f else g) Q s = (if b then wlp f Q s else wlp g Q s)"
  by simp_all

lemma wp_let [wp_simps]: "wp (let x = e in f x) Q s = (let x = e in wp (f x) Q s)"
  and wlp_let [wp_simps]: "wlp (let x = e in f x) Q s = (let x = e in wlp (f x) Q s)"
  by simp_all

lemma wp_mono: "wp f Q s \<Longrightarrow> (\<And>a t. Q a t \<Longrightarrow> R a t) \<Longrightarrow> wp f R s"
  by (simp add: wp_def split: res.splits)

lemma wlp_mono: "wlp f Q s \<Longrightarrow> (\<And>a t. Q a t \<Longrightarrow> R a t) \<Longrightarrow> wlp f R s"
  by (simp add: wlp_def split: res.splits)

lemma wlp_conj: "wlp f (\<lambda>a t. Q a t \<and> R a t) s \<longleftrightarrow> wlp f Q s \<and> wlp f R s"
  by (auto simp: wlp_def split: res.splits)

lemma wlpD: "wlp f Q s \<Longrightarrow> f s = Ok a t \<Longrightarrow> Q a t"
  by (simp add: wlp_def)

lemma wlpI: "(\<And>a t. f s = Ok a t \<Longrightarrow> Q a t) \<Longrightarrow> wlp f Q s"
  by (simp add: wlp_def split: res.splits)

lemma wpE:
  assumes "wp f Q s"
  obtains a t where "f s = Ok a t" "Q a t"
  using assms by (cases "f s") (auto simp: wp_def)

lemma wpI: "f s = Ok a t \<Longrightarrow> Q a t \<Longrightarrow> wp f Q s"
  by (simp add: wp_def)

lemma wlp_kfor:
  assumes "\<And>i t. i \<in> set is \<Longrightarrow> I t \<Longrightarrow> wlp (f i) (\<lambda>_. I) t" and "I s"
  shows "wlp (kfor is f) (\<lambda>_. I) s"
  using assms
proof (induction "is" arbitrary: s)
  case Nil
  then show ?case by (simp add: wlp_kret)
next
  case (Cons i "is")
  have "wlp (f i) (\<lambda>_. I) s" using Cons.prems by simp
  then show ?case
    unfolding kfor.simps wlp_kthen
    by (rule wlp_mono) (use Cons in simp)
qed

section \<open>Lists and array scans\<close>

text \<open>
  \<open>for(i = 0; i < n; i++) if(P i) return i;\<close> is \<open>find P [0..<n]\<close>.
\<close>

lemma find_upt_None: "find P [0..<n] = None \<longleftrightarrow> (\<forall>i<n. \<not> P i)"
  by (auto simp: find_None_iff)

lemma find_SomeD: "find P xs = Some x \<Longrightarrow> P x \<and> x \<in> set xs"
  by (auto simp: find_Some_iff in_set_conv_nth)

lemma find_upt_Some: "find P [0..<n] = Some i \<longleftrightarrow> i < n \<and> P i \<and> (\<forall>j<i. \<not> P j)"
proof
  assume "find P [0..<n] = Some i"
  then obtain k where "k < n" "P ([0..<n] ! k)" "i = [0..<n] ! k" "\<forall>j<k. \<not> P ([0..<n] ! j)"
    unfolding find_Some_iff by auto
  then show "i < n \<and> P i \<and> (\<forall>j<i. \<not> P j)" by auto
next
  assume "i < n \<and> P i \<and> (\<forall>j<i. \<not> P j)"
  then show "find P [0..<n] = Some i"
    unfolding find_Some_iff by (intro exI [of _ i]) auto
qed

lemma find_cong_set: "(\<And>x. x \<in> set xs \<Longrightarrow> P x = Q x) \<Longrightarrow> find P xs = find Q xs"
  by (induction xs) auto

section \<open>Function updates used as arrays and lock maps\<close>

lemma fun_upd_same [simp]: "f x = y \<Longrightarrow> f(x := y) = f"
  by auto

section \<open>Little-endian fields\<close>

definition rd32 :: "bytes \<Rightarrow> nat \<Rightarrow> nat" where
  "rd32 b k = unat (b k) + 256 * unat (b (k + 1)) + 65536 * unat (b (k + 2))
     + 16777216 * unat (b (k + 3))"

definition wr32 :: "bytes \<Rightarrow> nat \<Rightarrow> nat \<Rightarrow> bytes" where
  "wr32 b k v = b(k := of_nat v, k + 1 := of_nat (v div 256), k + 2 := of_nat (v div 65536),
     k + 3 := of_nat (v div 16777216))"

definition rd16 :: "bytes \<Rightarrow> nat \<Rightarrow> nat" where
  "rd16 b k = unat (b k) + 256 * unat (b (k + 1))"

definition wr16 :: "bytes \<Rightarrow> nat \<Rightarrow> nat \<Rightarrow> bytes" where
  "wr16 b k v = b(k := of_nat v, k + 1 := of_nat (v div 256))"

text \<open>A C \<open>short\<close> read from and written to a 16-bit field.\<close>

definition short_of :: "nat \<Rightarrow> int" where
  "short_of v = (if v < 32768 then int v else int v - 65536)"

definition of_short :: "int \<Rightarrow> nat" where
  "of_short i = nat (i mod 65536)"

lemma unat_u8 [simp]: "unat (of_nat v :: u8) = v mod 256"
  by (simp add: unat_of_nat)

lemma unat_u8_less [simp]: "unat (x :: u8) < 256"
proof -
  have "unat x < 2 ^ LENGTH(8)" by (rule unsigned_less)
  then show ?thesis by simp
qed

lemma u8_bound: "unat (x :: u8) \<le> 255"
  using unat_u8_less [of x] by linarith

lemma rd32_wr32 [simp]: "rd32 (wr32 b k v) k = v mod 4294967296"
proof -
  have "v mod 256 + 256 * (v div 256 mod 256) = v mod 65536"
    using mod_mult2_eq [of v 256 256] by simp
  moreover have "v mod 65536 + 65536 * (v div 65536 mod 256) = v mod 16777216"
    using mod_mult2_eq [of v 65536 256] by simp
  moreover have "v mod 16777216 + 16777216 * (v div 16777216 mod 256) = v mod 4294967296"
    using mod_mult2_eq [of v 16777216 256] by simp
  ultimately show ?thesis by (simp add: rd32_def wr32_def)
qed

lemma rd32_wr32_other [simp]:
  "k + 4 \<le> j \<or> j + 4 \<le> k \<Longrightarrow> rd32 (wr32 b k v) j = rd32 b j"
  by (auto simp: rd32_def wr32_def)

lemma rd32_less: "rd32 b k < 4294967296"
  using u8_bound [of "b k"] u8_bound [of "b (k + 1)"] u8_bound [of "b (k + 2)"]
    u8_bound [of "b (k + 3)"]
  unfolding rd32_def by linarith

lemma rd16_wr16 [simp]: "rd16 (wr16 b k v) k = v mod 65536"
  using mod_mult2_eq [of v 256 256] by (simp add: rd16_def wr16_def)

lemma rd16_less: "rd16 b k < 65536"
  using u8_bound [of "b k"] u8_bound [of "b (k + 1)"] unfolding rd16_def by linarith

lemma wr32_outside: "j < k \<or> k + 4 \<le> j \<Longrightarrow> wr32 b k v j = b j"
  by (auto simp: wr32_def)

lemma wr16_outside: "j < k \<or> k + 2 \<le> j \<Longrightarrow> wr16 b k v j = b j"
  by (auto simp: wr16_def)

lemma rd32_cong:
  assumes "\<And>i. i < 4 \<Longrightarrow> b (k + i) = c (k + i)"
  shows "rd32 b k = rd32 c k"
  using assms [of 0] assms [of 1] assms [of 2] assms [of 3] by (simp add: rd32_def)

lemma rd32_wr16_other [simp]:
  "k + 2 \<le> j \<or> j + 4 \<le> k \<Longrightarrow> rd32 (wr16 b k v) j = rd32 b j"
  by (auto simp: rd32_def wr16_def)

lemma rd16_wr16_other [simp]:
  "k + 2 \<le> j \<or> j + 2 \<le> k \<Longrightarrow> rd16 (wr16 b k v) j = rd16 b j"
  by (auto simp: rd16_def wr16_def)

lemma rd16_wr32_other [simp]:
  "k + 4 \<le> j \<or> j + 2 \<le> k \<Longrightarrow> rd16 (wr32 b k v) j = rd16 b j"
  by (auto simp: rd16_def wr32_def)

lemma short_of_of_short [simp]:
  assumes "-32768 \<le> i" "i < 32768"
  shows "short_of (of_short i) = i"
proof (cases "0 \<le> i")
  case True
  with assms have "i mod 65536 = i" by simp
  with True assms show ?thesis by (simp add: short_of_def of_short_def)
next
  case False
  with assms have "(i + 65536) mod 65536 = i + 65536" by (intro mod_pos_pos_trivial) auto
  then have "i mod 65536 = i + 65536" by simp
  with False assms show ?thesis by (simp add: short_of_def of_short_def)
qed

lemma of_short_less: "of_short i < 65536"
  by (simp add: of_short_def nat_less_iff)

lemma short_of_range: "v < 65536 \<Longrightarrow> -32768 \<le> short_of v \<and> short_of v < 32768"
  by (auto simp: short_of_def)

section \<open>Copying bytes\<close>

text \<open>\<open>memmove(dst + d, src, n)\<close> with the source given as a list of bytes.\<close>

definition blit :: "bytes \<Rightarrow> nat \<Rightarrow> u8 list \<Rightarrow> bytes" where
  "blit b d xs = (\<lambda>i. if d \<le> i \<and> i < d + length xs then xs ! (i - d) else b i)"

text \<open>The \<open>n\<close> bytes from offset \<open>d\<close>.\<close>

definition slice :: "bytes \<Rightarrow> nat \<Rightarrow> nat \<Rightarrow> u8 list" where
  "slice b d n = map b [d..<d + n]"

lemma length_slice [simp]: "length (slice b d n) = n"
  by (simp add: slice_def)

lemma nth_slice [simp]: "i < n \<Longrightarrow> slice b d n ! i = b (d + i)"
  by (simp add: slice_def)

lemma blit_outside: "i < d \<or> d + length xs \<le> i \<Longrightarrow> blit b d xs i = b i"
  by (auto simp: blit_def)

lemma slice_blit_same [simp]: "slice (blit b d xs) d (length xs) = xs"
  by (rule nth_equalityI) (auto simp: blit_def)

lemma slice_blit_other:
  "k + n \<le> d \<or> d + length xs \<le> k \<Longrightarrow> slice (blit b d xs) k n = slice b k n"
  by (rule nth_equalityI) (auto simp: blit_def)

lemma blit_Nil [simp]: "blit b d [] = b"
  by (auto simp: blit_def fun_eq_iff)

lemma slice_0 [simp]: "slice b d 0 = []"
  by (simp add: slice_def)

lemma slice_add: "slice b d (m + n) = slice b d m @ slice b (d + m) n"
  by (rule nth_equalityI) (auto simp: nth_append)

end
