(* ===== verification/Spinlock.thy ===== *)
theory Spinlock
  imports Prelude
begin

text \<open>
  Spin locks (\<^verbatim>\<open>src/spinlock.c\<close>, \<^verbatim>\<open>src/spinlock.h\<close>) and the per-CPU interrupt nesting they rely on.

  The first part models the code: \<open>struct spinlock\<close>, the part of \<open>struct cpu\<close> that \<open>pushcli\<close> and
  \<open>popcli\<close> use, and every function of \<^verbatim>\<open>spinlock.c\<close>.  The loop of \<open>acquire\<close> may run forever, so
  the sequential \<open>acquire\<close> has an \<open>option\<close> result.  The second part interleaves the CPUs: an
  inductive step relation whose invariant gives mutual exclusion and shows that interrupts are
  off while a lock is held.  The third part is the lock interface the rest of the kernel uses,
  as a locale, with its two instances: the machine-level lock and the lock map of the kernel
  state seen from one CPU.
\<close>

section \<open>The code\<close>

record spinlock =
  locked :: u32
  lk_name :: string
  lk_cpu :: "nat option"
  pcs :: "u32 list"

record cpu_int =
  ncli :: int
  intena :: bool
  eflags_IF :: bool

record machine =
  cpus :: "nat \<Rightarrow> cpu_int"
  locks :: "lockid \<Rightarrow> spinlock"
  kstk :: "u32 \<Rightarrow> u32"

definition initlock :: "lockid \<Rightarrow> string \<Rightarrow> (unit, machine) kop" where
  "initlock lk name = kmod (\<lambda>m. m\<lparr>locks := (locks m)(lk :=
     (locks m lk)\<lparr>lk_name := name, locked := 0, lk_cpu := None\<rparr>)\<rparr>)"

definition holding :: "nat \<Rightarrow> lockid \<Rightarrow> machine \<Rightarrow> bool" where
  "holding c lk m \<longleftrightarrow> locked (locks m lk) \<noteq> 0 \<and> lk_cpu (locks m lk) = Some c"

definition pushcli :: "nat \<Rightarrow> (unit, machine) kop" where
  "pushcli c = kmod (\<lambda>m. let cp = cpus m c; eflags = eflags_IF cp; off = cp\<lparr>eflags_IF := False\<rparr> in
     m\<lparr>cpus := (cpus m)(c :=
       (if ncli cp = 0 then off\<lparr>ncli := ncli cp + 1, intena := eflags\<rparr>
        else off\<lparr>ncli := ncli cp + 1\<rparr>))\<rparr>)"

definition popcli :: "nat \<Rightarrow> (unit, machine) kop" where
  "popcli c m =
     (let cp = cpus m c; n = ncli cp - 1 in
      if eflags_IF cp then Panic ''popcli - interruptible''
      else if n < 0 then Panic ''popcli''
      else Ok () (m\<lparr>cpus := (cpus m)(c :=
             (if n = 0 \<and> intena cp then cp\<lparr>ncli := n, eflags_IF := True\<rparr>
              else cp\<lparr>ncli := n\<rparr>))\<rparr>))"

text \<open>
  \<open>getcallerpcs\<close> follows the saved frame pointers in kernel memory, read as 32-bit words.
  \<open>pcs_walk k ebp\<close> is the loop with \<open>k\<close> entries left.
\<close>

fun pcs_walk :: "(u32 \<Rightarrow> u32) \<Rightarrow> nat \<Rightarrow> u32 \<Rightarrow> u32 list" where
  "pcs_walk mem 0 ebp = []"
| "pcs_walk mem (Suc k) ebp =
     (if ebp = 0 \<or> ebp < 0x80000000 \<or> ebp = 0xffffffff then replicate (Suc k) 0
      else mem (ebp + 4) # pcs_walk mem k (mem ebp))"

definition getcallerpcs :: "(u32 \<Rightarrow> u32) \<Rightarrow> u32 \<Rightarrow> u32 list" where
  "getcallerpcs mem v = pcs_walk mem 10 (v - 8)"

text \<open>The spin loop: \<open>while(xchg(&lk->locked, 1) != 0) ;\<close>\<close>

definition xchg_locked :: "lockid \<Rightarrow> u32 \<Rightarrow> machine \<Rightarrow> u32 \<times> machine" where
  "xchg_locked lk v m =
     (locked (locks m lk), m\<lparr>locks := (locks m)(lk := (locks m lk)\<lparr>locked := v\<rparr>)\<rparr>)"

partial_function (option) spin :: "lockid \<Rightarrow> machine \<Rightarrow> machine option" where
  "spin lk m = (case xchg_locked lk 1 m of (old, m') \<Rightarrow> if old \<noteq> 0 then spin lk m' else Some m')"

definition acquire_enter :: "nat \<Rightarrow> lockid \<Rightarrow> (unit, machine) kop" where
  "acquire_enter c lk = kthen (pushcli c) (kassert (\<lambda>m. \<not> holding c lk m) ''acquire'')"

definition acquire_done :: "nat \<Rightarrow> lockid \<Rightarrow> u32 \<Rightarrow> machine \<Rightarrow> machine" where
  "acquire_done c lk v m = m\<lparr>locks := (locks m)(lk :=
     (locks m lk)\<lparr>lk_cpu := Some c, pcs := getcallerpcs (kstk m) v\<rparr>)\<rparr>"

definition acquire :: "nat \<Rightarrow> lockid \<Rightarrow> u32 \<Rightarrow> machine \<Rightarrow> (unit, machine) res option" where
  "acquire c lk v m =
     (case acquire_enter c lk m of
        Ok _ m1 \<Rightarrow> (case spin lk m1 of None \<Rightarrow> None | Some m2 \<Rightarrow> Some (Ok () (acquire_done c lk v m2)))
      | Panic e \<Rightarrow> Some (Panic e)
      | Switch w m1 \<Rightarrow> Some (Switch w m1))"

definition release :: "nat \<Rightarrow> lockid \<Rightarrow> (unit, machine) kop" where
  "release c lk =
     kthen (kassert (holding c lk) ''release'')
    (kthen (kmod (\<lambda>m. m\<lparr>locks := (locks m)(lk :=
              (locks m lk)\<lparr>pcs := (pcs (locks m lk))[0 := 0], lk_cpu := None\<rparr>)\<rparr>))
    (kthen (kmod (\<lambda>m. snd (xchg_locked lk 0 m)))
           (popcli c)))"

subsection \<open>Behaviour of the single functions\<close>

lemma length_pcs_walk: "length (pcs_walk mem k ebp) = k"
  by (induction mem k ebp rule: pcs_walk.induct) auto

lemma getcallerpcs_length: "length (getcallerpcs mem v) = 10"
  by (simp add: getcallerpcs_def length_pcs_walk)

lemma spin_free: "locked (locks m lk) = 0 \<Longrightarrow> spin lk m = Some (snd (xchg_locked lk 1 m))"
  by (subst spin.simps) (simp add: xchg_locked_def)

text \<open>On a taken lock the loop returns to the state it started in, so it never ends.\<close>

lemma spin_taken_Some: "spin lk m = Some m' \<Longrightarrow> locked (locks m lk) = 0"
proof (rule spin.raw_induct [where P = "\<lambda>lk m m'. locked (locks m lk) = 0"])
  fix sp :: "lockid \<Rightarrow> machine \<Rightarrow> machine option" and lk m m'
  assume IH: "\<And>lk m m'. sp lk m = Some m' \<Longrightarrow> locked (locks m lk) = 0"
    and eq: "(case xchg_locked lk 1 m of (old, m1) \<Rightarrow> if old \<noteq> 0 then sp lk m1 else Some m1) = Some m'"
  show "locked (locks m lk) = 0"
  proof (rule ccontr)
    assume "locked (locks m lk) \<noteq> 0"
    with eq have "sp lk (snd (xchg_locked lk 1 m)) = Some m'"
      by (simp add: xchg_locked_def)
    from IH [OF this] show False by (simp add: xchg_locked_def)
  qed
qed

lemma spin_taken: "locked (locks m lk) \<noteq> 0 \<Longrightarrow> spin lk m = None"
  using spin_taken_Some by (cases "spin lk m") blast+

lemma spin_eq:
  "spin lk m = (if locked (locks m lk) = 0 then Some (snd (xchg_locked lk 1 m)) else None)"
  by (simp add: spin_free spin_taken)

lemma pushcli_eq: "pushcli c m = Ok () (m\<lparr>cpus := (cpus m)(c := (cpus m c)\<lparr>ncli := ncli (cpus m c) + 1,
    intena := (if ncli (cpus m c) = 0 then eflags_IF (cpus m c) else intena (cpus m c)),
    eflags_IF := False\<rparr>)\<rparr>)"
  by (cases "cpus m c") (simp add: pushcli_def kop_simps Let_def)

lemma acquire_enter_eq:
  "acquire_enter c lk m = (if holding c lk m then Panic ''acquire'' else pushcli c m)"
  by (simp add: acquire_enter_def kop_simps pushcli_eq holding_def)

text \<open>
  \<open>acquire\<close> on a free lock returns with the lock held by the calling CPU, one more level of
  interrupt nesting and interrupts off; on a lock the CPU already holds it panics; on a lock
  another CPU holds it spins forever unless some other CPU acts.
\<close>

lemma acquire_outcomes:
  "(locked (locks m lk) = 0 \<longrightarrow>
     (\<exists>m'. acquire c lk v m = Some (Ok () m') \<and> holding c lk m' \<and>
        ncli (cpus m' c) = ncli (cpus m c) + 1 \<and> \<not> eflags_IF (cpus m' c))) \<and>
   (holding c lk m \<longrightarrow> acquire c lk v m = Some (Panic ''acquire'')) \<and>
   (locked (locks m lk) \<noteq> 0 \<and> lk_cpu (locks m lk) \<noteq> Some c \<longrightarrow> acquire c lk v m = None)"
  by (auto simp: acquire_def acquire_enter_eq pushcli_eq spin_free spin_taken acquire_done_def
      xchg_locked_def holding_def)

text \<open>
  Releasing right after acquiring gives back the lock and restores the interrupt flag, whatever
  the nesting depth was.
\<close>

lemma acquire_release:
  assumes "locked (locks m lk) = 0" and "acquire c lk v m = Some (Ok () m')"
    and "0 \<le> ncli (cpus m c)" and "0 < ncli (cpus m c) \<longrightarrow> \<not> eflags_IF (cpus m c)"
  shows "\<exists>m''. release c lk m' = Ok () m'' \<and> locked (locks m'' lk) = 0 \<and> \<not> holding c lk m'' \<and>
     ncli (cpus m'' c) = ncli (cpus m c) \<and> eflags_IF (cpus m'' c) = eflags_IF (cpus m c)"
  using assms
  by (auto simp: acquire_def acquire_enter_eq pushcli_eq spin_free acquire_done_def release_def
      xchg_locked_def holding_def popcli_def kop_simps Let_def split: if_splits)

section \<open>Interleaved CPUs\<close>

text \<open>
  Each CPU is running outside \<open>acquire\<close> (\<open>Run\<close>), spinning in it (\<open>Spin\<close>), or between the
  successful exchange and the recording of the owner (\<open>Got\<close>).  \<open>crit\<close> is the list of locks a CPU
  has acquired and not yet released.  One step is one CPU executing one of these parts;
  \<open>set_IF\<close> is any code that enables or disables interrupts with no lock held, such as the
  \<open>sti()\<close> of the scheduler.
\<close>

datatype lpc = Run | Spin lockid | Got lockid

record conf =
  mach :: machine
  lpcs :: "nat \<Rightarrow> lpc"
  crit :: "nat \<Rightarrow> lockid list"

inductive mstep :: "conf \<Rightarrow> conf \<Rightarrow> bool" where
  enter: "lpcs s c = Run \<Longrightarrow> acquire_enter c L (mach s) = Ok () m' \<Longrightarrow>
    mstep s (s\<lparr>mach := m', lpcs := (lpcs s)(c := Spin L)\<rparr>)"
| spin_again: "lpcs s c = Spin L \<Longrightarrow> xchg_locked L 1 (mach s) = (old, m') \<Longrightarrow> old \<noteq> 0 \<Longrightarrow>
    mstep s (s\<lparr>mach := m'\<rparr>)"
| spin_got: "lpcs s c = Spin L \<Longrightarrow> xchg_locked L 1 (mach s) = (0, m') \<Longrightarrow>
    mstep s (s\<lparr>mach := m', lpcs := (lpcs s)(c := Got L)\<rparr>)"
| record_owner: "lpcs s c = Got L \<Longrightarrow>
    mstep s (s\<lparr>mach := acquire_done c L v (mach s), lpcs := (lpcs s)(c := Run),
      crit := (crit s)(c := L # crit s c)\<rparr>)"
| unlock: "lpcs s c = Run \<Longrightarrow> release c L (mach s) = Ok () m' \<Longrightarrow>
    mstep s (s\<lparr>mach := m', crit := (crit s)(c := remove1 L (crit s c))\<rparr>)"
| set_IF: "lpcs s c = Run \<Longrightarrow> ncli (cpus (mach s) c) = 0 \<Longrightarrow>
    mstep s (s\<lparr>mach := (mach s)\<lparr>cpus := (cpus (mach s))(c := (cpus (mach s) c)\<lparr>eflags_IF := b\<rparr>)\<rparr>\<rparr>)"

definition boot_conf :: "conf \<Rightarrow> bool" where
  "boot_conf s \<longleftrightarrow> (\<forall>c. lpcs s c = Run \<and> crit s c = [] \<and> ncli (cpus (mach s) c) = 0) \<and>
     (\<forall>L. locked (locks (mach s) L) = 0 \<and> lk_cpu (locks (mach s) L) = None)"

inductive reach_conf :: "conf \<Rightarrow> bool" where
  boot: "boot_conf s \<Longrightarrow> reach_conf s"
| step: "reach_conf s \<Longrightarrow> mstep s t \<Longrightarrow> reach_conf t"

definition cpu_ok :: "conf \<Rightarrow> nat \<Rightarrow> bool" where
  "cpu_ok s c \<longleftrightarrow> distinct (crit s c) \<and>
     ncli (cpus (mach s) c) = int (length (crit s c)) + (if lpcs s c = Run then 0 else 1) \<and>
     (ncli (cpus (mach s) c) \<noteq> 0 \<longrightarrow> \<not> eflags_IF (cpus (mach s) c)) \<and>
     (\<forall>L. L \<in> set (crit s c) \<longleftrightarrow> lk_cpu (locks (mach s) L) = Some c)"

definition lock_ok :: "conf \<Rightarrow> lockid \<Rightarrow> bool" where
  "lock_ok s L \<longleftrightarrow>
     (locked (locks (mach s) L) = 0 \<longrightarrow> lk_cpu (locks (mach s) L) = None \<and> (\<forall>c. lpcs s c \<noteq> Got L)) \<and>
     (\<forall>c. lpcs s c = Got L \<longrightarrow> lk_cpu (locks (mach s) L) = None \<and> (\<forall>d. lpcs s d = Got L \<longrightarrow> d = c))"

definition conf_inv :: "conf \<Rightarrow> bool" where
  "conf_inv s \<longleftrightarrow> (\<forall>c. cpu_ok s c) \<and> (\<forall>L. lock_ok s L)"

lemma boot_inv: "boot_conf s \<Longrightarrow> conf_inv s"
  by (simp add: boot_conf_def conf_inv_def cpu_ok_def lock_ok_def)

lemma release_Ok:
  "release c L m = Ok u m' \<longleftrightarrow> holding c L m \<and> \<not> eflags_IF (cpus m c) \<and> 1 \<le> ncli (cpus m c) \<and>
     m' = m\<lparr>locks := (locks m)(L := (locks m L)\<lparr>pcs := (pcs (locks m L))[0 := 0], lk_cpu := None,
              locked := 0\<rparr>),
            cpus := (cpus m)(c := (cpus m c)\<lparr>ncli := ncli (cpus m c) - 1,
              eflags_IF := (ncli (cpus m c) = 1 \<and> intena (cpus m c))\<rparr>)\<rparr>"
  by (cases "cpus m c")
    (auto simp: release_def kop_simps xchg_locked_def popcli_def Let_def holding_def)

lemma conf_invI: "(\<And>d. cpu_ok s d) \<Longrightarrow> (\<And>K. lock_ok s K) \<Longrightarrow> conf_inv s"
  by (simp add: conf_inv_def)

lemma mstep_inv: "mstep s t \<Longrightarrow> conf_inv s \<Longrightarrow> conf_inv t"
proof (induction rule: mstep.induct)
  case (enter s c L m')
  then have inv: "cpu_ok s d" "lock_ok s K" for d K by (simp_all add: conf_inv_def)
  show ?case
  proof (rule conf_invI, goal_cases)
    case (1 d)
    show ?case
      using inv(1) [of d] inv(1) [of c] inv(2) [of L] enter
      by (auto simp: cpu_ok_def lock_ok_def acquire_enter_eq pushcli_eq split: if_splits)
  next
    case (2 K)
    show ?case
      using inv(2) [of K] inv(2) [of L] inv(1) [of c] enter
      by (auto simp: cpu_ok_def lock_ok_def acquire_enter_eq pushcli_eq split: if_splits)
  qed
next
  case (spin_again s c L old m')
  then have inv: "cpu_ok s d" "lock_ok s K" for d K by (simp_all add: conf_inv_def)
  show ?case
  proof (rule conf_invI, goal_cases)
    case (1 d)
    show ?case
      using inv(1) [of d] inv(1) [of c] inv(2) [of L] spin_again
      by (auto simp: cpu_ok_def lock_ok_def xchg_locked_def split: if_splits)
  next
    case (2 K)
    show ?case
      using inv(2) [of K] inv(2) [of L] inv(1) [of c] spin_again
      by (auto simp: cpu_ok_def lock_ok_def xchg_locked_def split: if_splits)
  qed
next
  case (spin_got s c L m')
  then have inv: "cpu_ok s d" "lock_ok s K" for d K by (simp_all add: conf_inv_def)
  show ?case
  proof (rule conf_invI, goal_cases)
    case (1 d)
    show ?case
      using inv(1) [of d] inv(1) [of c] inv(2) [of L] spin_got
      by (auto simp: cpu_ok_def lock_ok_def xchg_locked_def split: if_splits)
  next
    case (2 K)
    show ?case
      using inv(2) [of K] inv(2) [of L] inv(1) [of c] spin_got
      by (auto simp: cpu_ok_def lock_ok_def xchg_locked_def split: if_splits)
  qed
next
  case (record_owner s c L v)
  then have inv: "cpu_ok s d" "lock_ok s K" for d K by (simp_all add: conf_inv_def)
  show ?case
  proof (rule conf_invI, goal_cases)
    case (1 d)
    show ?case
      using inv(1) [of d] inv(1) [of c] inv(2) [of L] record_owner
      by (auto simp: cpu_ok_def lock_ok_def acquire_done_def split: if_splits)
  next
    case (2 K)
    show ?case
      using inv(2) [of K] inv(2) [of L] inv(1) [of c] record_owner
      by (auto simp: cpu_ok_def lock_ok_def acquire_done_def split: if_splits)
  qed
next
  case (unlock s c L m')
  then have inv: "cpu_ok s d" "lock_ok s K" for d K by (simp_all add: conf_inv_def)
  show ?case
  proof (rule conf_invI, goal_cases)
    case (1 d)
    show ?case
      using inv(1) [of d] inv(1) [of c] inv(2) [of L] unlock
      by (auto simp: cpu_ok_def lock_ok_def release_Ok holding_def length_remove1 split: if_splits)
  next
    case (2 K)
    show ?case
      using inv(2) [of K] inv(2) [of L] inv(1) [of c] unlock
      by (auto simp: cpu_ok_def lock_ok_def release_Ok holding_def length_remove1 split: if_splits)
  qed
next
  case (set_IF s c b)
  then have inv: "cpu_ok s d" "lock_ok s K" for d K by (simp_all add: conf_inv_def)
  show ?case
  proof (rule conf_invI, goal_cases)
    case (1 d)
    show ?case
      using inv(1) [of d] inv(1) [of c] set_IF
      by (auto simp: cpu_ok_def lock_ok_def  split: if_splits)
  next
    case (2 K)
    show ?case
      using inv(2) [of K] inv(1) [of c] set_IF
      by (auto simp: cpu_ok_def lock_ok_def  split: if_splits)
  qed
qed

lemma reach_conf_inv: "reach_conf s \<Longrightarrow> conf_inv s"
  by (induction rule: reach_conf.induct) (auto intro: boot_inv mstep_inv)

text \<open>
  C30. Mutual exclusion: in every reachable configuration a lock is in the critical section of
  at most one CPU, and \<open>holding\<close> says exactly whether it is this CPU's.
\<close>

theorem mutual_exclusion:
  assumes "reach_conf s" and "L \<in> set (crit s c)"
  shows "holding c L (mach s) \<and> (\<forall>d. d \<noteq> c \<longrightarrow> L \<notin> set (crit s d) \<and> \<not> holding d L (mach s))"
proof -
  from reach_conf_inv [OF assms(1)] have ok: "\<forall>c. cpu_ok s c" "\<forall>L. lock_ok s L"
    by (auto simp: conf_inv_def)
  with assms(2) have own: "lk_cpu (locks (mach s) L) = Some c" by (simp add: cpu_ok_def)
  with ok(2) have "locked (locks (mach s) L) \<noteq> 0" by (auto simp: lock_ok_def)
  with own ok(1) show ?thesis by (auto simp: holding_def cpu_ok_def)
qed

text \<open>
  C27. While a CPU holds any lock, or is inside \<open>acquire\<close>, its interrupts are off, and its
  nesting depth is the number of locks it holds (plus one inside \<open>acquire\<close>): releasing the last
  lock is the only way interrupts can come back on.
\<close>

theorem locked_means_no_interrupts:
  assumes "reach_conf s" and "crit s c \<noteq> [] \<or> lpcs s c \<noteq> Run"
  shows "\<not> eflags_IF (cpus (mach s) c) \<and>
     ncli (cpus (mach s) c) = int (length (crit s c)) + (if lpcs s c = Run then 0 else 1)"
  using reach_conf_inv [OF assms(1)] assms(2)
  by (auto simp: conf_inv_def cpu_ok_def split: if_splits)

text \<open>The theorems apply: CPU 0 takes the lock of the process table from the boot state.\<close>

definition boot_example :: conf where
  "boot_example = \<lparr>mach = \<lparr>cpus = (\<lambda>_. \<lparr>ncli = 0, intena = False, eflags_IF = True\<rparr>),
      locks = (\<lambda>_. \<lparr>locked = 0, lk_name = [], lk_cpu = None, pcs = replicate 10 0\<rparr>),
      kstk = (\<lambda>_. 0)\<rparr>, lpcs = (\<lambda>_. Run), crit = (\<lambda>_. [])\<rparr>"

definition got_example :: conf where
  "got_example = boot_example\<lparr>
     mach := acquire_done 0 LPtable 0 (snd (xchg_locked LPtable 1
       ((mach boot_example)\<lparr>cpus := (cpus (mach boot_example))(0 := \<lparr>ncli = 1, intena = True, eflags_IF = False\<rparr>)\<rparr>))),
     lpcs := (\<lambda>_. Run)(0 := Run), crit := (\<lambda>_. [])(0 := [LPtable])\<rparr>"

lemma got_example_reachable: "reach_conf got_example"
proof -
  have r0: "reach_conf boot_example"
    by (rule reach_conf.boot) (simp add: boot_conf_def boot_example_def)
  define m1 where "m1 = (mach boot_example)\<lparr>cpus := (cpus (mach boot_example))(0 :=
      \<lparr>ncli = 1, intena = True, eflags_IF = False\<rparr>)\<rparr>"
  define s1 where "s1 = boot_example\<lparr>mach := m1, lpcs := (lpcs boot_example)(0 := Spin LPtable)\<rparr>"
  have "mstep boot_example s1"
    unfolding s1_def by (rule mstep.enter)
      (simp_all add: m1_def boot_example_def acquire_enter_eq pushcli_eq holding_def)
  with r0 have r1: "reach_conf s1" by (rule reach_conf.step)
  define s2 where "s2 = s1\<lparr>mach := snd (xchg_locked LPtable 1 m1), lpcs := (lpcs s1)(0 := Got LPtable)\<rparr>"
  have "mstep s1 s2"
    unfolding s2_def by (rule mstep.spin_got [where L = LPtable])
      (simp_all add: s1_def m1_def boot_example_def xchg_locked_def)
  with r1 have r2: "reach_conf s2" by (rule reach_conf.step)
  have "mstep s2 (s2\<lparr>mach := acquire_done 0 LPtable 0 (mach s2), lpcs := (lpcs s2)(0 := Run),
      crit := (crit s2)(0 := LPtable # crit s2 0)\<rparr>)"
    by (rule mstep.record_owner) (simp add: s2_def)
  with r2 have "reach_conf (s2\<lparr>mach := acquire_done 0 LPtable 0 (mach s2), lpcs := (lpcs s2)(0 := Run),
      crit := (crit s2)(0 := LPtable # crit s2 0)\<rparr>)" by (rule reach_conf.step)
  then show ?thesis
    by (simp add: got_example_def s2_def s1_def m1_def boot_example_def)
qed

lemma got_example_crit: "crit got_example 0 = [LPtable]"
  by (simp add: got_example_def)

theorem mutual_exclusion_witness:
  "holding 0 LPtable (mach got_example) \<and> LPtable \<notin> set (crit got_example 1) \<and>
   \<not> holding 1 LPtable (mach got_example)"
  using mutual_exclusion [OF got_example_reachable, of LPtable 0] by (simp add: got_example_crit)

theorem locked_means_no_interrupts_witness:
  "\<not> eflags_IF (cpus (mach got_example) 0) \<and>
   ncli (cpus (mach got_example) 0) = int (length (crit got_example 0)) +
     (if lpcs got_example 0 = Run then 0 else 1)"
  by (rule locked_means_no_interrupts [OF got_example_reachable]) (simp add: got_example_crit)

section \<open>The lock interface\<close>

text \<open>
  What a client may rely on, seen from one CPU: a successful \<open>acquire\<close> was not a re-acquire and
  adds the lock, a successful \<open>release\<close> drops a lock that was held.  From these laws every
  successful sequence of calls is balanced.
\<close>

fun lock_trace :: "(lockid \<Rightarrow> 's \<Rightarrow> 's \<Rightarrow> bool) \<Rightarrow> (lockid \<Rightarrow> 's \<Rightarrow> 's \<Rightarrow> bool) \<Rightarrow>
    (bool \<times> lockid) list \<Rightarrow> 's \<Rightarrow> 's \<Rightarrow> bool" where
  "lock_trace acq rel [] s t \<longleftrightarrow> s = t"
| "lock_trace acq rel ((a, L) # es) s t \<longleftrightarrow>
     (\<exists>u. (if a then acq L s u else rel L s u) \<and> lock_trace acq rel es u t)"

locale spin_lock =
  fixes acq rel :: "lockid \<Rightarrow> 's \<Rightarrow> 's \<Rightarrow> bool"
    and holds :: "'s \<Rightarrow> lockid \<Rightarrow> bool"
    and sound :: "'s \<Rightarrow> bool"
  assumes acq_law: "sound s \<Longrightarrow> acq L s t \<Longrightarrow> sound t \<and> \<not> holds s L \<and> holds t = (holds s)(L := True)"
    and rel_law: "sound s \<Longrightarrow> rel L s t \<Longrightarrow> sound t \<and> holds s L \<and> holds t = (holds s)(L := False)"
begin

lemma no_reacquire: "sound s \<Longrightarrow> acq L s t \<Longrightarrow> \<not> acq L t u"
  using acq_law [of s L t] acq_law [of t L u] by auto

lemma no_double_release: "sound s \<Longrightarrow> rel L s t \<Longrightarrow> \<not> rel L t u"
  using rel_law [of s L t] rel_law [of t L u] by auto

lemma critical_section:
  assumes "sound s" "acq L s t" "holds u = holds t" "sound u" "rel L u v"
  shows "holds v = holds s"
  using acq_law [OF assms(1,2)] assms(3) rel_law [OF assms(4,5)] by auto

lemma trace_balanced:
  "lock_trace acq rel es s t \<Longrightarrow> sound s \<Longrightarrow>
   count_list es (True, L) + (if holds s L then 1 else 0) =
   count_list es (False, L) + (if holds t L then 1 else 0)"
proof (induction es arbitrary: s)
  case Nil
  then show ?case by simp
next
  case (Cons e es)
  obtain a K where e: "e = (a, K)" by (cases e)
  with Cons.prems obtain u where st: "if a then acq K s u else rel K s u"
    and tr: "lock_trace acq rel es u t" by auto
  have "holds u = (holds s)(K := a) \<and> holds s K = (\<not> a)" "sound u"
    using st Cons.prems(2) acq_law [of s K u] rel_law [of s K u] by (cases a; auto)+
  with Cons.IH [OF tr] show ?case by (auto simp: e split: if_splits)
qed

end

interpretation machine_lock: spin_lock
  "\<lambda>L m m'. acquire c L v m = Some (Ok () m')" "\<lambda>L m m'. release c L m = Ok () m'"
  "\<lambda>m L. holding c L m" "\<lambda>_. True" for c v
proof (unfold_locales, goal_cases)
  case (1 s L t)
  then show ?case
    by (auto simp: acquire_def acquire_enter_eq pushcli_eq holding_def spin_eq acquire_done_def
        xchg_locked_def fun_eq_iff split: if_splits)
next
  case (2 s L t)
  then show ?case
    by (auto simp: release_Ok holding_def fun_eq_iff)
qed

section \<open>The locks of the kernel state\<close>

text \<open>
  The other components run on one CPU at a time and see of the locks only which of them this
  CPU holds, most recently acquired first.  \<open>kacquire\<close> and \<open>krelease\<close> are the calls they make;
  the length of the list is the nesting depth \<open>ncli\<close>.  Waiting for another CPU in the spin loop
  changes nothing they can observe; that the machine-level functions implement these two is
  \<open>lock_view_refines\<close>.
\<close>

record klocks =
  held :: "lockid list"

definition kacquire :: "lockid \<Rightarrow> (unit, 'z klocks_scheme) kop" where
  "kacquire L = kthen (kassert (\<lambda>s. L \<notin> set (held s)) ''acquire'')
     (kmod (\<lambda>s. s\<lparr>held := L # held s\<rparr>))"

definition krelease :: "lockid \<Rightarrow> (unit, 'z klocks_scheme) kop" where
  "krelease L = kthen (kassert (\<lambda>s. L \<in> set (held s)) ''release'')
     (kmod (\<lambda>s. s\<lparr>held := remove1 L (held s)\<rparr>))"

lemma run_kacquire [kop_simps]:
  "kacquire L s = (if L \<in> set (held s) then Panic ''acquire'' else Ok () (s\<lparr>held := L # held s\<rparr>))"
  by (simp add: kacquire_def kop_simps)

lemma run_krelease [kop_simps]:
  "krelease L s = (if L \<in> set (held s) then Ok () (s\<lparr>held := remove1 L (held s)\<rparr>) else Panic ''release'')"
  by (simp add: krelease_def kop_simps)

lemma wp_kacquire [wp_simps]:
  "wp (kacquire L) Q s = (L \<notin> set (held s) \<and> Q () (s\<lparr>held := L # held s\<rparr>))"
  and wlp_kacquire [wp_simps]:
  "wlp (kacquire L) Q s = (L \<notin> set (held s) \<longrightarrow> Q () (s\<lparr>held := L # held s\<rparr>))"
  by (simp_all add: wp_def wlp_def run_kacquire)

lemma wp_krelease [wp_simps]:
  "wp (krelease L) Q s = (L \<in> set (held s) \<and> Q () (s\<lparr>held := remove1 L (held s)\<rparr>))"
  and wlp_krelease [wp_simps]:
  "wlp (krelease L) Q s = (L \<in> set (held s) \<longrightarrow> Q () (s\<lparr>held := remove1 L (held s)\<rparr>))"
  by (simp_all add: wp_def wlp_def run_krelease)

interpretation kernel_lock: spin_lock
  "\<lambda>L s t. kacquire L s = Ok () t" "\<lambda>L s t. krelease L s = Ok () t"
  "\<lambda>s L. L \<in> set (held s)" "\<lambda>s :: 'z klocks_scheme. distinct (held s)"
  by unfold_locales (auto simp: run_kacquire run_krelease fun_eq_iff split: if_splits)

definition lock_rel :: "nat \<Rightarrow> machine \<Rightarrow> klocks \<Rightarrow> bool" where
  "lock_rel c m s \<longleftrightarrow> distinct (held s) \<and> (\<forall>L. L \<in> set (held s) \<longleftrightarrow> holding c L m) \<and>
     ncli (cpus m c) = int (length (held s))"

text \<open>
  C28. The machine-level locks implement the lock list of the kernel state: whenever \<open>acquire\<close> or
  \<open>release\<close> returns on a CPU, the corresponding operation on the lock list returns too and the
  two states stay related (the same locks, a nesting depth that is their number); a re-acquire
  and a release of a lock not held panic in both.
\<close>

theorem lock_view_refines:
  assumes "lock_rel c m s"
  shows "(\<forall>m'. acquire c L v m = Some (Ok () m') \<longrightarrow>
       (\<exists>s'. kacquire L s = Ok () s' \<and> lock_rel c m' s')) \<and>
   (\<forall>m'. release c L m = Ok () m' \<longrightarrow> (\<exists>s'. krelease L s = Ok () s' \<and> lock_rel c m' s')) \<and>
   (acquire c L v m = Some (Panic ''acquire'') \<longleftrightarrow> kacquire L s = Panic ''acquire'') \<and>
   (release c L m = Panic ''release'' \<longleftrightarrow> krelease L s = Panic ''release'')"
proof (intro conjI allI impI)
  fix m' assume a: "acquire c L v m = Some (Ok () m')"
  have "ncli (cpus m' c) = ncli (cpus m c) + 1"
    using a by (auto simp: acquire_def acquire_enter_eq pushcli_eq spin_eq acquire_done_def
        xchg_locked_def split: if_splits)
  with machine_lock.acq_law [OF TrueI a] assms
  show "\<exists>s'. kacquire L s = Ok () s' \<and> lock_rel c m' s'"
    by (auto simp: lock_rel_def run_kacquire fun_eq_iff)
next
  fix m' assume r: "release c L m = Ok () m'"
  then have "ncli (cpus m' c) = ncli (cpus m c) - 1" by (simp add: release_Ok)
  moreover have "0 < length (held s)"
    using machine_lock.rel_law [OF TrueI r] assms
    by (auto simp: lock_rel_def intro: length_pos_if_in_set)
  then have "int (length (held s) - Suc 0) = int (length (held s)) - 1" by linarith
  ultimately show "\<exists>s'. krelease L s = Ok () s' \<and> lock_rel c m' s'"
    using machine_lock.rel_law [OF TrueI r] assms
    by (auto simp: lock_rel_def run_krelease fun_eq_iff length_remove1)
next
  show "acquire c L v m = Some (Panic ''acquire'') \<longleftrightarrow> kacquire L s = Panic ''acquire''"
    using assms
    by (auto simp: acquire_def acquire_enter_eq pushcli_eq lock_rel_def run_kacquire split: option.splits)
next
  show "release c L m = Panic ''release'' \<longleftrightarrow> krelease L s = Panic ''release''"
    using assms
    by (auto simp: release_def kop_simps popcli_def xchg_locked_def lock_rel_def Let_def)
qed

theorem lock_view_refines_witness:
  "\<exists>s'. kacquire LPtable \<lparr>held = []\<rparr> = Ok () s'"
proof -
  have rel: "lock_rel 0 (mach boot_example) \<lparr>held = []\<rparr>"
    by (simp add: lock_rel_def boot_example_def holding_def)
  have "acquire 0 LPtable 0 (mach boot_example) \<noteq> Some (Panic ''acquire'')"
    by (simp add: boot_example_def acquire_def acquire_enter_eq holding_def pushcli_eq spin_eq)
  then have "kacquire LPtable \<lparr>held = []\<rparr> \<noteq> Panic ''acquire''"
    using lock_view_refines [OF rel, of LPtable 0] by blast
  then show ?thesis by (simp add: run_kacquire)
qed

end
