(* ===== verification/Mmu.thy ===== *)
theory Mmu
  imports Prelude
begin

text \<open>
  Addresses and page-table entries: the macros of \<^verbatim>\<open>src/mmu.h\<close> and \<^verbatim>\<open>src/memlayout.h\<close>.  An
  address and a page-table entry are 32-bit numbers, here naturals below \<open>2 ^ 32\<close>; additions that
  can wrap are taken modulo \<open>2 ^ 32\<close>.
\<close>

abbreviation (input) "W32 \<equiv> (4294967296 :: nat)"
abbreviation (input) "PGSIZE \<equiv> (4096 :: nat)"
abbreviation (input) "NPDENTRIES \<equiv> (1024 :: nat)"
abbreviation (input) "NPTENTRIES \<equiv> (1024 :: nat)"
abbreviation (input) "EXTMEM \<equiv> (0x100000 :: nat)"
abbreviation (input) "PHYSTOP \<equiv> (0xE000000 :: nat)"
abbreviation (input) "DEVSPACE \<equiv> (0xFE000000 :: nat)"
abbreviation (input) "KERNBASE \<equiv> (0x80000000 :: nat)"
abbreviation (input) "KERNLINK \<equiv> (0x80100000 :: nat)"

text \<open>Unsigned subtraction.\<close>

definition sub32 :: "nat \<Rightarrow> nat \<Rightarrow> nat" where
  "sub32 a b = (a + (W32 - b)) mod W32"

definition v2p :: "nat \<Rightarrow> nat" where
  "v2p a = (a + (W32 - KERNBASE)) mod W32"

definition p2v :: "nat \<Rightarrow> nat" where
  "p2v a = (a + KERNBASE) mod W32"

definition PGROUNDUP :: "nat \<Rightarrow> nat" where
  "PGROUNDUP a = (let x = (a + PGSIZE - 1) mod W32 in x - x mod PGSIZE)"

definition PGROUNDDOWN :: "nat \<Rightarrow> nat" where
  "PGROUNDDOWN a = a - a mod PGSIZE"

definition PDX :: "nat \<Rightarrow> nat" where
  "PDX va = va div 4194304 mod 1024"

definition PTX :: "nat \<Rightarrow> nat" where
  "PTX va = va div 4096 mod 1024"

text \<open>Flags of an entry: bit 0 present, bit 1 writeable, bit 2 user.\<close>

abbreviation (input) "PTE_P \<equiv> (1 :: nat)"
abbreviation (input) "PTE_W \<equiv> (2 :: nat)"
abbreviation (input) "PTE_U \<equiv> (4 :: nat)"

definition PTE_ADDR :: "nat \<Rightarrow> nat" where
  "PTE_ADDR pte = pte - pte mod 4096"

definition PTE_FLAGS :: "nat \<Rightarrow> nat" where
  "PTE_FLAGS pte = pte mod 4096"

abbreviation pte_present :: "nat \<Rightarrow> bool" where
  "pte_present pte \<equiv> odd pte"

section \<open>Arithmetic of addresses\<close>

lemma v2p_p2v [simp]: "a < W32 \<Longrightarrow> v2p (p2v a) = a"
  unfolding v2p_def p2v_def by (simp add: mod_simps)

lemma p2v_v2p [simp]: "a < W32 \<Longrightarrow> p2v (v2p a) = a"
  unfolding v2p_def p2v_def by (simp add: mod_simps)

lemma p2v_inj: "a < W32 \<Longrightarrow> b < W32 \<Longrightarrow> p2v a = p2v b \<longleftrightarrow> a = b"
  by (metis v2p_p2v)

lemma v2p_high: "KERNBASE \<le> a \<Longrightarrow> a < W32 \<Longrightarrow> v2p a = a - KERNBASE"
  by (simp add: v2p_def mod_if)

lemma p2v_low: "a < KERNBASE \<Longrightarrow> p2v a = a + KERNBASE"
  by (simp add: p2v_def)

lemma sub32_ge [simp]: "b \<le> a \<Longrightarrow> a < W32 \<Longrightarrow> sub32 a b = a - b"
  by (simp add: sub32_def mod_if)

lemma sub32_less [simp]: "sub32 a b < W32"
  by (simp add: sub32_def)

lemma v2p_less [simp]: "v2p a < W32"
  by (simp add: v2p_def)

lemma p2v_less [simp]: "p2v a < W32"
  by (simp add: p2v_def)

lemma mod_W32_page: "x mod W32 mod PGSIZE = x mod PGSIZE"
  by (simp add: mod_mod_cancel)

lemma p2v_aligned [simp]: "p2v a mod PGSIZE = a mod PGSIZE"
  unfolding p2v_def mod_W32_page by (simp add: mod_add_eq [symmetric])

lemma v2p_aligned [simp]: "v2p a mod PGSIZE = a mod PGSIZE"
  unfolding v2p_def mod_W32_page by (simp add: mod_add_eq [symmetric])

lemma PGROUNDDOWN_div: "PGROUNDDOWN a = PGSIZE * (a div PGSIZE)"
  by (simp add: PGROUNDDOWN_def minus_mod_eq_mult_div)

lemma PGROUNDUP_div: "a + PGSIZE - 1 < W32 \<Longrightarrow> PGROUNDUP a = PGSIZE * ((a + 4095) div PGSIZE)"
  by (simp add: PGROUNDUP_def Let_def minus_mod_eq_mult_div)

lemma PGROUNDUP_aligned [simp]: "PGROUNDUP a mod PGSIZE = 0"
  by (simp add: PGROUNDUP_def Let_def minus_mod_eq_mult_div)

lemma PGROUNDDOWN_aligned [simp]: "PGROUNDDOWN a mod PGSIZE = 0"
  by (simp add: PGROUNDDOWN_div)

lemma PGROUNDUP_bounds:
  "a + PGSIZE - 1 < W32 \<Longrightarrow> a \<le> PGROUNDUP a \<and> PGROUNDUP a < a + PGSIZE"
  unfolding PGROUNDUP_div by auto

lemma PDX_less [simp]: "PDX va < 1024"
  by (simp add: PDX_def)

lemma PTX_less [simp]: "PTX va < 1024"
  by (simp add: PTX_def)

text \<open>Within 32 bits the two indices determine the page of an address.\<close>

lemma div_PDX: "x div 4194304 = x div 4096 div 1024" for x :: nat
  by (simp add: div_mult2_eq [symmetric])

lemma PDX_PTX_page:
  assumes "va < W32"
  shows "va div 4096 = PDX va * 1024 + PTX va"
proof -
  from assms have "va div 4096 div 1024 < 1024" by (simp add: div_mult2_eq [symmetric] less_mult_imp_div_less)
  then show ?thesis unfolding PDX_def PTX_def div_PDX by simp
qed

lemma PDX_PTX_inj:
  "va < W32 \<Longrightarrow> wa < W32 \<Longrightarrow> PDX va = PDX wa \<Longrightarrow> PTX va = PTX wa \<Longrightarrow> va div 4096 = wa div 4096"
  by (simp add: PDX_PTX_page)

lemma PDX_PTX_cong: "va div 4096 = wa div 4096 \<Longrightarrow> PDX va = PDX wa \<and> PTX va = PTX wa"
  unfolding PDX_def PTX_def div_PDX by simp

lemma PTE_ADDR_FLAGS: "PTE_ADDR pte + PTE_FLAGS pte = pte"
  by (simp add: PTE_ADDR_def PTE_FLAGS_def)

lemma PTE_ADDR_aligned [simp]: "PTE_ADDR pte mod PGSIZE = 0"
  by (simp add: PTE_ADDR_def minus_mod_eq_mult_div)

lemma PTE_ADDR_less: "pte < W32 \<Longrightarrow> PTE_ADDR pte < W32"
  by (simp add: PTE_ADDR_def)

section \<open>Combining an address with flags\<close>

lemma take_bit_or_page: "(a OR b) mod 4096 = (a mod 4096) OR (b mod 4096)" for a b :: nat
  using take_bit_or [of 12 a b] by (simp add: take_bit_eq_mod)

lemma or_less_page: "a < 4096 \<Longrightarrow> b < 4096 \<Longrightarrow> a OR b < (4096 :: nat)"
  using take_bit_or_page [of a b] by (metis mod_less mod_less_divisor zero_less_numeral)

lemma or_page_div: "(a OR b) div 4096 = (a div 4096) OR (b div 4096)" for a b :: nat
  using drop_bit_or [of 12 a b] by (simp add: drop_bit_eq_div)

lemma PTE_ADDR_or [simp]: "pa mod 4096 = 0 \<Longrightarrow> fl < 4096 \<Longrightarrow> PTE_ADDR (pa OR fl) = pa"
  by (simp add: PTE_ADDR_def minus_mod_eq_mult_div or_page_div) (metis mult_div_mod_eq add_0_right)

lemma PTE_FLAGS_or [simp]: "pa mod 4096 = 0 \<Longrightarrow> fl < 4096 \<Longrightarrow> PTE_FLAGS (pa OR fl) = fl"
  by (simp add: PTE_FLAGS_def take_bit_or_page)

lemma or_less_W32: "a < W32 \<Longrightarrow> b < W32 \<Longrightarrow> a OR b < W32"
  using take_bit_or [of 32 a b] by (simp add: take_bit_eq_mod)

lemma odd_or [simp]: "odd (a OR b) \<longleftrightarrow> odd a \<or> odd b" for a b :: nat
  by (simp add: even_or_iff)

end
