(* ===== verification/Sched.thy ===== *)
theory Sched
  imports Spinlock Mmu
begin

text \<open>
  The process table and the scheduling half of \<^verbatim>\<open>src/proc.c\<close>: \<open>sleep\<close>, \<open>wakeup\<close>, \<open>sched\<close>, \<open>yield\<close>,
  \<open>kill\<close> and the \<open>scheduler\<close> loop, with the address-space switch of \<^verbatim>\<open>src/vm.c\<close> they call.

  A process that calls \<open>sched\<close> leaves its CPU: the operation ends in the outcome \<open>Switch\<close>, and
  what the function does when the process runs again is a second definition
  (\<open>sleep_return\<close>, \<open>yield_return\<close>).  The fields \<open>kstack\<close>, \<open>tf\<close>, \<open>context\<close> and \<open>chan\<close> are those
  \<^verbatim>\<open>proc.c\<close> uses; \<^verbatim>\<open>proc.h\<close> of this commit declares them in \<open>struct thread\<close>.  The trap frame and
  the saved context, which live at the top of the kernel stack, are fields of the process here.
\<close>

section \<open>Processes\<close>

abbreviation (input) "NPROC \<equiv> (64 :: nat)"
abbreviation (input) "NOFILE \<equiv> (16 :: nat)"
abbreviation (input) "KSTACKSIZE \<equiv> (4096 :: nat)"

datatype procstate = UNUSED | EMBRYO | SLEEPING | RUNNABLE | RUNNING | ZOMBIE

record trapframe =
  tf_edi :: u32
  tf_esi :: u32
  tf_ebp :: u32
  tf_oesp :: u32
  tf_ebx :: u32
  tf_edx :: u32
  tf_ecx :: u32
  tf_eax :: u32
  tf_gs :: u32
  tf_fs :: u32
  tf_es :: u32
  tf_ds :: u32
  tf_trapno :: u32
  tf_err :: u32
  tf_eip :: u32
  tf_cs :: u32
  tf_eflags :: u32
  tf_esp :: u32
  tf_ss :: u32

record kcontext =
  cx_edi :: u32
  cx_esi :: u32
  cx_ebx :: u32
  cx_ebp :: u32
  cx_eip :: u32

record proc =
  p_sz :: nat
  p_pgdir :: nat
  p_kstack :: nat
  p_state :: procstate
  p_pid :: int
  p_parent :: "nat option"
  p_tf :: trapframe
  p_context :: kcontext
  p_chan :: "chan option"
  p_killed :: bool
  p_ofile :: "nat \<Rightarrow> nat option"
  p_cwd :: "nat option"
  p_name :: string

text \<open>The entries of the table before the first \<open>allocproc\<close>: static storage is zero.\<close>

definition zero_tf :: trapframe where
  "zero_tf = \<lparr>tf_edi = 0, tf_esi = 0, tf_ebp = 0, tf_oesp = 0, tf_ebx = 0, tf_edx = 0, tf_ecx = 0,
     tf_eax = 0, tf_gs = 0, tf_fs = 0, tf_es = 0, tf_ds = 0, tf_trapno = 0, tf_err = 0, tf_eip = 0,
     tf_cs = 0, tf_eflags = 0, tf_esp = 0, tf_ss = 0\<rparr>"

definition zero_context :: kcontext where
  "zero_context = \<lparr>cx_edi = 0, cx_esi = 0, cx_ebx = 0, cx_ebp = 0, cx_eip = 0\<rparr>"

definition blank_proc :: proc where
  "blank_proc = \<lparr>p_sz = 0, p_pgdir = 0, p_kstack = 0, p_state = UNUSED, p_pid = 0, p_parent = None,
     p_tf = zero_tf, p_context = zero_context, p_chan = None, p_killed = False,
     p_ofile = (\<lambda>_. None), p_cwd = None, p_name = []\<rparr>"

text \<open>
  The kernel state so far: the process table, the current process of this CPU (\<open>proc\<close>), the
  interrupt-enable state to restore when the last lock is dropped (\<open>cpu->intena\<close>), and the
  registers \<open>switchuvm\<close> loads.
\<close>

record kproc = klocks +
  ptable :: "nat \<Rightarrow> proc"
  curproc :: "nat option"
  initproc :: "nat option"
  nextpid :: int
  iflag :: bool
  cr3 :: nat
  ts_ss0 :: nat
  ts_esp0 :: nat
  kpgdir :: nat

definition upd_proc :: "nat \<Rightarrow> (proc \<Rightarrow> proc) \<Rightarrow> 'z kproc_scheme \<Rightarrow> 'z kproc_scheme" where
  "upd_proc i f s = s\<lparr>ptable := (ptable s)(i := f (ptable s i))\<rparr>"

definition upd_cur :: "(proc \<Rightarrow> proc) \<Rightarrow> 'z kproc_scheme \<Rightarrow> 'z kproc_scheme" where
  "upd_cur f s = (case curproc s of None \<Rightarrow> s | Some i \<Rightarrow> upd_proc i f s)"

text \<open>The fields of the current process; only used where \<open>proc\<close> is not null.\<close>

definition cur :: "'z kproc_scheme \<Rightarrow> proc" where
  "cur s = ptable s (the (curproc s))"

lemma upd_proc_simps [simp]:
  "held (upd_proc i f s) = held s"
  "ptable (upd_proc i f s) = (ptable s)(i := f (ptable s i))"
  "curproc (upd_proc i f s) = curproc s"
  "initproc (upd_proc i f s) = initproc s"
  "nextpid (upd_proc i f s) = nextpid s"
  "iflag (upd_proc i f s) = iflag s"
  "cr3 (upd_proc i f s) = cr3 s"
  by (simp_all add: upd_proc_def)

lemma upd_cur_simps [simp]:
  "held (upd_cur f s) = held s"
  "curproc (upd_cur f s) = curproc s"
  "initproc (upd_cur f s) = initproc s"
  "iflag (upd_cur f s) = iflag s"
  by (simp_all add: upd_cur_def split: option.splits)

section \<open>Scheduling primitives\<close>

definition wakeup1 :: "chan \<Rightarrow> (unit, 'z kproc_scheme) kop" where
  "wakeup1 ch = kmod (\<lambda>s. s\<lparr>ptable := (\<lambda>i.
     if i < NPROC \<and> p_state (ptable s i) = SLEEPING \<and> p_chan (ptable s i) = Some ch
     then (ptable s i)\<lparr>p_state := RUNNABLE\<rparr> else ptable s i)\<rparr>)"


text \<open>\<open>readeflags() & FL_IF\<close>: with a lock held interrupts are off.\<close>

definition interruptible :: "'z kproc_scheme \<Rightarrow> bool" where
  "interruptible s \<longleftrightarrow> held s = [] \<and> iflag s"

text \<open>The checks of \<open>sched\<close>; then control leaves through \<open>swtch\<close>.\<close>

definition sched :: "switch_why \<Rightarrow> ('a, 'z kproc_scheme) kop" where
  "sched w =
     kthen (kassert (\<lambda>s. LPtable \<in> set (held s)) ''sched ptable.lock'')
    (kthen (kassert (\<lambda>s. length (held s) = 1) ''sched locks'')
    (kthen (kassert (\<lambda>s. p_state (cur s) \<noteq> RUNNING) ''sched running'')
    (kthen (kassert (\<lambda>s. \<not> interruptible s) ''sched interruptible'')
           (Switch w))))"

text \<open>\<open>sched\<close> after \<open>swtch\<close> returned: the saved \<open>intena\<close> of this process is put back.\<close>

definition sched_return :: "bool \<Rightarrow> (unit, 'z kproc_scheme) kop" where
  "sched_return ien = kmod (\<lambda>s. s\<lparr>iflag := ien\<rparr>)"

definition yield :: "(unit, 'z kproc_scheme) kop" where
  "yield = kthen (kacquire LPtable)
    (kthen (kmod (upd_cur (\<lambda>p. p\<lparr>p_state := RUNNABLE\<rparr>)))
           (sched Yielded))"

definition yield_return :: "bool \<Rightarrow> (unit, 'z kproc_scheme) kop" where
  "yield_return ien = kthen (sched_return ien) (krelease LPtable)"

definition go_to_sleep :: "chan \<Rightarrow> proc \<Rightarrow> proc" where
  "go_to_sleep ch p = p\<lparr>p_chan := Some ch, p_state := SLEEPING\<rparr>"

text \<open>
  \<open>sleep\<close> and \<open>wakeup\<close> are written as lists of actions, one for each lock operation and each update under a lock.  A kernel
  operation runs the list at once (\<open>run_acts\<close>); the interleavings below run it action by action.
\<close>

datatype act = Acq lockid | Rel lockid | Mark chan | Leave chan | Unmark | Scan chan

fun run_act :: "act \<Rightarrow> (unit, 'z kproc_scheme) kop" where
  "run_act (Acq l) = kacquire l"
| "run_act (Rel l) = krelease l"
| "run_act (Mark ch) = kmod (upd_cur (go_to_sleep ch))"
| "run_act (Leave ch) = sched (Asleep ch)"
| "run_act Unmark = kmod (upd_cur (\<lambda>p. p\<lparr>p_chan := None\<rparr>))"
| "run_act (Scan ch) = wakeup1 ch"

fun run_acts :: "act list \<Rightarrow> (unit, 'z kproc_scheme) kop" where
  "run_acts [] = kret ()"
| "run_acts (a # as) = kthen (run_act a) (run_acts as)"

definition wakeup_acts :: "chan \<Rightarrow> act list" where
  "wakeup_acts ch = [Acq LPtable, Scan ch, Rel LPtable]"

definition wakeup :: "chan \<Rightarrow> (unit, 'z kproc_scheme) kop" where
  "wakeup ch = run_acts (wakeup_acts ch)"

text \<open>\<open>sleep\<close> up to the call of \<open>sched\<close>, and from its return on.\<close>

definition sleep_enter :: "chan \<Rightarrow> lockid \<Rightarrow> act list" where
  "sleep_enter ch lk = (if lk \<noteq> LPtable then [Acq LPtable, Rel lk] else []) @ [Mark ch]"

definition sleep_leave :: "lockid \<Rightarrow> act list" where
  "sleep_leave lk = Unmark # (if lk \<noteq> LPtable then [Rel LPtable, Acq lk] else [])"

definition sleep_acts :: "chan \<Rightarrow> lockid \<Rightarrow> act list" where
  "sleep_acts ch lk = sleep_enter ch lk @ Leave ch # sleep_leave lk"

definition sleep :: "chan \<Rightarrow> lockid \<Rightarrow> ('a, 'z kproc_scheme) kop" where
  "sleep ch lk =
     kthen (kassert (\<lambda>s. curproc s \<noteq> None) ''sleep'')
    (kthen (run_acts (sleep_enter ch lk))
           (sched (Asleep ch)))"

definition sleep_return :: "bool \<Rightarrow> lockid \<Rightarrow> (unit, 'z kproc_scheme) kop" where
  "sleep_return ien lk = kthen (sched_return ien) (run_acts (sleep_leave lk))"

definition kill :: "int \<Rightarrow> (int, 'z kproc_scheme) kop" where
  "kill pid =
     kthen (kacquire LPtable)
    (kbind (kget (\<lambda>s. find (\<lambda>i. p_pid (ptable s i) = pid) [0..<NPROC])) (\<lambda>r.
       case r of
         Some i \<Rightarrow>
           kthen (kmod (upd_proc i (\<lambda>p. let q = p\<lparr>p_killed := True\<rparr> in
                    if p_state q = SLEEPING then q\<lparr>p_state := RUNNABLE\<rparr> else q)))
          (kthen (krelease LPtable) (kret 0))
       | None \<Rightarrow> kthen (krelease LPtable) (kret (-1))))"

section \<open>The scheduler loop\<close>

definition switchkvm :: "(unit, 'z kproc_scheme) kop" where
  "switchkvm = kmod (\<lambda>s. s\<lparr>cr3 := v2p (kpgdir s)\<rparr>)"

definition switchuvm :: "nat \<Rightarrow> (unit, 'z kproc_scheme) kop" where
  "switchuvm i =
     kthen (kmod (\<lambda>s. s\<lparr>ts_ss0 := 2 * 8, ts_esp0 := p_kstack (cur s) + KSTACKSIZE\<rparr>))
    (kthen (kassert (\<lambda>s. p_pgdir (ptable s i) \<noteq> 0) ''switchuvm: no pgdir'')
           (kmod (\<lambda>s. s\<lparr>cr3 := v2p (p_pgdir (ptable s i))\<rparr>)))"

text \<open>
  The body of the scheduler's scan at index \<open>i\<close>, up to the \<open>swtch\<close> into the process, and after
  the process has switched back.
\<close>

definition scheduler_next :: "nat \<Rightarrow> 'z kproc_scheme \<Rightarrow> nat option" where
  "scheduler_next i s = find (\<lambda>j. p_state (ptable s j) = RUNNABLE) [i..<NPROC]"

definition scheduler_run :: "nat \<Rightarrow> (unit, 'z kproc_scheme) kop" where
  "scheduler_run i =
     kthen (kmod (\<lambda>s. s\<lparr>curproc := Some i\<rparr>))
    (kthen (switchuvm i)
           (kmod (upd_proc i (\<lambda>p. p\<lparr>p_state := RUNNING\<rparr>))))"

definition scheduler_back :: "(unit, 'z kproc_scheme) kop" where
  "scheduler_back = kthen switchkvm (kmod (\<lambda>s. s\<lparr>curproc := None\<rparr>))"

section \<open>Effects of the primitives\<close>

definition woken :: "chan \<Rightarrow> (nat \<Rightarrow> proc) \<Rightarrow> nat \<Rightarrow> proc" where
  "woken ch pt = (\<lambda>i. if i < NPROC \<and> p_state (pt i) = SLEEPING \<and> p_chan (pt i) = Some ch
     then (pt i)\<lparr>p_state := RUNNABLE\<rparr> else pt i)"

lemma run_wakeup1 [kop_simps]: "wakeup1 ch s = Ok () (s\<lparr>ptable := woken ch (ptable s)\<rparr>)"
  by (simp add: wakeup1_def woken_def kop_simps)

lemma run_wakeup [kop_simps]:
  "wakeup ch s = (if LPtable \<in> set (held s) then Panic ''acquire''
     else Ok () (s\<lparr>ptable := woken ch (ptable s)\<rparr>))"
  by (simp add: wakeup_def wakeup_acts_def kop_simps)

lemma wp_wakeup [wp_simps]:
  "wp (wakeup ch) Q s = (LPtable \<notin> set (held s) \<and> Q () (s\<lparr>ptable := woken ch (ptable s)\<rparr>))"
  and wlp_wakeup [wp_simps]:
  "wlp (wakeup ch) Q s = (LPtable \<notin> set (held s) \<longrightarrow> Q () (s\<lparr>ptable := woken ch (ptable s)\<rparr>))"
  by (simp_all add: wp_def wlp_def run_wakeup)

text \<open>\<open>sleep\<close> never returns to its caller without a switch.\<close>

lemma sleep_no_Ok [simp]: "sleep ch lk s \<noteq> Ok a t"
  by (auto simp: sleep_def sched_def kbind_Ok kthen_Ok)

lemma wp_sleep [wp_simps]: "wp (sleep ch lk) Q s = False"
  and wlp_sleep [wp_simps]: "wlp (sleep ch lk) Q s = True"
  by (auto simp: wp_def wlp_def split: res.splits)

text \<open>\<open>sleep\<close> with its lock and no other held.\<close>

lemma run_sleep:
  assumes "curproc s = Some i" and "held s = [lk]" and "lk \<noteq> LPtable"
  shows "sleep ch lk s =
    Switch (Asleep ch) (s\<lparr>held := [LPtable], ptable := (ptable s)(i := go_to_sleep ch (ptable s i))\<rparr>)"
  using assms
  by (simp add: sleep_def sleep_enter_def sched_def kop_simps upd_cur_def upd_proc_def cur_def
      go_to_sleep_def interruptible_def)

lemma run_sleep_leave:
  assumes "curproc s = Some i" and "held s = [LPtable]" and "lk \<noteq> LPtable"
  shows "sleep_return ien lk s = Ok () (s\<lparr>held := [lk], iflag := ien,
     ptable := (ptable s)(i := (ptable s i)\<lparr>p_chan := None\<rparr>)\<rparr>)"
  using assms by (simp add: sleep_return_def sleep_leave_def sched_return_def kop_simps upd_cur_def upd_proc_def)

text \<open>
  What happens to a sleeping process \<open>i\<close> between the two halves of \<open>sleep\<close>: the scheduler of its CPU goes on and drops
  \<open>ptable.lock\<close>, another process calls \<open>wakeup\<close>, and a scheduler that holds \<open>ptable.lock\<close> picks \<open>i\<close>.
\<close>

definition woken_and_run :: "chan \<Rightarrow> nat \<Rightarrow> (unit, 'z kproc_scheme) kop" where
  "woken_and_run ch i =
     kthen scheduler_back (kthen (krelease LPtable) (kthen (wakeup ch) (kthen (kacquire LPtable) (scheduler_run i))))"



text \<open>
  \<open>kill\<close> marks the first process with the pid, wakes it if it sleeps, and touches nothing else.
\<close>

lemma kill_effect:
  assumes "LPtable \<notin> set (held s)"
  shows "kill pid s =
    (case find (\<lambda>i. p_pid (ptable s i) = pid) [0..<NPROC] of
       None \<Rightarrow> Ok (-1) s
     | Some i \<Rightarrow> Ok 0 (upd_proc i (\<lambda>p. p\<lparr>p_killed := True,
         p_state := (if p_state p = SLEEPING then RUNNABLE else p_state p)\<rparr>) s))"
proof -
  have "(if p_state p = SLEEPING then p\<lparr>p_killed := True, p_state := RUNNABLE\<rparr> else p\<lparr>p_killed := True\<rparr>) =
      p\<lparr>p_killed := True, p_state := (if p_state p = SLEEPING then RUNNABLE else p_state p)\<rparr>" for p :: proc
    by simp
  with assms show ?thesis
    by (simp add: kill_def kop_simps Let_def upd_proc_def split: option.splits)
qed

text \<open>The scan of the scheduler skips no runnable process.\<close>

lemma find_upt_from:
  "find P [i..<n] = Some j \<longleftrightarrow> i \<le> j \<and> j < n \<and> P j \<and> (\<forall>k. i \<le> k \<and> k < j \<longrightarrow> \<not> P k)"
proof (induction "n - i" arbitrary: i)
  case 0
  then show ?case by auto
next
  case (Suc d)
  then have "i < n" by simp
  then have "[i..<n] = i # [Suc i..<n]" by (simp add: upt_conv_Cons)
  moreover have "find P [Suc i..<n] = Some j \<longleftrightarrow>
      Suc i \<le> j \<and> j < n \<and> P j \<and> (\<forall>k. Suc i \<le> k \<and> k < j \<longrightarrow> \<not> P k)"
    using Suc.hyps by (intro Suc.hyps(1)) simp
  moreover have "(\<forall>k. i \<le> k \<and> k < j \<longrightarrow> \<not> P k) \<longleftrightarrow> (i < j \<longrightarrow> \<not> P i) \<and> (\<forall>k. Suc i \<le> k \<and> k < j \<longrightarrow> \<not> P k)"
    by (metis Suc_le_eq le_eq_less_or_eq)
  ultimately show ?case
    using \<open>i < n\<close> by (cases "i = j") auto
qed

lemma scheduler_next_Some:
  "scheduler_next i s = Some j \<longleftrightarrow> i \<le> j \<and> j < NPROC \<and> p_state (ptable s j) = RUNNABLE \<and>
     (\<forall>k. i \<le> k \<and> k < j \<longrightarrow> p_state (ptable s k) \<noteq> RUNNABLE)"
  by (simp add: scheduler_next_def find_upt_from)

section \<open>No wakeup is lost\<close>

text \<open>
  Any number of processes use one lock \<open>lk\<close>, one channel and one condition: under \<open>lk\<close> a process
  may clear the condition, set it and call \<open>wakeup\<close>, or, having seen it false, call \<open>sleep\<close>.
  Each process runs the action lists of \<open>sleep\<close> and \<open>wakeup\<close> one action at a time on the shared process table, so all interleavings at
  lock operations are covered.  A process that has left its CPU in \<open>sched\<close> is asleep; the scheduler it leaves to drops \<open>ptable.lock\<close>.
\<close>

record sconf =
  s_pt :: "nat \<Rightarrow> proc"
  s_held :: "nat \<Rightarrow> lockid list"
  s_prog :: "nat \<Rightarrow> act list"
  s_asleep :: "nat \<Rightarrow> bool"
  s_cond :: bool

text \<open>The kernel state as process \<open>i\<close> sees it, with the locks it holds; the other fields play no part.\<close>

definition kview :: "nat \<Rightarrow> sconf \<Rightarrow> kproc" where
  "kview i c = \<lparr>held = s_held c i, ptable = s_pt c, curproc = Some i, initproc = None, nextpid = 1, iflag = True, cr3 = 0,
     ts_ss0 = 0, ts_esp0 = 0, kpgdir = 0\<rparr>"

definition kput :: "nat \<Rightarrow> sconf \<Rightarrow> kproc \<Rightarrow> sconf" where
  "kput i c t = c\<lparr>s_pt := ptable t, s_held := (s_held c)(i := held t)\<rparr>"

definition unlocked :: "lockid \<Rightarrow> sconf \<Rightarrow> bool" where
  "unlocked l c \<longleftrightarrow> (\<forall>j. l \<notin> set (s_held c j))"

inductive sl_step :: "chan \<Rightarrow> lockid \<Rightarrow> sconf \<Rightarrow> sconf \<Rightarrow> bool" for ch lk where
  sl_lock: "i < NPROC \<Longrightarrow> s_prog c i = [] \<Longrightarrow> s_held c i = [] \<Longrightarrow> unlocked lk c \<Longrightarrow> run_act (Acq lk) (kview i c) = Ok () t \<Longrightarrow>
    sl_step ch lk c (kput i c t)"
| sl_unlock: "s_prog c i = [] \<Longrightarrow> run_act (Rel lk) (kview i c) = Ok () t \<Longrightarrow> sl_step ch lk c (kput i c t)"
| sl_consume: "s_prog c i = [] \<Longrightarrow> lk \<in> set (s_held c i) \<Longrightarrow> sl_step ch lk c (c\<lparr>s_cond := False\<rparr>)"
| sl_produce: "s_prog c i = [] \<Longrightarrow> lk \<in> set (s_held c i) \<Longrightarrow>
    sl_step ch lk c (c\<lparr>s_cond := True, s_prog := (s_prog c)(i := wakeup_acts ch)\<rparr>)"
| sl_test: "s_prog c i = [] \<Longrightarrow> lk \<in> set (s_held c i) \<Longrightarrow> \<not> s_cond c \<Longrightarrow>
    sl_step ch lk c (c\<lparr>s_prog := (s_prog c)(i := sleep_acts ch lk)\<rparr>)"
| sl_act: "s_prog c i = a # as \<Longrightarrow> \<not> s_asleep c i \<Longrightarrow> (\<And>l. a = Acq l \<Longrightarrow> unlocked l c) \<Longrightarrow> run_act a (kview i c) = Ok () t \<Longrightarrow>
    sl_step ch lk c ((kput i c t)\<lparr>s_prog := (s_prog c)(i := as)\<rparr>)"
| sl_switch: "s_prog c i = a # as \<Longrightarrow> \<not> s_asleep c i \<Longrightarrow> run_act a (kview i c) = Switch w t \<Longrightarrow>
    sl_step ch lk c ((kput i c (t\<lparr>held := remove1 LPtable (held t)\<rparr>))\<lparr>s_prog := (s_prog c)(i := as), s_asleep := (s_asleep c)(i := True)\<rparr>)"
| sl_resume: "s_asleep c i \<Longrightarrow> p_state (s_pt c i) = RUNNABLE \<Longrightarrow> unlocked LPtable c \<Longrightarrow>
    kthen (kacquire LPtable) (scheduler_run i) (kview i c) = Ok () t \<Longrightarrow>
    sl_step ch lk c ((kput i c t)\<lparr>s_asleep := (s_asleep c)(i := False)\<rparr>)"

inductive sl_reach :: "chan \<Rightarrow> lockid \<Rightarrow> sconf \<Rightarrow> bool" for ch lk where
  sl_start: "(\<And>i. s_prog c i = []) \<Longrightarrow> (\<And>i. s_held c i = []) \<Longrightarrow> (\<And>i. \<not> s_asleep c i) \<Longrightarrow> sl_reach ch lk c"
| sl_more: "sl_reach ch lk c \<Longrightarrow> sl_step ch lk c d \<Longrightarrow> sl_reach ch lk d"

text \<open>
  An abstraction of these runs with a program counter for each process and an owner for each lock, on which the invariants are proved.
\<close>

datatype swpc = Out | Locked | SlpA | SlpB | SlpC | SlpD | Slept | SlpE | SlpG | SlpF | WkA | WkB | WkC

record swconf =
  sw_pt :: "nat \<Rightarrow> proc"
  sw_owner :: "lockid \<Rightarrow> nat option"
  sw_pc :: "nat \<Rightarrow> swpc"
  sw_cond :: bool

inductive sw_step :: "chan \<Rightarrow> lockid \<Rightarrow> swconf \<Rightarrow> swconf \<Rightarrow> bool" for ch lk where
  lock: "i < NPROC \<Longrightarrow> sw_pc s i = Out \<Longrightarrow> sw_owner s lk = None \<Longrightarrow>
    sw_step ch lk s (s\<lparr>sw_owner := (sw_owner s)(lk := Some i), sw_pc := (sw_pc s)(i := Locked)\<rparr>)"
| unlock: "sw_pc s i = Locked \<Longrightarrow>
    sw_step ch lk s (s\<lparr>sw_owner := (sw_owner s)(lk := None), sw_pc := (sw_pc s)(i := Out)\<rparr>)"
| consume: "sw_pc s i = Locked \<Longrightarrow> sw_step ch lk s (s\<lparr>sw_cond := False\<rparr>)"
| produce: "sw_pc s i = Locked \<Longrightarrow>
    sw_step ch lk s (s\<lparr>sw_cond := True, sw_pc := (sw_pc s)(i := WkA)\<rparr>)"
| test: "sw_pc s i = Locked \<Longrightarrow> \<not> sw_cond s \<Longrightarrow>
    sw_step ch lk s (s\<lparr>sw_pc := (sw_pc s)(i := SlpA)\<rparr>)"
| sleep_acquire: "sw_pc s i = SlpA \<Longrightarrow> sw_owner s LPtable = None \<Longrightarrow>
    sw_step ch lk s (s\<lparr>sw_owner := (sw_owner s)(LPtable := Some i), sw_pc := (sw_pc s)(i := SlpB)\<rparr>)"
| sleep_release: "sw_pc s i = SlpB \<Longrightarrow>
    sw_step ch lk s (s\<lparr>sw_owner := (sw_owner s)(lk := None), sw_pc := (sw_pc s)(i := SlpC)\<rparr>)"
| sleep_mark: "sw_pc s i = SlpC \<Longrightarrow>
    sw_step ch lk s (s\<lparr>sw_pt := (sw_pt s)(i := go_to_sleep ch (sw_pt s i)), sw_pc := (sw_pc s)(i := SlpD)\<rparr>)"
| sleep_sched: "sw_pc s i = SlpD \<Longrightarrow>
    sw_step ch lk s (s\<lparr>sw_owner := (sw_owner s)(LPtable := None), sw_pc := (sw_pc s)(i := Slept)\<rparr>)"
| resume: "sw_pc s i = Slept \<Longrightarrow> p_state (sw_pt s i) = RUNNABLE \<Longrightarrow> sw_owner s LPtable = None \<Longrightarrow>
    sw_step ch lk s (s\<lparr>sw_pt := (sw_pt s)(i := (sw_pt s i)\<lparr>p_state := RUNNING\<rparr>),
      sw_owner := (sw_owner s)(LPtable := Some i), sw_pc := (sw_pc s)(i := SlpE)\<rparr>)"
| sleep_tidy: "sw_pc s i = SlpE \<Longrightarrow>
    sw_step ch lk s (s\<lparr>sw_pt := (sw_pt s)(i := (sw_pt s i)\<lparr>p_chan := None\<rparr>), sw_pc := (sw_pc s)(i := SlpG)\<rparr>)"
| sleep_drop: "sw_pc s i = SlpG \<Longrightarrow>
    sw_step ch lk s (s\<lparr>sw_owner := (sw_owner s)(LPtable := None), sw_pc := (sw_pc s)(i := SlpF)\<rparr>)"
| sleep_reacquire: "sw_pc s i = SlpF \<Longrightarrow> sw_owner s lk = None \<Longrightarrow>
    sw_step ch lk s (s\<lparr>sw_owner := (sw_owner s)(lk := Some i), sw_pc := (sw_pc s)(i := Locked)\<rparr>)"
| wakeup_acquire: "sw_pc s i = WkA \<Longrightarrow> sw_owner s LPtable = None \<Longrightarrow>
    sw_step ch lk s (s\<lparr>sw_owner := (sw_owner s)(LPtable := Some i), sw_pc := (sw_pc s)(i := WkB)\<rparr>)"
| wakeup_scan: "sw_pc s i = WkB \<Longrightarrow>
    sw_step ch lk s (s\<lparr>sw_pt := woken ch (sw_pt s), sw_pc := (sw_pc s)(i := WkC)\<rparr>)"
| wakeup_release: "sw_pc s i = WkC \<Longrightarrow>
    sw_step ch lk s (s\<lparr>sw_owner := (sw_owner s)(LPtable := None), sw_pc := (sw_pc s)(i := Locked)\<rparr>)"

inductive sw_reach :: "chan \<Rightarrow> lockid \<Rightarrow> swconf \<Rightarrow> bool" for ch lk where
  start: "(\<forall>i. sw_pc s i = Out) \<Longrightarrow> sw_owner s lk = None \<Longrightarrow> sw_owner s LPtable = None \<Longrightarrow>
    sw_reach ch lk s"
| more: "sw_reach ch lk s \<Longrightarrow> sw_step ch lk s t \<Longrightarrow> sw_reach ch lk t"

definition owns :: "('p \<Rightarrow> bool) \<Rightarrow> nat option \<Rightarrow> (nat \<Rightarrow> 'p) \<Rightarrow> bool" where
  "owns H ow pc \<longleftrightarrow> (\<forall>i. H (pc i) \<longleftrightarrow> ow = Some i)"

lemma ownsD: "owns H ow pc \<Longrightarrow> H (pc i) \<Longrightarrow> ow = Some i"
  by (simp add: owns_def)

lemma owns_unique: "owns H ow pc \<Longrightarrow> H (pc i) \<Longrightarrow> H (pc j) \<Longrightarrow> i = j"
  using ownsD [of H ow pc i] ownsD [of H ow pc j] by simp

lemma owns_move:
  assumes "owns H ow pc" "H p \<and> \<not> H (pc i) \<longrightarrow> ow = None"
    "ow' = (if H p = H (pc i) then ow else if H p then Some i else None)"
  shows "owns H ow' (pc(i := p))"
  using assms by (cases ow) (auto simp: owns_def split: if_splits)

definition in_lk :: "swpc \<Rightarrow> bool" where
  "in_lk p \<longleftrightarrow> p \<in> {Locked, SlpA, SlpB, WkA, WkB, WkC}"

definition in_pt :: "swpc \<Rightarrow> bool" where
  "in_pt p \<longleftrightarrow> p \<in> {SlpB, SlpC, SlpD, SlpE, SlpG, WkB, WkC}"

definition sw_owns :: "lockid \<Rightarrow> swconf \<Rightarrow> bool" where
  "sw_owns lk s \<longleftrightarrow> owns in_lk (sw_owner s lk) (sw_pc s) \<and> owns in_pt (sw_owner s LPtable) (sw_pc s)"

definition sw_sleeping :: "swconf \<Rightarrow> nat \<Rightarrow> bool" where
  "sw_sleeping s i \<longleftrightarrow> sw_pc s i = SlpC \<or> sw_pc s i \<in> {SlpD, Slept} \<and> p_state (sw_pt s i) = SLEEPING"

definition sw_inv :: "chan \<Rightarrow> swconf \<Rightarrow> bool" where
  "sw_inv ch s \<longleftrightarrow>
     (\<forall>i. sw_pc s i \<noteq> Out \<longrightarrow> i < NPROC) \<and>
     (\<forall>i. sw_pc s i \<in> {SlpA, SlpB} \<longrightarrow> \<not> sw_cond s) \<and>
     (\<forall>i. sw_pc s i \<in> {SlpD, Slept} \<and> p_state (sw_pt s i) = SLEEPING \<longrightarrow> p_chan (sw_pt s i) = Some ch) \<and>
     (\<forall>i. sw_sleeping s i \<and> sw_cond s \<longrightarrow> (\<exists>j. sw_pc s j \<in> {WkA, WkB}))"

lemma sw_owns_step:
  assumes "sw_step ch lk s t" "lk \<noteq> LPtable" "sw_owns lk s"
  shows "sw_owns lk t"
  using assms
  by (induction rule: sw_step.induct)
    (simp_all add: sw_owns_def, (erule conjE, intro conjI; erule owns_move; simp add: in_lk_def in_pt_def)+)

lemma sw_range_step:
  "sw_step ch lk s t \<Longrightarrow> \<forall>i. sw_pc s i \<noteq> Out \<longrightarrow> i < NPROC \<Longrightarrow> \<forall>i. sw_pc t i \<noteq> Out \<longrightarrow> i < NPROC"
  by (induction rule: sw_step.induct) auto

lemma sw_tested_step:
  assumes "sw_step ch lk s t" "sw_owns lk s" "\<forall>i. sw_pc s i \<in> {SlpA, SlpB} \<longrightarrow> \<not> sw_cond s"
  shows "\<forall>i. sw_pc t i \<in> {SlpA, SlpB} \<longrightarrow> \<not> sw_cond t"
  using assms
proof (induction rule: sw_step.induct)
  case (produce s i)
  then have "j = i" if "in_lk (sw_pc s j)" for j
    using that owns_unique [of in_lk "sw_owner s lk" "sw_pc s" j i] by (simp add: sw_owns_def in_lk_def)
  with produce show ?case by (auto simp: in_lk_def)
qed auto

lemma sw_chan_step:
  assumes "sw_step ch lk s t"
    "\<forall>i. sw_pc s i \<in> {SlpD, Slept} \<and> p_state (sw_pt s i) = SLEEPING \<longrightarrow> p_chan (sw_pt s i) = Some ch"
  shows "\<forall>i. sw_pc t i \<in> {SlpD, Slept} \<and> p_state (sw_pt t i) = SLEEPING \<longrightarrow> p_chan (sw_pt t i) = Some ch"
  using assms by (induction rule: sw_step.induct) (auto simp: go_to_sleep_def woken_def)

definition pending :: "swconf \<Rightarrow> bool" where
  "pending s \<longleftrightarrow> (\<exists>j. sw_pc s j \<in> {WkA, WkB})"

lemma pending_keep:
  assumes "pending s" "sw_pc t = (sw_pc s)(i := p)" "sw_pc s i \<in> {WkA, WkB} \<longrightarrow> p \<in> {WkA, WkB}"
  shows "pending t"
  using assms by (auto simp: pending_def)

lemma sw_inv_pending: "sw_inv ch s \<Longrightarrow> sw_sleeping s k \<Longrightarrow> sw_cond s \<Longrightarrow> pending s"
  unfolding sw_inv_def pending_def by blast

lemma pending_step:
  assumes "sw_inv ch s" "sw_cond s" "sw_sleeping t k"
    "sw_pc t = (sw_pc s)(i := p)" "sw_pc s i \<in> {WkA, WkB} \<longrightarrow> p \<in> {WkA, WkB}"
    "k \<noteq> i \<Longrightarrow> sw_pt t k = sw_pt s k"
    "p \<in> {SlpC, SlpD, Slept} \<Longrightarrow> sw_sleeping t i \<Longrightarrow> sw_sleeping s i"
  shows "pending t"
proof -
  have "sw_sleeping s k"
    using assms(3,4,6,7) by (cases "k = i") (auto simp: sw_sleeping_def)
  then show ?thesis
    using assms(1,2,4,5) by (blast intro: pending_keep sw_inv_pending)
qed

lemma sw_sleeping_step:
  assumes "sw_step ch lk s t" "sw_owns lk s" "sw_inv ch s" "sw_sleeping t k" "sw_cond t"
  shows "pending t"
  using assms
proof (induction rule: sw_step.induct)
  case (produce s i)
  then show ?case by (auto simp: pending_def)
next
  case (sleep_release s i)
  then have "\<not> sw_cond s" by (auto simp: sw_inv_def)
  with sleep_release show ?case by simp
next
  case (wakeup_scan s i)
  then have "in_pt (sw_pc s k) \<Longrightarrow> k = i"
    using owns_unique [of in_pt "sw_owner s LPtable" "sw_pc s" k i] by (simp add: sw_owns_def in_pt_def)
  moreover have "k \<noteq> i"
    using wakeup_scan by (auto simp: sw_sleeping_def)
  ultimately have k: "sw_pc s k = Slept" "p_state (woken ch (sw_pt s) k) = SLEEPING"
    using wakeup_scan by (auto simp: sw_sleeping_def in_pt_def)
  from wakeup_scan have "k < NPROC" "p_state (sw_pt s k) = SLEEPING \<longrightarrow> p_chan (sw_pt s k) = Some ch"
    using k(1) by (simp_all add: sw_inv_def)
  with k(2) show ?case by (simp add: woken_def split: if_splits)
next
  case (consume s i)
  then show ?case by simp
next
  case (lock i s)
  then show ?case by (intro pending_step [of ch s _ k i Locked]) simp_all
next
  case (unlock s i)
  then show ?case by (intro pending_step [of ch s _ k i Out]) simp_all
next
  case (test s i)
  then show ?case by simp
next
  case (sleep_acquire s i)
  then show ?case by (intro pending_step [of ch s _ k i SlpB]) simp_all
next
  case (sleep_mark s i)
  then show ?case by (intro pending_step [of ch s _ k i SlpD]) (simp_all add: sw_sleeping_def)
next
  case (sleep_sched s i)
  then show ?case by (intro pending_step [of ch s _ k i Slept]) (simp_all add: sw_sleeping_def)
next
  case (resume s i)
  then show ?case by (intro pending_step [of ch s _ k i SlpE]) simp_all
next
  case (sleep_tidy s i)
  then show ?case by (intro pending_step [of ch s _ k i SlpG]) simp_all
next
  case (sleep_drop s i)
  then show ?case by (intro pending_step [of ch s _ k i SlpF]) simp_all
next
  case (sleep_reacquire s i)
  then show ?case by (intro pending_step [of ch s _ k i Locked]) simp_all
next
  case (wakeup_acquire s i)
  then show ?case by (intro pending_step [of ch s _ k i WkB]) simp_all
next
  case (wakeup_release s i)
  then show ?case by (intro pending_step [of ch s _ k i Locked]) simp_all
qed

lemma sw_inv_step:
  assumes "sw_step ch lk s t" "sw_owns lk s" "sw_inv ch s"
  shows "sw_inv ch t"
  using sw_range_step [OF assms(1)] sw_tested_step [OF assms(1,2)] sw_chan_step [OF assms(1)]
    sw_sleeping_step [OF assms] assms(3)
  unfolding sw_inv_def pending_def by blast

lemma sw_reach_inv:
  assumes "sw_reach ch lk s" "lk \<noteq> LPtable"
  shows "sw_owns lk s \<and> sw_inv ch s"
  using assms
proof (induction rule: sw_reach.induct)
  case (start s)
  then show ?case by (auto simp: sw_owns_def owns_def in_lk_def in_pt_def sw_inv_def sw_sleeping_def)
next
  case (more s t)
  then show ?case by (blast intro: sw_owns_step sw_inv_step)
qed

text \<open>The action lists and locks that belong to the program counters.\<close>

fun pc_acts :: "chan \<Rightarrow> lockid \<Rightarrow> swpc \<Rightarrow> act list" where
  "pc_acts ch lk Out = []"
| "pc_acts ch lk Locked = []"
| "pc_acts ch lk SlpA = [Acq LPtable, Rel lk, Mark ch, Leave ch, Unmark, Rel LPtable, Acq lk]"
| "pc_acts ch lk SlpB = [Rel lk, Mark ch, Leave ch, Unmark, Rel LPtable, Acq lk]"
| "pc_acts ch lk SlpC = [Mark ch, Leave ch, Unmark, Rel LPtable, Acq lk]"
| "pc_acts ch lk SlpD = [Leave ch, Unmark, Rel LPtable, Acq lk]"
| "pc_acts ch lk Slept = [Unmark, Rel LPtable, Acq lk]"
| "pc_acts ch lk SlpE = [Unmark, Rel LPtable, Acq lk]"
| "pc_acts ch lk SlpG = [Rel LPtable, Acq lk]"
| "pc_acts ch lk SlpF = [Acq lk]"
| "pc_acts ch lk WkA = [Acq LPtable, Scan ch, Rel LPtable]"
| "pc_acts ch lk WkB = [Scan ch, Rel LPtable]"
| "pc_acts ch lk WkC = [Rel LPtable]"

fun locks_at :: "lockid \<Rightarrow> swpc \<Rightarrow> lockid list" where
  "locks_at lk Out = []"
| "locks_at lk Locked = [lk]"
| "locks_at lk SlpA = [lk]"
| "locks_at lk SlpB = [LPtable, lk]"
| "locks_at lk SlpC = [LPtable]"
| "locks_at lk SlpD = [LPtable]"
| "locks_at lk Slept = []"
| "locks_at lk SlpE = [LPtable]"
| "locks_at lk SlpG = [LPtable]"
| "locks_at lk SlpF = []"
| "locks_at lk WkA = [lk]"
| "locks_at lk WkB = [LPtable, lk]"
| "locks_at lk WkC = [LPtable, lk]"

lemma locks_at_iff:
  "lk \<noteq> LPtable \<Longrightarrow> lk \<in> set (locks_at lk p) \<longleftrightarrow> in_lk p"
  "lk \<noteq> LPtable \<Longrightarrow> LPtable \<in> set (locks_at lk p) \<longleftrightarrow> in_pt p"
  by (cases p; simp add: in_lk_def in_pt_def)+

definition sw_rel :: "chan \<Rightarrow> lockid \<Rightarrow> sconf \<Rightarrow> swconf \<Rightarrow> bool" where
  "sw_rel ch lk c s \<longleftrightarrow> s_pt c = sw_pt s \<and> s_cond c = sw_cond s \<and>
     (\<forall>i. s_prog c i = pc_acts ch lk (sw_pc s i) \<and> s_held c i = locks_at lk (sw_pc s i) \<and> (s_asleep c i \<longleftrightarrow> sw_pc s i = Slept))"

lemma sw_relD:
  assumes "sw_rel ch lk c s"
  shows "s_pt c = sw_pt s" "s_cond c = sw_cond s" "s_prog c i = pc_acts ch lk (sw_pc s i)" "s_held c i = locks_at lk (sw_pc s i)"
    "s_asleep c i \<longleftrightarrow> sw_pc s i = Slept"
  using assms by (simp_all add: sw_rel_def)

lemma unlocked_owner:
  assumes "sw_rel ch lk c s" "sw_owns lk s" "lk \<noteq> LPtable"
  shows "unlocked lk c \<Longrightarrow> sw_owner s lk = None" "unlocked LPtable c \<Longrightarrow> sw_owner s LPtable = None"
  using assms locks_at_iff [OF assms(3)]
  by (auto simp: unlocked_def sw_rel_def sw_owns_def owns_def intro: option.exhaust)

lemma sw_rel_move:
  assumes "sw_rel ch lk c s" "s_pt d = sw_pt t" "s_cond d = sw_cond t" "sw_pc t = (sw_pc s)(i := p)"
    "s_prog d i = pc_acts ch lk p" "s_held d i = locks_at lk p" "s_asleep d i \<longleftrightarrow> p = Slept"
    "\<And>j. j \<noteq> i \<Longrightarrow> s_prog d j = s_prog c j \<and> s_held d j = s_held c j \<and> s_asleep d j = s_asleep c j"
  shows "sw_rel ch lk d t"
  using assms by (auto simp: sw_rel_def)

lemma sl_simI:
  assumes "sw_step ch lk s u" "sw_rel ch lk c s" "s_pt d = sw_pt u" "s_cond d = sw_cond u" "sw_pc u = (sw_pc s)(i := p)"
    "s_prog d i = pc_acts ch lk p" "s_held d i = locks_at lk p" "s_asleep d i \<longleftrightarrow> p = Slept"
    "\<And>j. j \<noteq> i \<Longrightarrow> s_prog d j = s_prog c j \<and> s_held d j = s_held c j \<and> s_asleep d j = s_asleep c j"
  shows "\<exists>u. sw_step ch lk s u \<and> sw_rel ch lk d u"
  using sw_rel_move [OF assms(2-9)] assms(1) by blast

lemma kview_simps [simp]: "held (kview i c) = s_held c i" "ptable (kview i c) = s_pt c" "curproc (kview i c) = Some i"
  by (simp_all add: kview_def)

lemma kput_simps [simp]: "s_pt (kput i c t) = ptable t" "s_held (kput i c t) = (s_held c)(i := held t)" "s_prog (kput i c t) = s_prog c"
  "s_asleep (kput i c t) = s_asleep c" "s_cond (kput i c t) = s_cond c"
  by (simp_all add: kput_def)

text \<open>One action of a process in the middle of \<open>sleep\<close> or \<open>wakeup\<close>.\<close>

lemma sl_act_sim:
  assumes r: "sw_rel ch lk c s" and o: "sw_owns lk s" and lk: "lk \<noteq> LPtable" and p: "s_prog c i = a # as" and aw: "\<not> s_asleep c i"
    and l: "\<And>l. a = Acq l \<Longrightarrow> unlocked l c" and run: "run_act a (kview i c) = Ok () t"
  shows "\<exists>u. sw_step ch lk s u \<and> sw_rel ch lk ((kput i c t)\<lparr>s_prog := (s_prog c)(i := as)\<rparr>) u"
proof -
  note D = sw_relD [OF r] and U = unlocked_owner [OF r o lk]
  have sim: "\<exists>u. sw_step ch lk s u \<and> sw_rel ch lk ((kput i c t)\<lparr>s_prog := (s_prog c)(i := as)\<rparr>) u"
    if "sw_step ch lk s u" "sw_pc u = (sw_pc s)(i := q)" "sw_pt u = ptable t" "sw_cond u = sw_cond s" "as = pc_acts ch lk q"
      "held t = locks_at lk q" "q \<noteq> Slept" for u q
    by (rule sl_simI [OF that(1) r, where i = i and p = q]) (use that aw D in simp_all)
  show ?thesis
  proof (cases "sw_pc s i")
    case SlpA
    with l p D have "sw_owner s LPtable = None" by (auto intro: U)
    from sw_step.sleep_acquire [OF SlpA this] show ?thesis
      by (rule sim [where q = SlpB]) (use SlpA p D run lk in \<open>auto simp: kop_simps split: if_splits\<close>)
  next
    case SlpB
    from sw_step.sleep_release [OF SlpB] show ?thesis
      by (rule sim [where q = SlpC]) (use SlpB p D run lk in \<open>auto simp: kop_simps split: if_splits\<close>)
  next
    case SlpC
    from sw_step.sleep_mark [OF SlpC] show ?thesis
      by (rule sim [where q = SlpD]) (use SlpC p D run lk in \<open>auto simp: kop_simps upd_cur_def\<close>)
  next
    case SlpD
    then show ?thesis using p D run by (auto simp: sched_def kthen_Ok)
  next
    case Slept
    then show ?thesis using aw D by simp
  next
    case SlpE
    from sw_step.sleep_tidy [OF SlpE] show ?thesis
      by (rule sim [where q = SlpG]) (use SlpE p D run lk in \<open>auto simp: kop_simps upd_cur_def\<close>)
  next
    case SlpG
    from sw_step.sleep_drop [OF SlpG] show ?thesis
      by (rule sim [where q = SlpF]) (use SlpG p D run lk in \<open>auto simp: kop_simps split: if_splits\<close>)
  next
    case SlpF
    with l p D have "sw_owner s lk = None" by (auto intro: U)
    from sw_step.sleep_reacquire [OF SlpF this] show ?thesis
      by (rule sim [where q = Locked]) (use SlpF p D run lk in \<open>auto simp: kop_simps split: if_splits\<close>)
  next
    case WkA
    with l p D have "sw_owner s LPtable = None" by (auto intro: U)
    from sw_step.wakeup_acquire [OF WkA this] show ?thesis
      by (rule sim [where q = WkB]) (use WkA p D run lk in \<open>auto simp: kop_simps split: if_splits\<close>)
  next
    case WkB
    from sw_step.wakeup_scan [OF WkB] show ?thesis
      by (rule sim [where q = WkC]) (use WkB p D run lk in \<open>auto simp: kop_simps\<close>)
  next
    case WkC
    from sw_step.wakeup_release [OF WkC] show ?thesis
      by (rule sim [where q = Locked]) (use WkC p D run lk in \<open>auto simp: kop_simps split: if_splits\<close>)
  qed (use p D in simp_all)
qed

lemma idle_pc:
  assumes "sw_rel ch lk c s" "s_prog c i = []" "lk \<noteq> LPtable"
  shows "s_held c i = [] \<Longrightarrow> sw_pc s i = Out" "lk \<in> set (s_held c i) \<Longrightarrow> sw_pc s i = Locked"
  using sw_relD(3,4) [OF assms(1), of i] assms(2) by (cases "sw_pc s i"; simp)+

lemma sl_switch_sim:
  assumes r: "sw_rel ch lk c s" and p: "s_prog c i = a # as" "\<not> s_asleep c i" and run: "run_act a (kview i c) = Switch w t"
  shows "\<exists>u. sw_step ch lk s u \<and>
    sw_rel ch lk ((kput i c (t\<lparr>held := remove1 LPtable (held t)\<rparr>))\<lparr>s_prog := (s_prog c)(i := as), s_asleep := (s_asleep c)(i := True)\<rparr>) u"
proof -
  note D = sw_relD [OF r]
  have "\<exists>ch'. a = Leave ch'" using run by (cases a) (auto simp: kop_simps split: if_splits)
  then have pc: "sw_pc s i = SlpD" and a: "a = Leave ch" using p D(3) [of i] by (cases "sw_pc s i"; auto)+
  have t: "t = kview i c" using run a by (auto simp: sched_def kop_simps split: if_splits)
  have "as = pc_acts ch lk Slept" using p D(3) [of i] pc by simp
  then show ?thesis
    by (intro sl_simI [OF sw_step.sleep_sched [OF pc] r, where i = i and p = Slept]) (use D pc t in simp_all)
qed

lemma sl_resume_sim:
  assumes r: "sw_rel ch lk c s" and o: "sw_owns lk s" and lk: "lk \<noteq> LPtable" and p: "s_asleep c i" "p_state (s_pt c i) = RUNNABLE" "unlocked LPtable c"
    and run: "kthen (kacquire LPtable) (scheduler_run i) (kview i c) = Ok () t"
  shows "\<exists>u. sw_step ch lk s u \<and> sw_rel ch lk ((kput i c t)\<lparr>s_asleep := (s_asleep c)(i := False)\<rparr>) u"
proof -
  note D = sw_relD [OF r]
  have pc: "sw_pc s i = Slept" using p(1) D by simp
  have t: "ptable t = (s_pt c)(i := (s_pt c i)\<lparr>p_state := RUNNING\<rparr>)" "held t = LPtable # s_held c i"
    using run by (auto simp: scheduler_run_def switchuvm_def kop_simps split: if_splits)
  have "sw_step ch lk s (s\<lparr>sw_pt := (sw_pt s)(i := (sw_pt s i)\<lparr>p_state := RUNNING\<rparr>),
      sw_owner := (sw_owner s)(LPtable := Some i), sw_pc := (sw_pc s)(i := SlpE)\<rparr>)"
    using p D by (intro sw_step.resume pc unlocked_owner [OF r o lk]) simp_all
  then show ?thesis
    by (rule sl_simI [OF _ r, where i = i and p = SlpE]) (use D pc t in simp_all)
qed

lemma sl_sim:
  assumes "sl_step ch lk c d" "sw_rel ch lk c s" "sw_owns lk s" "lk \<noteq> LPtable"
  shows "\<exists>u. sw_step ch lk s u \<and> sw_rel ch lk d u"
  using assms
proof (induction rule: sl_step.induct)
  case (sl_lock i c t)
  then have pc: "sw_pc s i = Out" "sw_owner s lk = None" by (auto intro: idle_pc unlocked_owner)
  show ?case
    by (rule sl_simI [OF sw_step.lock [OF sl_lock(1) pc] sl_lock(6), where i = i and p = Locked])
      (use sl_lock(2,3,5) sw_relD [OF sl_lock(6)] pc in \<open>auto simp: kop_simps split: if_splits\<close>)
next
  case (sl_unlock c i t)
  then have "lk \<in> set (s_held c i)" by (auto simp: kop_simps split: if_splits)
  with sl_unlock have pc: "sw_pc s i = Locked" by (intro idle_pc)
  show ?case
    by (rule sl_simI [OF sw_step.unlock [OF pc] sl_unlock(3), where i = i and p = Out])
      (use sl_unlock(1,2) sw_relD [OF sl_unlock(3)] pc in \<open>auto simp: kop_simps split: if_splits\<close>)
next
  case (sl_consume c i)
  then have pc: "sw_pc s i = Locked" by (intro idle_pc)
  show ?case
    by (rule sl_simI [OF sw_step.consume [OF pc] sl_consume(3), where i = i and p = Locked])
      (use sw_relD [OF sl_consume(3)] pc in auto)
next
  case (sl_produce c i)
  then have pc: "sw_pc s i = Locked" by (intro idle_pc)
  show ?case
    by (rule sl_simI [OF sw_step.produce [OF pc] sl_produce(3), where i = i and p = WkA])
      (use sw_relD [OF sl_produce(3)] pc in \<open>simp_all add: wakeup_acts_def\<close>)
next
  case (sl_test c i)
  then have pc: "sw_pc s i = Locked" "\<not> sw_cond s" using sw_relD [OF sl_test(4)] by (auto intro: idle_pc)
  show ?case
    by (rule sl_simI [OF sw_step.test [OF pc] sl_test(4), where i = i and p = SlpA])
      (use sw_relD [OF sl_test(4)] pc sl_test(6) in \<open>simp_all add: sleep_acts_def sleep_enter_def sleep_leave_def\<close>)
next
  case (sl_act c i a as t)
  then show ?case by (intro sl_act_sim) simp_all
next
  case (sl_switch c i a as w t)
  then show ?case by (intro sl_switch_sim) simp_all
next
  case (sl_resume c i t)
  then show ?case by (intro sl_resume_sim) simp_all
qed

lemma sl_reach_sim:
  assumes "sl_reach ch lk c" "lk \<noteq> LPtable"
  shows "\<exists>s. sw_reach ch lk s \<and> sw_rel ch lk c s"
  using assms
proof (induction rule: sl_reach.induct)
  case (sl_start c)
  let ?s = "\<lparr>sw_pt = s_pt c, sw_owner = (\<lambda>_. None), sw_pc = (\<lambda>_. Out), sw_cond = s_cond c\<rparr>"
  have "sw_reach ch lk ?s" by (rule sw_reach.start) simp_all
  moreover have "sw_rel ch lk c ?s" using sl_start by (simp add: sw_rel_def)
  ultimately show ?case by blast
next
  case (sl_more c d)
  then obtain s where s: "sw_reach ch lk s" "sw_rel ch lk c s" by blast
  from sl_sim [OF sl_more(2) s(2) conjunct1 [OF sw_reach_inv [OF s(1)]]] sl_more(4)
  show ?case using s(1) by (blast intro: sw_reach.more)
qed

text \<open>
  C31. No lost wakeup: in every interleaving of processes that run \<open>sleep\<close> and \<open>wakeup\<close>, if a process sleeps on the channel although the
  condition holds, then some process has set the condition and is still in \<open>wakeup\<close>, before its scan of the table.
\<close>

theorem no_lost_wakeup:
  assumes "sl_reach ch lk c" and "lk \<noteq> LPtable" and "s_asleep c i" and "p_state (s_pt c i) = SLEEPING" and "s_cond c"
  shows "\<exists>j. Scan ch \<in> set (s_prog c j)"
proof -
  obtain s where s: "sw_reach ch lk s" "sw_rel ch lk c s" using sl_reach_sim [OF assms(1,2)] by blast
  note D = sw_relD [OF s(2)]
  have "sw_sleeping s i" "sw_cond s" using assms(3-5) D by (simp_all add: sw_sleeping_def)
  then obtain j where "sw_pc s j \<in> {WkA, WkB}"
    using sw_reach_inv [OF s(1) assms(2)] by (auto simp: sw_inv_def)
  then have "Scan ch \<in> set (s_prog c j)" using D(3) [of j] by auto
  then show ?thesis ..
qed

text \<open>Process 0 goes to sleep and process 1 sets the condition; the state of the two processes step by step.\<close>

definition two_procs :: "proc \<Rightarrow> lockid list \<Rightarrow> act list \<Rightarrow> bool \<Rightarrow> lockid list \<Rightarrow> act list \<Rightarrow> bool \<Rightarrow> sconf" where
  "two_procs p h0 p0 a0 h1 p1 cd = \<lparr>s_pt = (\<lambda>i. if i = 0 then p else blank_proc), s_held = (\<lambda>i. if i = 0 then h0 else if i = 1 then h1 else []),
     s_prog = (\<lambda>i. if i = 0 then p0 else if i = 1 then p1 else []), s_asleep = (\<lambda>i. i = 0 \<and> a0), s_cond = cd\<rparr>"

lemma two_procs_act:
  assumes "\<And>l. a = Acq l \<Longrightarrow> l \<notin> set h0 \<union> set h1"
    and "run_act a (kview 0 (two_procs p h0 (a # as) False h1 p1 cd)) = Ok () (kview 0 (two_procs q h0' as False h1 p1 cd))"
  shows "sl_step ch lk (two_procs p h0 (a # as) False h1 p1 cd) (two_procs q h0' as False h1 p1 cd)"
proof -
  let ?c = "two_procs p h0 (a # as) False h1 p1 cd" and ?d = "two_procs q h0' as False h1 p1 cd"
  have "sl_step ch lk ?c ((kput 0 ?c (kview 0 ?d))\<lparr>s_prog := (s_prog ?c)(0 := as)\<rparr>)"
    by (rule sl_step.sl_act [OF _ _ _ assms(2)]) (use assms(1) in \<open>auto simp: two_procs_def unlocked_def\<close>)
  moreover have "(kput 0 ?c (kview 0 ?d))\<lparr>s_prog := (s_prog ?c)(0 := as)\<rparr> = ?d"
    by (simp add: two_procs_def kput_def kview_def fun_eq_iff)
  ultimately show ?thesis by simp
qed

lemma two_procs_lock:
  shows "sl_step ch LBcache (two_procs p [] [] False [] [] cd) (two_procs p [LBcache] [] False [] [] cd)"
    and "sl_step ch LBcache (two_procs p [] p0 a0 [] [] cd) (two_procs p [] p0 a0 [LBcache] [] cd)"
proof -
  have lock: "sl_step ch LBcache c d"
    if "i < NPROC" "s_prog c i = []" "s_held c i = []" "unlocked LBcache c" "run_act (Acq LBcache) (kview i c) = Ok () (kview i d)" "kput i c (kview i d) = d"
    for i c d using sl_step.sl_lock [OF that(1-5), of ch] that(6) by simp
  show "sl_step ch LBcache (two_procs p [] [] False [] [] cd) (two_procs p [LBcache] [] False [] [] cd)"
    by (rule lock [of 0]) (simp_all add: two_procs_def unlocked_def kput_def kview_def kop_simps fun_eq_iff)
  show "sl_step ch LBcache (two_procs p [] p0 a0 [] [] cd) (two_procs p [] p0 a0 [LBcache] [] cd)"
    by (rule lock [of 1]) (simp_all add: two_procs_def unlocked_def kput_def kview_def kop_simps fun_eq_iff)
qed

lemma slept_reachable:
  "\<exists>c. sl_reach ch LBcache c \<and> s_asleep c 0 \<and> p_state (s_pt c 0) = SLEEPING \<and> s_cond c"
proof -
  let ?q = "go_to_sleep ch blank_proc" and ?L = "sleep_leave LBcache"
  have "sl_reach ch LBcache (two_procs blank_proc [] [] False [] [] False)" by (rule sl_reach.sl_start) (simp_all add: two_procs_def)
  note c1 = sl_reach.sl_more [OF this two_procs_lock(1)]
  have "sl_step ch LBcache (two_procs blank_proc [LBcache] [] False [] [] False)
      (two_procs blank_proc [LBcache] ([Acq LPtable, Rel LBcache, Mark ch, Leave ch] @ ?L) False [] [] False)"
    using sl_step.sl_test [of "two_procs blank_proc [LBcache] [] False [] [] False" 0 LBcache ch]
    by (simp add: two_procs_def sleep_acts_def sleep_enter_def fun_upd_def if_distrib cong: if_cong)
  note c2 = sl_reach.sl_more [OF c1 this]
  have "sl_step ch LBcache (two_procs blank_proc [LBcache] ([Acq LPtable, Rel LBcache, Mark ch, Leave ch] @ ?L) False [] [] False)
      (two_procs blank_proc [LPtable, LBcache] ([Rel LBcache, Mark ch, Leave ch] @ ?L) False [] [] False)"
    unfolding append_Cons by (rule two_procs_act) (simp_all add: two_procs_def kview_def kop_simps)
  note c3 = sl_reach.sl_more [OF c2 this]
  have "sl_step ch LBcache (two_procs blank_proc [LPtable, LBcache] ([Rel LBcache, Mark ch, Leave ch] @ ?L) False [] [] False)
      (two_procs blank_proc [LPtable] ([Mark ch, Leave ch] @ ?L) False [] [] False)"
    unfolding append_Cons by (rule two_procs_act) (simp_all add: two_procs_def kview_def kop_simps)
  note c4 = sl_reach.sl_more [OF c3 this]
  have "sl_step ch LBcache (two_procs blank_proc [LPtable] ([Mark ch, Leave ch] @ ?L) False [] [] False)
      (two_procs ?q [LPtable] ([Leave ch] @ ?L) False [] [] False)"
    unfolding append_Cons by (rule two_procs_act) (simp_all add: two_procs_def kview_def kop_simps upd_cur_def upd_proc_def fun_eq_iff)
  note c5 = sl_reach.sl_more [OF c4 this]
  let ?c = "two_procs ?q [LPtable] ([Leave ch] @ ?L) False [] [] False"
  have "run_act (Leave ch) (kview 0 ?c) = Switch (Asleep ch) (kview 0 ?c)"
    by (simp add: two_procs_def kview_def kop_simps sched_def cur_def interruptible_def go_to_sleep_def)
  moreover have "(kput 0 ?c ((kview 0 ?c)\<lparr>held := remove1 LPtable (held (kview 0 ?c))\<rparr>))\<lparr>s_prog := (s_prog ?c)(0 := ?L), s_asleep := (s_asleep ?c)(0 := True)\<rparr> =
      two_procs ?q [] ?L True [] [] False"
    by (simp add: two_procs_def kput_def kview_def fun_eq_iff)
  ultimately have "sl_step ch LBcache ?c (two_procs ?q [] ?L True [] [] False)"
    using sl_step.sl_switch [of ?c 0 "Leave ch" ?L "Asleep ch" "kview 0 ?c" ch LBcache] by (simp add: two_procs_def)
  note c6 = sl_reach.sl_more [OF sl_reach.sl_more [OF c5 this] two_procs_lock(2)]
  let ?c = "two_procs ?q [] ?L True [LBcache] [] False"
  have "sl_step ch LBcache ?c (?c\<lparr>s_cond := True, s_prog := (s_prog ?c)(1 := wakeup_acts ch)\<rparr>)"
    by (rule sl_step.sl_produce) (simp_all add: two_procs_def)
  from sl_reach.sl_more [OF c6 this] show ?thesis
    by (intro exI conjI, assumption) (simp_all add: two_procs_def go_to_sleep_def)
qed

theorem no_lost_wakeup_witness:
  "\<exists>c. sl_reach (ChBuf 0) LBcache c \<and> s_asleep c 0 \<and> p_state (s_pt c 0) = SLEEPING \<and> (\<exists>j. Scan (ChBuf 0) \<in> set (s_prog c j))"
proof -
  obtain c where "sl_reach (ChBuf 0) LBcache c" "s_asleep c 0" "p_state (s_pt c 0) = SLEEPING" "s_cond c"
    using slept_reachable [of "ChBuf 0"] by blast
  then show ?thesis using no_lost_wakeup [of "ChBuf 0" LBcache c 0] by blast
qed

end
