(* ===== verification/Kalloc.thy ===== *)
theory Kalloc
  imports Sched
begin

text \<open>
  The physical page allocator, \<^verbatim>\<open>src/kalloc.c\<close>.  Kernel memory is a map from page base addresses
  to the bytes of the page; a free page holds the address of the next free page in its first four
  bytes (\<open>struct run\<close>), so the free list is a chain through memory.
\<close>

section \<open>State and operations\<close>

text \<open>\<open>kend\<close> and \<open>kdata\<close> are the linker symbols \<open>end\<close> and \<open>data\<close>.\<close>

record kmem = kproc +
  mem :: "nat \<Rightarrow> bytes"
  freelist :: nat
  kmem_use_lock :: bool
  kend :: nat
  kdata :: nat

abbreviation mem_fill :: "nat \<Rightarrow> u8 \<Rightarrow> 'z kmem_scheme \<Rightarrow> 'z kmem_scheme" where
  "mem_fill v c s \<equiv> s\<lparr>mem := (mem s)(v := (\<lambda>_. c))\<rparr>"

definition kmem_lock :: "(unit, 'z kmem_scheme) kop" where
  "kmem_lock = kbind (kget kmem_use_lock) (\<lambda>u. if u then kacquire LKmem else kret ())"

definition kmem_unlock :: "(unit, 'z kmem_scheme) kop" where
  "kmem_unlock = kbind (kget kmem_use_lock) (\<lambda>u. if u then krelease LKmem else kret ())"

definition kfree :: "nat \<Rightarrow> (unit, 'z kmem_scheme) kop" where
  "kfree v =
     kthen (kassert (\<lambda>s. v mod PGSIZE = 0 \<and> v \<ge> kend s \<and> v2p v < PHYSTOP) ''kfree'')
    (kthen (kmod (mem_fill v 1))
    (kthen kmem_lock
    (kthen (kmod (\<lambda>s. s\<lparr>mem := (mem s)(v := wr32 (mem s v) 0 (freelist s))\<rparr>))
    (kthen (kmod (\<lambda>s. s\<lparr>freelist := v\<rparr>))
           kmem_unlock))))"

definition kalloc :: "(nat, 'z kmem_scheme) kop" where
  "kalloc =
     kthen kmem_lock
    (kbind (kget freelist) (\<lambda>r.
     kthen (if r \<noteq> 0 then kmod (\<lambda>s. s\<lparr>freelist := rd32 (mem s r) 0\<rparr>) else kret ())
    (kthen kmem_unlock
           (kret r))))"

function freerange_loop :: "nat \<Rightarrow> nat \<Rightarrow> (unit, 'z kmem_scheme) kop" where
  "freerange_loop p vend =
     (if p + PGSIZE \<le> vend then kthen (kfree p) (freerange_loop (p + PGSIZE) vend) else kret ())"
  by pat_completeness auto
termination
  by (relation "measure (\<lambda>(p, vend). vend - p)") auto

declare freerange_loop.simps [simp del]

definition freerange :: "nat \<Rightarrow> nat \<Rightarrow> (unit, 'z kmem_scheme) kop" where
  "freerange vstart vend = freerange_loop (PGROUNDUP vstart) vend"

definition kinit1 :: "nat \<Rightarrow> nat \<Rightarrow> (unit, 'z kmem_scheme) kop" where
  "kinit1 vstart vend = kthen (kmod (\<lambda>s. s\<lparr>kmem_use_lock := False\<rparr>)) (freerange vstart vend)"

definition kinit2 :: "nat \<Rightarrow> nat \<Rightarrow> (unit, 'z kmem_scheme) kop" where
  "kinit2 vstart vend = kthen (freerange vstart vend) (kmod (\<lambda>s. s\<lparr>kmem_use_lock := True\<rparr>))"

section \<open>The free list as a list\<close>

text \<open>The pages on the chain from \<open>p\<close>, in order.\<close>

fun chain :: "(nat \<Rightarrow> bytes) \<Rightarrow> nat \<Rightarrow> nat list \<Rightarrow> bool" where
  "chain m p [] \<longleftrightarrow> p = 0"
| "chain m p (q # qs) \<longleftrightarrow> p = q \<and> q \<noteq> 0 \<and> chain m (rd32 (m q) 0) qs"

lemma chain_unique: "chain m p xs \<Longrightarrow> chain m p ys \<Longrightarrow> xs = ys"
proof (induction xs arbitrary: p ys)
  case Nil
  then show ?case by (cases ys) auto
next
  case (Cons x xs)
  then show ?case by (cases ys) auto
qed

lemma chain_update [simp]: "v \<notin> set xs \<Longrightarrow> chain (m(v := b)) p xs = chain m p xs"
  by (induction xs arbitrary: p) auto

lemma chain_cong: "(\<And>v. v \<in> set xs \<Longrightarrow> m' v = m v) \<Longrightarrow> chain m' p xs = chain m p xs"
  by (induction xs arbitrary: p) auto

text \<open>The addresses \<open>kfree\<close> accepts.\<close>

definition kpage :: "'z kmem_scheme \<Rightarrow> nat \<Rightarrow> bool" where
  "kpage s v \<longleftrightarrow> v mod PGSIZE = 0 \<and> v \<ge> kend s \<and> v2p v < PHYSTOP \<and> KERNBASE < v \<and> v < W32"

definition free_pages :: "'z kmem_scheme \<Rightarrow> nat list \<Rightarrow> bool" where
  "free_pages s xs \<longleftrightarrow> chain (mem s) (freelist s) xs \<and> distinct xs \<and> (\<forall>v\<in>set xs. kpage s v)"

definition kmem_ready :: "'z kmem_scheme \<Rightarrow> bool" where
  "kmem_ready s \<longleftrightarrow> (kmem_use_lock s \<longrightarrow> LKmem \<notin> set (held s))"

section \<open>Running the allocator\<close>

lemma run_kmem_lock [kop_simps]:
  "kmem_lock s = (if kmem_use_lock s then kacquire LKmem s else Ok () s)"
  by (simp add: kmem_lock_def kop_simps)

lemma run_kmem_unlock [kop_simps]:
  "kmem_unlock s = (if kmem_use_lock s then krelease LKmem s else Ok () s)"
  by (simp add: kmem_unlock_def kop_simps)

lemma run_kalloc [kop_simps]:
  "kalloc s = (if kmem_ready s
     then Ok (freelist s) (s\<lparr>freelist := (if freelist s \<noteq> 0 then rd32 (mem s (freelist s)) 0 else 0)\<rparr>)
     else Panic ''acquire'')"
  by (simp add: kalloc_def kmem_ready_def kop_simps)

lemma run_kfree [kop_simps]:
  "kfree v s = (if v mod PGSIZE = 0 \<and> v \<ge> kend s \<and> v2p v < PHYSTOP
     then if kmem_ready s
       then Ok () (s\<lparr>mem := (mem s)(v := wr32 (\<lambda>_. 1) 0 (freelist s)), freelist := v\<rparr>)
       else Panic ''acquire''
     else Panic ''kfree'')"
  by (simp add: kfree_def kmem_ready_def kop_simps)

text \<open>The part of the state the allocator does not change.\<close>

definition kmem_frame :: "'z kmem_scheme \<Rightarrow> 'z kmem_scheme \<Rightarrow> bool" where
  "kmem_frame s t \<longleftrightarrow> (\<exists>m f. t = s\<lparr>mem := m, freelist := f\<rparr>)"

lemma kmem_frameI [intro]: "kmem_frame s (s\<lparr>mem := m, freelist := f\<rparr>)"
  by (auto simp: kmem_frame_def)

lemma kmem_frame_refl [simp]: "kmem_frame s s"
  unfolding kmem_frame_def by (rule exI [of _ "mem s"], rule exI [of _ "freelist s"]) simp

lemma kmem_frame_trans: "kmem_frame s t \<Longrightarrow> kmem_frame t u \<Longrightarrow> kmem_frame s u"
  by (auto simp: kmem_frame_def) metis

lemma kmem_frame_eqs:
  assumes "kmem_frame s t"
  shows "held t = held s" "ptable t = ptable s" "curproc t = curproc s" "kend t = kend s"
    "kdata t = kdata s" "kmem_use_lock t = kmem_use_lock s" "kmem_ready t = kmem_ready s"
    "kpage t = kpage s" "kmem.more t = kmem.more s" "kpgdir t = kpgdir s" "nextpid t = nextpid s"
    "initproc t = initproc s" "iflag t = iflag s" "cr3 t = cr3 s"
  using assms by (auto simp: kmem_frame_def kmem_ready_def kpage_def fun_eq_iff)

section \<open>The allocator is a stack of pages\<close>

text \<open>
  \<open>kalloc\<close> takes the first page off the free list and changes no page of memory; on an empty
  list it returns the null pointer and changes nothing.
\<close>

lemma kalloc_pops:
  assumes "free_pages s xs" and "kmem_ready s"
  shows "\<exists>t. kalloc s = Ok (case xs of [] \<Rightarrow> 0 | v # _ \<Rightarrow> v) t \<and> free_pages t (tl xs) \<and>
    mem t = mem s \<and> kmem_frame s t"
proof (cases xs)
  case Nil
  with assms have "freelist s = 0" by (simp add: free_pages_def)
  then have eq: "s\<lparr>freelist := 0\<rparr> = s" by (cases s) simp
  show ?thesis
    using Nil assms \<open>freelist s = 0\<close> by (simp add: run_kalloc eq)
next
  case (Cons v vs)
  with assms have v: "freelist s = v" "v \<noteq> 0" "chain (mem s) (rd32 (mem s v) 0) vs"
    by (auto simp: free_pages_def)
  let ?t = "s\<lparr>freelist := rd32 (mem s v) 0\<rparr>"
  have "kmem_frame s ?t" using kmem_frameI [of s "rd32 (mem s v) 0" "mem s"] by simp
  moreover from this have "free_pages ?t vs"
    using Cons v assms by (simp add: free_pages_def kmem_frame_eqs(8))
  ultimately show ?thesis using Cons v assms by (simp add: run_kalloc)
qed

text \<open>
  \<open>kfree\<close> of an allocated page puts it at the head of the free list and changes no other
  page; of an address outside the pages of the allocator it panics.
\<close>

lemma kfree_pushes:
  assumes "free_pages s xs" and "kmem_ready s" and "kpage s v" and "v \<notin> set xs"
  shows "\<exists>t. kfree v s = Ok () t \<and> free_pages t (v # xs) \<and> (\<forall>u. u \<noteq> v \<longrightarrow> mem t u = mem s u) \<and>
    kmem_frame s t"
proof -
  let ?t = "s\<lparr>mem := (mem s)(v := wr32 (\<lambda>_. 1) 0 (freelist s)), freelist := v\<rparr>"
  have fr: "kmem_frame s ?t" by (rule kmem_frameI)
  have "freelist s < W32"
    using assms(1) by (cases xs) (auto simp: free_pages_def kpage_def)
  then have "rd32 (mem ?t v) 0 = freelist s" by simp
  then have "free_pages ?t (v # xs)"
    using assms fr by (auto simp: free_pages_def kmem_frame_eqs(8) kpage_def)
  with fr assms show ?thesis by (auto simp: run_kfree kpage_def)
qed

lemma kfree_bad: "\<not> (v mod PGSIZE = 0 \<and> v \<ge> kend s \<and> v2p v < PHYSTOP) \<Longrightarrow> kfree v s = Panic ''kfree''"
  by (simp add: run_kfree)

section \<open>The interface of the allocator\<close>

text \<open>
  What the clients of the allocator rely on: the operations act on an abstract stack of free pages
  and keep their frame.  Sequences of calls are then calls on the stack.
\<close>

datatype pgop = PgAlloc | PgFree nat

fun stack_run :: "pgop list \<Rightarrow> nat list \<Rightarrow> nat list \<times> nat list" where
  "stack_run [] xs = ([], xs)"
| "stack_run (PgAlloc # ops) xs =
     (case stack_run ops (tl xs) of (rs, ys) \<Rightarrow> ((case xs of [] \<Rightarrow> 0 | v # _ \<Rightarrow> v) # rs, ys))"
| "stack_run (PgFree v # ops) xs = stack_run ops (v # xs)"

text \<open>A page is freed only while it is allocated.\<close>

fun stack_legal :: "(nat \<Rightarrow> bool) \<Rightarrow> pgop list \<Rightarrow> nat list \<Rightarrow> bool" where
  "stack_legal ok [] xs \<longleftrightarrow> True"
| "stack_legal ok (PgAlloc # ops) xs \<longleftrightarrow> stack_legal ok ops (tl xs)"
| "stack_legal ok (PgFree v # ops) xs \<longleftrightarrow> ok v \<and> v \<notin> set xs \<and> stack_legal ok ops (v # xs)"

fun page_run :: "(nat, 's) kop \<Rightarrow> (nat \<Rightarrow> (unit, 's) kop) \<Rightarrow> pgop list \<Rightarrow> (nat list, 's) kop" where
  "page_run al fr [] = kret []"
| "page_run al fr (PgAlloc # ops) = kbind al (\<lambda>v. kbind (page_run al fr ops) (\<lambda>rs. kret (v # rs)))"
| "page_run al fr (PgFree v # ops) = kthen (fr v) (page_run al fr ops)"

locale page_alloc =
  fixes al :: "(nat, 's) kop"
    and fr :: "nat \<Rightarrow> (unit, 's) kop"
    and pages :: "'s \<Rightarrow> nat list \<Rightarrow> bool"
    and ready :: "'s \<Rightarrow> bool"
    and ok :: "'s \<Rightarrow> nat \<Rightarrow> bool"
  assumes al_pop: "pages s xs \<Longrightarrow> ready s \<Longrightarrow>
      \<exists>t. al s = Ok (case xs of [] \<Rightarrow> 0 | v # _ \<Rightarrow> v) t \<and> pages t (tl xs) \<and> ready t \<and> ok t = ok s"
    and fr_push: "pages s xs \<Longrightarrow> ready s \<Longrightarrow> ok s v \<Longrightarrow> v \<notin> set xs \<Longrightarrow>
      \<exists>t. fr v s = Ok () t \<and> pages t (v # xs) \<and> ready t \<and> ok t = ok s"
    and pages_ok: "pages s xs \<Longrightarrow> distinct xs \<and> (\<forall>v\<in>set xs. ok s v \<and> v \<noteq> 0)"
begin

lemma run_refines:
  assumes "pages s xs" "ready s" "stack_legal (ok s) ops xs"
  shows "\<exists>t. page_run al fr ops s = Ok (fst (stack_run ops xs)) t \<and> pages t (snd (stack_run ops xs))"
  using assms
proof (induction ops arbitrary: s xs)
  case Nil
  then show ?case by (simp add: kop_simps)
next
  case (Cons op ops)
  show ?case
  proof (cases op)
    case PgAlloc
    with Cons.prems obtain t where t: "al s = Ok (case xs of [] \<Rightarrow> 0 | v # _ \<Rightarrow> v) t"
      "pages t (tl xs)" "ready t" "ok t = ok s" using al_pop by blast
    with Cons.IH [of t "tl xs"] Cons.prems PgAlloc show ?thesis
      by (auto simp: kop_simps split: prod.splits)
  next
    case (PgFree v)
    with Cons.prems obtain t where "fr v s = Ok () t" "pages t (v # xs)" "ready t" "ok t = ok s"
      using fr_push [of s xs v] by auto
    with Cons.IH [of t "v # xs"] Cons.prems PgFree show ?thesis by (auto simp: kop_simps)
  qed
qed

text \<open>\<open>n\<close> allocations on a stack of at least \<open>n\<close> pages give \<open>n\<close> different pages.\<close>

lemma run_allocs:
  assumes "pages s xs" "ready s" "n \<le> length xs"
  shows "\<exists>t. page_run al fr (replicate n PgAlloc) s = Ok (take n xs) t \<and> pages t (drop n xs) \<and>
    distinct (take n xs) \<and> 0 \<notin> set (take n xs) \<and> set (take n xs) \<inter> set (drop n xs) = {}"
proof -
  have "stack_run (replicate n PgAlloc) xs = (take n xs, drop n xs)" if "n \<le> length xs" for xs
    using that
  proof (induction n arbitrary: xs)
    case (Suc n)
    then show ?case by (cases xs) auto
  qed simp
  moreover have "stack_legal P (replicate n PgAlloc) ys" for P ys
    by (induction n arbitrary: ys) auto
  ultimately obtain t where "page_run al fr (replicate n PgAlloc) s = Ok (take n xs) t" "pages t (drop n xs)"
    using run_refines [OF assms(1,2)] assms(3) by (metis fst_conv snd_conv)
  moreover have "distinct xs" "0 \<notin> set xs" using pages_ok [OF assms(1)] by auto
  ultimately show ?thesis
    using set_take_disj_set_drop_if_distinct [of xs n n] by (auto dest: in_set_takeD)
qed

end

lemma free_pages_ok: "free_pages s xs \<Longrightarrow> distinct xs \<and> (\<forall>v\<in>set xs. kpage s v \<and> v \<noteq> 0)"
  by (auto simp: free_pages_def kpage_def)

interpretation kpages: page_alloc kalloc kfree free_pages kmem_ready kpage
proof
  fix s :: "'a kmem_scheme" and xs v
  assume "free_pages s xs" "kmem_ready s"
  then show "\<exists>t. kalloc s = Ok (case xs of [] \<Rightarrow> 0 | v # _ \<Rightarrow> v) t \<and> free_pages t (tl xs) \<and>
      kmem_ready t \<and> kpage t = kpage s"
    using kalloc_pops by (fastforce simp: kmem_frame_eqs)
  assume "kpage s v" "v \<notin> set xs"
  with \<open>free_pages s xs\<close> \<open>kmem_ready s\<close>
  show "\<exists>t. kfree v s = Ok () t \<and> free_pages t (v # xs) \<and> kmem_ready t \<and> kpage t = kpage s"
    using kfree_pushes by (fastforce simp: kmem_frame_eqs)
qed (rule free_pages_ok)

text \<open>
  C25. The allocator is a stack of pages: any sequence of \<open>kalloc\<close> calls and of \<open>kfree\<close> calls on
  pages that are allocated at that moment returns exactly what the same pushes and pops on the
  list of free pages return, never panics, and leaves a well-formed free list of distinct pages.
\<close>

theorem kalloc_refines_stack:
  assumes "free_pages s xs" and "kmem_ready s" and "stack_legal (kpage s) ops xs"
  shows "\<exists>t. page_run kalloc kfree ops s = Ok (fst (stack_run ops xs)) t \<and>
    free_pages t (snd (stack_run ops xs))"
  by (rule kpages.run_refines [OF assms])

section \<open>Filling the free list at boot\<close>

text \<open>The pages of \<open>[p, vend)\<close>.\<close>

definition pages_of :: "nat \<Rightarrow> nat \<Rightarrow> nat list" where
  "pages_of p vend = map (\<lambda>k. p + k * PGSIZE) [0..<(vend - p) div PGSIZE]"

lemma pages_of_step:
  assumes "p + PGSIZE \<le> vend"
  shows "pages_of p vend = p # pages_of (p + PGSIZE) vend"
proof -
  have "(vend - p) div PGSIZE = Suc ((vend - (p + PGSIZE)) div PGSIZE)"
  proof -
    have "vend - p = PGSIZE + (vend - (p + PGSIZE))" using assms by simp
    then show ?thesis by (metis div_add_self1 zero_neq_numeral Suc_eq_plus1)
  qed
  then have "[0..<(vend - p) div PGSIZE] = 0 # map Suc [0..<(vend - (p + PGSIZE)) div PGSIZE]"
    by (simp add: map_Suc_upt upt_conv_Cons)
  then show ?thesis by (simp add: pages_of_def algebra_simps)
qed

lemma pages_of_end: "\<not> p + PGSIZE \<le> vend \<Longrightarrow> pages_of p vend = []"
  by (simp add: pages_of_def div_eq_0_iff)

lemma pages_of_range: "v \<in> set (pages_of p vend) \<Longrightarrow> p \<le> v \<and> v + PGSIZE \<le> vend"
proof -
  assume "v \<in> set (pages_of p vend)"
  then obtain k where k: "v = p + k * PGSIZE" "k < (vend - p) div PGSIZE" by (auto simp: pages_of_def)
  then have "Suc k * PGSIZE \<le> (vend - p) div PGSIZE * PGSIZE" by (intro mult_right_mono) simp_all
  also have "\<dots> \<le> vend - p" by (rule div_times_less_eq_dividend)
  finally show ?thesis using k by simp
qed

lemma freerange_loop_pages:
  assumes "free_pages s xs" "kmem_ready s" "p mod PGSIZE = 0" "kend s \<le> p" "KERNBASE < p"
    "vend \<le> KERNBASE + PHYSTOP" "\<forall>v\<in>set xs. v < p"
  shows "\<exists>t. freerange_loop p vend s = Ok () t \<and> free_pages t (rev (pages_of p vend) @ xs) \<and> kmem_frame s t \<and>
    (\<forall>v<p. mem t v = mem s v)"
  using assms
proof (induction p vend arbitrary: s xs rule: freerange_loop.induct)
  case (1 p vend)
  show ?case
  proof (cases "p + PGSIZE \<le> vend")
    case False
    with 1 show ?thesis by (simp add: pages_of_end kop_simps freerange_loop.simps [of p])
  next
    case True
    have "kpage s p"
      using "1.prems" True by (simp add: kpage_def v2p_high)
    then obtain t where t: "kfree p s = Ok () t" "free_pages t (p # xs)" "kmem_frame s t" "\<forall>v. v \<noteq> p \<longrightarrow> mem t v = mem s v"
      using kfree_pushes [of s xs p] "1.prems" by auto
    have below: "\<forall>v\<in>set (p # xs). v < p + PGSIZE"
      using "1.prems" by fastforce
    from t obtain u where "freerange_loop (p + PGSIZE) vend t = Ok () u"
        "free_pages u (rev (pages_of (p + PGSIZE) vend) @ p # xs)" "kmem_frame t u" "\<forall>v<p + PGSIZE. mem u v = mem t v"
      using "1.IH" [OF True, of t "p # xs", OF _ _ _ _ _ _ below] "1.prems" by (auto simp: kmem_frame_eqs)
    with t True show ?thesis
      by (auto simp: pages_of_step freerange_loop.simps [of p] intro: kmem_frame_trans)
  qed
qed

text \<open>
  C26. After \<open>kinit1(vstart, vmid)\<close> and \<open>kinit2(vmid, vend)\<close> at boot the free list holds exactly the
  whole pages of the two ranges, each once, and from then on the allocator takes its lock.
\<close>

theorem kinit_pages:
  assumes "freelist s = 0" and "held s = []" and "kend s \<le> vstart" and "KERNBASE < vstart"
    and "vstart \<le> vmid" and "vmid \<le> vend" and "vend \<le> KERNBASE + PHYSTOP"
  shows "\<exists>t. kthen (kinit1 vstart vmid) (kinit2 vmid vend) s = Ok () t \<and> kmem_use_lock t \<and>
    free_pages t (rev (pages_of (PGROUNDUP vmid) vend) @ rev (pages_of (PGROUNDUP vstart) vmid))"
proof -
  have up: "a \<le> PGROUNDUP a \<and> PGROUNDUP a mod PGSIZE = 0" if "a \<le> vend" for a
    using PGROUNDUP_bounds [of a] that assms(7) by simp
  let ?s = "s\<lparr>kmem_use_lock := False\<rparr>"
  obtain t where t: "freerange_loop (PGROUNDUP vstart) vmid ?s = Ok () t"
      "free_pages t (rev (pages_of (PGROUNDUP vstart) vmid))" "kmem_frame ?s t"
    using freerange_loop_pages [of ?s "[]" "PGROUNDUP vstart" vmid] assms up [of vstart]
    by (auto simp: free_pages_def kmem_ready_def)
  have "\<forall>v\<in>set (rev (pages_of (PGROUNDUP vstart) vmid)). v < PGROUNDUP vmid"
    using pages_of_range up [of vmid] assms(6) by fastforce
  then obtain u where u: "freerange_loop (PGROUNDUP vmid) vend t = Ok () u"
      "free_pages u (rev (pages_of (PGROUNDUP vmid) vend) @ rev (pages_of (PGROUNDUP vstart) vmid))"
    using freerange_loop_pages [OF t(2), of "PGROUNDUP vmid" vend] assms up [of vmid] kmem_frame_eqs [OF t(3)]
    by (auto simp: kmem_ready_def)
  then have "free_pages (u\<lparr>kmem_use_lock := True\<rparr>)
      (rev (pages_of (PGROUNDUP vmid) vend) @ rev (pages_of (PGROUNDUP vstart) vmid))"
    by (simp add: free_pages_def kpage_def)
  with t u show ?thesis
    by (auto simp: kinit1_def kinit2_def freerange_def kop_simps)
qed

text \<open>A kernel that ends at \<open>KERNBASE + 2 * PGSIZE\<close>, before the allocator is initialised.\<close>

definition boot_kmem :: kmem where
  "boot_kmem = \<lparr>held = [], ptable = (\<lambda>_. blank_proc), curproc = None, initproc = None, nextpid = 1,
     iflag = False, cr3 = 0, ts_ss0 = 0, ts_esp0 = 0, kpgdir = 0, mem = (\<lambda>_ _. 0), freelist = 0,
     kmem_use_lock = False, kend = KERNBASE + 8000, kdata = KERNBASE + 4096\<rparr>"

lemma boot_kmem_pages:
  "pages_of (PGROUNDUP (KERNBASE + 16384)) (KERNBASE + 24576) = [KERNBASE + 16384, KERNBASE + 20480]"
  "pages_of (PGROUNDUP (KERNBASE + 8000)) (KERNBASE + 16384) = [KERNBASE + 8192, KERNBASE + 12288]"
  by (simp_all add: pages_of_def PGROUNDUP_def upt_rec)

theorem kinit_pages_witness:
  "\<exists>t. kthen (kinit1 (KERNBASE + 8000) (KERNBASE + 16384)) (kinit2 (KERNBASE + 16384) (KERNBASE + 24576)) boot_kmem = Ok () t \<and>
    free_pages t [KERNBASE + 20480, KERNBASE + 16384, KERNBASE + 12288, KERNBASE + 8192]"
  using kinit_pages [of boot_kmem "KERNBASE + 8000" "KERNBASE + 16384" "KERNBASE + 24576", unfolded boot_kmem_pages]
  by (simp add: boot_kmem_def) blast

theorem kalloc_refines_stack_witness:
  "\<exists>t. page_run kalloc kfree [PgFree (KERNBASE + 8192), PgFree (KERNBASE + 12288), PgAlloc, PgAlloc, PgAlloc] boot_kmem =
      Ok [KERNBASE + 12288, KERNBASE + 8192, 0] t \<and> free_pages t []"
  using kalloc_refines_stack [of boot_kmem "[]"
      "[PgFree (KERNBASE + 8192), PgFree (KERNBASE + 12288), PgAlloc, PgAlloc, PgAlloc]"]
  by (simp add: boot_kmem_def free_pages_def kmem_ready_def kpage_def v2p_high)

end
