(* ===== verification/Vm.thy ===== *)
theory Vm
  imports Kalloc
begin

text \<open>
  Page tables and address spaces, \<^verbatim>\<open>src/vm.c\<close>.  A page directory and a page table are pages of
  kernel memory holding 1024 little-endian entries; a \<open>pte_t*\<close> is the page table and the index.
  The operations run on any state that extends the allocator's.
\<close>

section \<open>Operations\<close>

definition get_pte :: "'z kmem_scheme \<Rightarrow> nat \<times> nat \<Rightarrow> nat" where
  "get_pte s e = rd32 (mem s (fst e)) (4 * snd e)"

definition set_pte :: "nat \<times> nat \<Rightarrow> nat \<Rightarrow> 'z kmem_scheme \<Rightarrow> 'z kmem_scheme" where
  "set_pte e v s = s\<lparr>mem := (mem s)(fst e := wr32 (mem s (fst e)) (4 * snd e) v)\<rparr>"

definition walkpgdir :: "nat \<Rightarrow> nat \<Rightarrow> bool \<Rightarrow> ((nat \<times> nat) option, 'z kmem_scheme) kop" where
  "walkpgdir pgdir va alloc =
     kbind (kget (\<lambda>s. get_pte s (pgdir, PDX va))) (\<lambda>pde.
     if pte_present pde then kret (Some (p2v (PTE_ADDR pde), PTX va))
     else if \<not> alloc then kret None
     else kbind kalloc (\<lambda>pgtab.
       if pgtab = 0 then kret None
       else kthen (kmod (mem_fill pgtab 0))
           (kthen (kmod (set_pte (pgdir, PDX va) (v2p pgtab OR PTE_P OR PTE_W OR PTE_U)))
                  (kret (Some (pgtab, PTX va))))))"

text \<open>
  The loop of \<open>mappages\<close> visits a page per round and compares with the last one.  The first
  argument bounds the rounds by the number of pages in the address space.
\<close>

fun mappages_loop :: "nat \<Rightarrow> nat \<Rightarrow> nat \<Rightarrow> nat \<Rightarrow> nat \<Rightarrow> nat \<Rightarrow> (int, 'z kmem_scheme) kop" where
  "mappages_loop 0 pgdir a lst pa perm = kpanic ''mappages: rounds''"
| "mappages_loop (Suc n) pgdir a lst pa perm =
     kbind (walkpgdir pgdir a True) (\<lambda>r.
     case r of None \<Rightarrow> kret (-1)
     | Some pte \<Rightarrow>
         kthen (kassert (\<lambda>s. \<not> pte_present (get_pte s pte)) ''remap'')
        (kthen (kmod (set_pte pte (pa OR perm OR PTE_P)))
               (if a = lst then kret 0
                else mappages_loop n pgdir ((a + PGSIZE) mod W32) lst ((pa + PGSIZE) mod W32) perm)))"

definition mappages :: "nat \<Rightarrow> nat \<Rightarrow> nat \<Rightarrow> nat \<Rightarrow> nat \<Rightarrow> (int, 'z kmem_scheme) kop" where
  "mappages pgdir va sz pa perm =
     mappages_loop 1048576 pgdir (PGROUNDDOWN va) (PGROUNDDOWN ((va + sz + (W32 - 1)) mod W32)) pa perm"

text \<open>The kernel's mappings, \<open>kmap\<close>: virtual address, physical range, permissions.\<close>

definition kmap :: "nat \<Rightarrow> (nat \<times> nat \<times> nat \<times> nat) list" where
  "kmap data =
     [(KERNBASE, 0, EXTMEM, PTE_W), (KERNLINK, v2p KERNLINK, v2p data, 0),
      (data, v2p data, PHYSTOP, PTE_W), (DEVSPACE, DEVSPACE, 0, PTE_W)]"

fun setupkvm_loop :: "(nat \<times> nat \<times> nat \<times> nat) list \<Rightarrow> nat \<Rightarrow> (nat, 'z kmem_scheme) kop" where
  "setupkvm_loop [] pgdir = kret pgdir"
| "setupkvm_loop ((virt, ps, pe, perm) # ks) pgdir =
     kbind (mappages pgdir virt (sub32 pe ps) ps perm) (\<lambda>r.
     if r < 0 then kret 0 else setupkvm_loop ks pgdir)"

definition setupkvm :: "(nat, 'z kmem_scheme) kop" where
  "setupkvm =
     kbind kalloc (\<lambda>pgdir.
     if pgdir = 0 then kret 0
     else kthen (kmod (mem_fill pgdir 0))
         (kthen (kassert (\<lambda>_. p2v PHYSTOP \<le> DEVSPACE) ''PHYSTOP too high'')
         (kbind (kget kdata) (\<lambda>data. setupkvm_loop (kmap data) pgdir))))"

definition kvmalloc :: "(unit, 'z kmem_scheme) kop" where
  "kvmalloc = kbind setupkvm (\<lambda>d. kthen (kmod (\<lambda>s. s\<lparr>kpgdir := d\<rparr>)) switchkvm)"

definition inituvm :: "nat \<Rightarrow> u8 list \<Rightarrow> (unit, 'z kmem_scheme) kop" where
  "inituvm pgdir init =
     kthen (kassert (\<lambda>_. length init < PGSIZE) ''inituvm: more than a page'')
    (kbind kalloc (\<lambda>mm.
     kthen (kmod (mem_fill mm 0))
    (kthen (mappages pgdir 0 PGSIZE (v2p mm) (PTE_W OR PTE_U))
           (kmod (\<lambda>s. s\<lparr>mem := (mem s)(mm := blit (mem s mm) 0 init)\<rparr>)))))"

text \<open>
  \<open>a\<close> does not wrap: no caller passes a size above \<open>KERNBASE\<close>.
\<close>

function deallocuvm_loop :: "nat \<Rightarrow> nat \<Rightarrow> nat \<Rightarrow> (unit, 'z kmem_scheme) kop" where
  "deallocuvm_loop pgdir a oldsz =
     (if a < oldsz
      then kbind (walkpgdir pgdir a False) (\<lambda>r.
        case r of None \<Rightarrow> deallocuvm_loop pgdir (a + (NPTENTRIES - 1) * PGSIZE + PGSIZE) oldsz
        | Some pte \<Rightarrow>
            kbind (kget (\<lambda>s. get_pte s pte)) (\<lambda>v.
            kthen (if pte_present v
                   then kthen (kassert (\<lambda>_. PTE_ADDR v \<noteq> 0) ''kfree'')
                       (kthen (kfree (p2v (PTE_ADDR v)))
                              (kmod (set_pte pte 0)))
                   else kret ())
                  (deallocuvm_loop pgdir (a + PGSIZE) oldsz)))
      else kret ())"
  by pat_completeness auto
termination
  by (relation "measure (\<lambda>(_, a, oldsz). oldsz - a)") auto

declare deallocuvm_loop.simps [simp del]

definition deallocuvm :: "nat \<Rightarrow> nat \<Rightarrow> nat \<Rightarrow> (nat, 'z kmem_scheme) kop" where
  "deallocuvm pgdir oldsz newsz =
     (if newsz \<ge> oldsz then kret oldsz
      else kthen (deallocuvm_loop pgdir (PGROUNDUP newsz) oldsz) (kret newsz))"

function allocuvm_loop :: "nat \<Rightarrow> nat \<Rightarrow> nat \<Rightarrow> nat \<Rightarrow> (nat, 'z kmem_scheme) kop" where
  "allocuvm_loop pgdir a oldsz newsz =
     (if a < newsz
      then kbind kalloc (\<lambda>mm.
        if mm = 0 then kthen (deallocuvm pgdir newsz oldsz) (kret 0)
        else kthen (kmod (mem_fill mm 0))
            (kthen (mappages pgdir a PGSIZE (v2p mm) (PTE_W OR PTE_U))
                   (allocuvm_loop pgdir (a + PGSIZE) oldsz newsz)))
      else kret newsz)"
  by pat_completeness auto
termination
  by (relation "measure (\<lambda>(_, a, _, newsz). newsz - a)") auto

declare allocuvm_loop.simps [simp del]

definition allocuvm :: "nat \<Rightarrow> nat \<Rightarrow> nat \<Rightarrow> (nat, 'z kmem_scheme) kop" where
  "allocuvm pgdir oldsz newsz =
     (if newsz \<ge> KERNBASE then kret 0
      else if newsz < oldsz then kret oldsz
      else allocuvm_loop pgdir (PGROUNDUP oldsz) oldsz newsz)"

definition free_table :: "nat \<Rightarrow> nat \<Rightarrow> (unit, 'z kmem_scheme) kop" where
  "free_table pgdir i =
     kbind (kget (\<lambda>s. get_pte s (pgdir, i))) (\<lambda>pde.
     if pte_present pde then kfree (p2v (PTE_ADDR pde)) else kret ())"

definition freevm :: "nat \<Rightarrow> (unit, 'z kmem_scheme) kop" where
  "freevm pgdir =
     kthen (kassert (\<lambda>_. pgdir \<noteq> 0) ''freevm: no pgdir'')
    (kthen (deallocuvm pgdir KERNBASE 0)
    (kthen (kfor [0..<NPDENTRIES] (free_table pgdir))
           (kfree pgdir)))"

definition clearpteu :: "nat \<Rightarrow> nat \<Rightarrow> (unit, 'z kmem_scheme) kop" where
  "clearpteu pgdir uva =
     kbind (walkpgdir pgdir uva False) (\<lambda>r.
     case r of None \<Rightarrow> kpanic ''clearpteu''
     | Some pte \<Rightarrow> kmod (\<lambda>s. set_pte pte (unset_bit 2 (get_pte s pte)) s))"

function copyuvm_loop :: "nat \<Rightarrow> nat \<Rightarrow> nat \<Rightarrow> nat \<Rightarrow> (nat, 'z kmem_scheme) kop" where
  "copyuvm_loop pgdir d i sz =
     (if i < sz
      then kbind (walkpgdir pgdir i False) (\<lambda>r.
        case r of None \<Rightarrow> kpanic ''copyuvm: pte should exist''
        | Some pte \<Rightarrow>
            kbind (kget (\<lambda>s. get_pte s pte)) (\<lambda>v.
            kthen (kassert (\<lambda>_. pte_present v) ''copyuvm: page not present'')
           (kbind kalloc (\<lambda>mm.
            if mm = 0 then kthen (freevm d) (kret 0)
            else kthen (kmod (\<lambda>s. s\<lparr>mem := (mem s)(mm := mem s (p2v (PTE_ADDR v)))\<rparr>))
                (kbind (mappages d i PGSIZE (v2p mm) (PTE_FLAGS v)) (\<lambda>r.
                 if r < 0 then kthen (freevm d) (kret 0)
                 else copyuvm_loop pgdir d (i + PGSIZE) sz))))))
      else kret d)"
  by pat_completeness auto
termination
  by (relation "measure (\<lambda>(_, _, i, sz). sz - i)") auto

declare copyuvm_loop.simps [simp del]

definition copyuvm :: "nat \<Rightarrow> nat \<Rightarrow> (nat, 'z kmem_scheme) kop" where
  "copyuvm pgdir sz = kbind setupkvm (\<lambda>d. if d = 0 then kret 0 else copyuvm_loop pgdir d 0 sz)"

text \<open>
  \<open>uva2ka\<close> reads \<open>*pte\<close> without testing \<open>pte\<close>: where no page table covers the address that is a read
  through the null pointer, here a stop.
\<close>

definition uva2ka :: "nat \<Rightarrow> nat \<Rightarrow> (nat, 'z kmem_scheme) kop" where
  "uva2ka pgdir uva =
     kbind (walkpgdir pgdir uva False) (\<lambda>r.
     case r of None \<Rightarrow> kpanic ''uva2ka: null pte''
     | Some pte \<Rightarrow> kbind (kget (\<lambda>s. get_pte s pte)) (\<lambda>v.
         if \<not> pte_present v then kret 0
         else if \<not> bit v 2 then kret 0
         else kret (p2v (PTE_ADDR v))))"

function copyout :: "nat \<Rightarrow> nat \<Rightarrow> u8 list \<Rightarrow> (int, 'z kmem_scheme) kop" where
  "copyout pgdir va p =
     (if p \<noteq> [] then
        let va0 = PGROUNDDOWN va;
            n = min (PGSIZE - (va - va0)) (length p)
        in kbind (uva2ka pgdir va0) (\<lambda>pa0.
           if pa0 = 0 then kret (-1)
           else kthen (kmod (\<lambda>s. s\<lparr>mem := (mem s)(pa0 := blit (mem s pa0) (va - va0) (take n p))\<rparr>))
                      (copyout pgdir ((va0 + PGSIZE) mod W32) (drop n p)))
      else kret 0)"
  by pat_completeness auto
termination
proof (relation "measure (\<lambda>(_, _, p). length p)", goal_cases)
  case (2 pgdir va p)
  have "va - PGROUNDDOWN va < PGSIZE" by (simp add: PGROUNDDOWN_def)
  with 2 show ?case by auto
qed simp

declare copyout.simps [simp del]

end
