(* ===== verification/AddrSpace.thy ===== *)
theory AddrSpace
  imports Vm
begin

text \<open>
  Address spaces: what the operations of \<^verbatim>\<open>src/vm.c\<close> do, seen through the translation of virtual
  addresses that the page tables in memory define.
\<close>

section \<open>The translation a page directory defines\<close>

definition pde_of :: "(nat \<Rightarrow> bytes) \<Rightarrow> nat \<Rightarrow> nat \<Rightarrow> nat" where
  "pde_of m d i = rd32 (m d) (4 * i)"

definition tbl :: "(nat \<Rightarrow> bytes) \<Rightarrow> nat \<Rightarrow> nat \<Rightarrow> nat" where
  "tbl m d i = p2v (PTE_ADDR (pde_of m d i))"

text \<open>The entry the hardware finds for an address; 0 where there is no page table.\<close>

definition pte_of :: "(nat \<Rightarrow> bytes) \<Rightarrow> nat \<Rightarrow> nat \<Rightarrow> nat" where
  "pte_of m d va =
     (if pte_present (pde_of m d (PDX va)) then rd32 (m (tbl m d (PDX va))) (4 * PTX va) else 0)"

definition pt_pages :: "(nat \<Rightarrow> bytes) \<Rightarrow> nat \<Rightarrow> nat set" where
  "pt_pages m d = insert d {tbl m d i | i. i < NPDENTRIES \<and> pte_present (pde_of m d i)}"

text \<open>No page table is the directory itself or serves two directory entries.\<close>

definition pgdir_ok :: "(nat \<Rightarrow> bytes) \<Rightarrow> nat \<Rightarrow> bool" where
  "pgdir_ok m d \<longleftrightarrow>
     (\<forall>i<NPDENTRIES. pte_present (pde_of m d i) \<longrightarrow> tbl m d i \<noteq> d) \<and>
     (\<forall>i<NPDENTRIES. \<forall>j<NPDENTRIES. pte_present (pde_of m d i) \<and> pte_present (pde_of m d j) \<and>
        tbl m d i = tbl m d j \<longrightarrow> i = j)"

definition vm_inv :: "'z kmem_scheme \<Rightarrow> nat \<Rightarrow> nat list \<Rightarrow> bool" where
  "vm_inv s d F \<longleftrightarrow> free_pages s F \<and> kmem_ready s \<and> pgdir_ok (mem s) d \<and> pt_pages (mem s) d \<inter> set F = {}"

text \<open>
  An operation on the tables of \<open>d\<close> went from \<open>s\<close> to \<open>t\<close>: it took pages off the free list, used
  some of them as tables, and changed no page that is not a table of \<open>d\<close> now.
\<close>

definition vm_step :: "'z kmem_scheme \<Rightarrow> 'z kmem_scheme \<Rightarrow> nat \<Rightarrow> nat list \<Rightarrow> nat list \<Rightarrow> bool" where
  "vm_step s t d F F' \<longleftrightarrow> vm_inv t d F' \<and> kmem_frame s t \<and> (\<exists>pre. F = pre @ F') \<and>
     pt_pages (mem s) d \<subseteq> pt_pages (mem t) d \<and>
     pt_pages (mem t) d \<subseteq> pt_pages (mem s) d \<union> (set F - set F') \<and> set F \<subseteq> set F' \<union> pt_pages (mem t) d \<and>
     (\<forall>u. u \<notin> pt_pages (mem t) d \<longrightarrow> mem t u = mem s u)"

lemma kmem_frame_mem [intro]: "kmem_frame s t \<Longrightarrow> kmem_frame s (t\<lparr>mem := m\<rparr>)"
  unfolding kmem_frame_def by (elim exE, intro exI) (cases s, simp)

lemma vm_step_refl: "vm_inv s d F \<Longrightarrow> vm_step s s d F F"
  by (simp add: vm_step_def)

lemma vm_step_trans:
  assumes "vm_step s t d F F'" "vm_step t u d F' F''"
  shows "vm_step s u d F F''"
  using assms kmem_frame_trans [of s t u] unfolding vm_step_def
  by (auto simp: subset_iff)

lemma tbl_in_pt_pages [intro]:
  "pte_present (pde_of m d i) \<Longrightarrow> i < NPDENTRIES \<Longrightarrow> tbl m d i \<in> pt_pages m d"
  by (auto simp: pt_pages_def)

text \<open>The translation depends on the pages of the tables only.\<close>

lemma pt_cong:
  assumes "\<And>u. u \<in> pt_pages m d \<Longrightarrow> m' u = m u"
  shows "pde_of m' d = pde_of m d" "tbl m' d = tbl m d" "pte_of m' d = pte_of m d"
    "pt_pages m' d = pt_pages m d" "pgdir_ok m' d = pgdir_ok m d"
proof -
  show *: "pde_of m' d = pde_of m d"
    using assms [of d] by (auto simp: pde_of_def pt_pages_def)
  then show **: "tbl m' d = tbl m d" by (simp add: tbl_def fun_eq_iff)
  show "pte_of m' d = pte_of m d"
    using assms * ** by (intro ext) (simp add: pte_of_def tbl_in_pt_pages)
  show "pt_pages m' d = pt_pages m d" using * ** by (simp add: pt_pages_def)
  show "pgdir_ok m' d = pgdir_ok m d" using * ** by (simp add: pgdir_ok_def)
qed

section \<open>Walking and setting entries\<close>

lemma walkpgdir_present:
  "pte_present (pde_of (mem s) d (PDX va)) \<Longrightarrow>
    walkpgdir d va al s = Ok (Some (tbl (mem s) d (PDX va), PTX va)) s"
  by (simp add: walkpgdir_def kop_simps get_pte_def pde_of_def tbl_def)

lemma walkpgdir_absent:
  "\<not> pte_present (pde_of (mem s) d (PDX va)) \<Longrightarrow> walkpgdir d va False s = Ok None s"
  by (simp add: walkpgdir_def kop_simps get_pte_def pde_of_def)

lemma get_pte_tbl:
  "pte_present (pde_of (mem s) d (PDX va)) \<Longrightarrow>
    get_pte s (tbl (mem s) d (PDX va), PTX va) = pte_of (mem s) d va"
  by (simp add: get_pte_def pte_of_def)

text \<open>The directory after a fresh zero page was entered for index \<open>i\<close>.\<close>

lemma pt_new_table:
  assumes "pgdir_ok m d" "q \<notin> pt_pages m d" "i < NPDENTRIES" "\<not> pte_present (pde_of m d i)"
    "q mod PGSIZE = 0" "q < W32"
    and m': "m' = m(q := (\<lambda>_. 0), d := wr32 (m d) (4 * i) (v2p q OR 7))"
  shows "pde_of m' d = (pde_of m d)(i := v2p q OR 7)" "tbl m' d = (tbl m d)(i := q)"
    "pte_of m' d = pte_of m d" "pt_pages m' d = insert q (pt_pages m d)" "pgdir_ok m' d"
proof -
  have qd: "q \<noteq> d" using assms(2) by (auto simp: pt_pages_def)
  then have m'q: "m' q = (\<lambda>_. 0)" and m'u: "\<And>u. u \<noteq> q \<Longrightarrow> u \<noteq> d \<Longrightarrow> m' u = m u"
    by (simp_all add: m')
  have lt: "v2p q OR 7 < W32" by (simp add: or_less_W32)
  show pde: "pde_of m' d = (pde_of m d)(i := v2p q OR 7)"
  proof
    fix j
    have "j < i \<or> i < j \<or> j = i" by linarith
    then show "pde_of m' d j = ((pde_of m d)(i := v2p q OR 7)) j"
      using m' qd lt by (auto simp: pde_of_def)
  qed
  show tb: "tbl m' d = (tbl m d)(i := q)"
    using assms(5,6) by (simp add: tbl_def fun_eq_iff pde)
  have ne: "pte_present (pde_of m d j) \<Longrightarrow> j < NPDENTRIES \<Longrightarrow> tbl m d j \<noteq> q \<and> tbl m d j \<noteq> d" for j
    using assms(1,2) by (auto simp: pgdir_ok_def)
  show "pte_of m' d = pte_of m d"
  proof
    fix va
    show "pte_of m' d va = pte_of m d va"
    proof (cases "PDX va = i")
      case True
      with assms(4) m'q show ?thesis by (simp add: pte_of_def pde tb rd32_def)
    next
      case False
      with ne [of "PDX va"] m'u show ?thesis by (simp add: pte_of_def pde tb)
    qed
  qed
  show "pt_pages m' d = insert q (pt_pages m d)"
    using assms(3,4) by (auto simp: pt_pages_def pde tb)
  show "pgdir_ok m' d"
    using assms(1,4) qd ne by (auto simp: pgdir_ok_def pde tb)
qed

text \<open>
  \<open>walkpgdir\<close> with allocation: it fails only on an empty free list; otherwise it returns the slot
  of the address, and the translation of every address is what it was.
\<close>

lemma walkpgdir_alloc:
  assumes "vm_inv s d F"
  shows "(F = [] \<and> walkpgdir d va True s = Ok None s) \<or>
    (\<exists>t F'. walkpgdir d va True s = Ok (Some (tbl (mem t) d (PDX va), PTX va)) t \<and>
       pte_present (pde_of (mem t) d (PDX va)) \<and> vm_step s t d F F' \<and> pte_of (mem t) d = pte_of (mem s) d)"
proof (cases "pte_present (pde_of (mem s) d (PDX va))")
  case True
  with assms show ?thesis
    using walkpgdir_present [OF True] vm_step_refl [OF assms] by blast
next
  case absent: False
  from assms have fp: "free_pages s F" "kmem_ready s" by (auto simp: vm_inv_def)
  show ?thesis
  proof (cases F)
    case Nil
    with fp have f0: "freelist s = 0" by (simp add: free_pages_def)
    then have "s\<lparr>freelist := 0\<rparr> = s" by (cases s) simp
    with absent fp f0 have "walkpgdir d va True s = Ok None s"
      by (simp add: walkpgdir_def kop_simps get_pte_def pde_of_def)
    with Nil show ?thesis by simp
  next
    case (Cons q F')
    obtain u where u: "kalloc s = Ok q u" "free_pages u F'" "mem u = mem s" "kmem_frame s u"
      using kalloc_pops [OF fp] Cons by auto
    have q: "q \<noteq> 0" "kpage s q" "q \<notin> set F'" "q \<notin> pt_pages (mem s) d"
      using assms Cons free_pages_ok [OF fp(1)] by (auto simp: vm_inv_def)
    define m where "m = (mem s)(q := (\<lambda>_. 0), d := wr32 (mem s d) (4 * PDX va) (v2p q OR 7))"
    have qd: "q \<noteq> d" using q(4) by (auto simp: pt_pages_def)
    have "pgdir_ok (mem s) d" using assms by (simp add: vm_inv_def)
    note pt = pt_new_table [OF this q(4) PDX_less absent _ _ m_def]
    have pt: "pde_of m d = (pde_of (mem s) d)(PDX va := v2p q OR 7)" "tbl m d = (tbl (mem s) d)(PDX va := q)"
        "pte_of m d = pte_of (mem s) d" "pt_pages m d = insert q (pt_pages (mem s) d)" "pgdir_ok m d"
      using pt q(2) by (simp_all add: kpage_def)
    let ?t = "u\<lparr>mem := m\<rparr>"
    have run: "walkpgdir d va True s = Ok (Some (q, PTX va)) ?t"
      using absent u q(1) qd
      by (simp add: walkpgdir_def get_pte_def pde_of_def kop_simps set_pte_def m_def del: run_kalloc)
    have fr: "kmem_frame s ?t"
      using u(4) by (rule kmem_frame_mem)
    have "\<forall>v\<in>set F'. m v = mem s v"
      using assms q(3) Cons by (auto simp: m_def vm_inv_def pt_pages_def)
    then have "free_pages ?t F'"
      using u(2,3) by (simp add: free_pages_def kpage_def chain_cong [of F' m "mem s"])
    moreover have "kmem_ready ?t" using fr fp by (simp add: kmem_frame_eqs)
    moreover have "pt_pages m d \<inter> set F' = {}" using assms Cons q(3) by (auto simp: pt vm_inv_def)
    ultimately have "vm_inv ?t d F'" using pt by (simp add: vm_inv_def)
    then have "vm_step s ?t d F F'"
      using fr Cons q(3) pt(4) by (auto simp: vm_step_def m_def pt_pages_def)
    with run pt show ?thesis by (intro disjI2 exI [of _ ?t] exI [of _ F']) simp
  qed
qed

lemma set_pte_table:
  assumes inv: "vm_inv s d F" and present: "pte_present (pde_of (mem s) d (PDX va))" and v: "v < W32"
  shows "vm_step s (set_pte (tbl (mem s) d (PDX va), PTX va) v s) d F F"
    and "pte_of (mem (set_pte (tbl (mem s) d (PDX va), PTX va) v s)) d =
      (\<lambda>wa. if PDX wa = PDX va \<and> PTX wa = PTX va then v else pte_of (mem s) d wa)"
proof -
  let ?q = "tbl (mem s) d (PDX va)"
  let ?t = "set_pte (?q, PTX va) v s"
  let ?m = "(mem s)(?q := wr32 (mem s ?q) (4 * PTX va) v)"
  have mt: "mem ?t = ?m" by (simp add: set_pte_def)
  from inv have ok: "pgdir_ok (mem s) d" by (simp add: vm_inv_def)
  with present have qd: "?q \<noteq> d" by (simp add: pgdir_ok_def)
  have pde: "pde_of ?m d = pde_of (mem s) d" using qd by (simp add: pde_of_def fun_eq_iff)
  then have tb: "tbl ?m d = tbl (mem s) d" by (simp add: tbl_def fun_eq_iff)
  have pp: "pt_pages ?m d = pt_pages (mem s) d" by (simp add: pt_pages_def pde tb)
  have qin: "?q \<in> pt_pages (mem s) d" using present by (simp add: tbl_in_pt_pages)
  have other: "pte_present (pde_of (mem s) d (PDX wa)) \<Longrightarrow> PDX wa \<noteq> PDX va \<Longrightarrow> tbl (mem s) d (PDX wa) \<noteq> ?q" for wa
    using ok present by (auto simp: pgdir_ok_def)
  show "pte_of (mem ?t) d = (\<lambda>wa. if PDX wa = PDX va \<and> PTX wa = PTX va then v else pte_of (mem s) d wa)"
  proof
    fix wa
    have "PTX va < PTX wa \<or> PTX wa < PTX va \<or> PTX wa = PTX va" by linarith
    then show "pte_of (mem ?t) d wa = (if PDX wa = PDX va \<and> PTX wa = PTX va then v else pte_of (mem s) d wa)"
      using other [of wa] present v by (cases "PDX wa = PDX va") (auto simp: pte_of_def pde tb mt)
  qed
  have fr: "kmem_frame s ?t" unfolding set_pte_def by (rule kmem_frame_mem) simp
  have "?q \<notin> set F" using qin inv by (auto simp: vm_inv_def)
  then have "free_pages ?t F"
    using inv by (simp add: vm_inv_def free_pages_def kpage_def set_pte_def)
  moreover have "kmem_ready ?t" using inv fr by (simp add: vm_inv_def kmem_frame_eqs)
  moreover have "pgdir_ok ?m d" using ok by (simp add: pgdir_ok_def pde tb)
  ultimately have "vm_inv ?t d F" using inv by (simp add: vm_inv_def mt pp)
  then show "vm_step s ?t d F F" using fr qin by (auto simp: vm_step_def mt pp)
qed

section \<open>Mapping ranges\<close>

text \<open>The pages \<open>[a, a + n * PGSIZE)\<close>, and the translation with them mapped to \<open>pa\<close> onwards.\<close>

definition in_pages :: "nat \<Rightarrow> nat \<Rightarrow> nat \<Rightarrow> bool" where
  "in_pages a n va \<longleftrightarrow> a div PGSIZE \<le> va div PGSIZE \<and> va div PGSIZE < a div PGSIZE + n"

definition map_range :: "(nat \<Rightarrow> nat) \<Rightarrow> nat \<Rightarrow> nat \<Rightarrow> nat \<Rightarrow> nat \<Rightarrow> nat \<Rightarrow> nat" where
  "map_range f a n pa perm va =
     (if in_pages a n va then (pa + (va div PGSIZE - a div PGSIZE) * PGSIZE) OR perm OR PTE_P else f va)"

lemma in_pages_Suc:
  "in_pages a (Suc n) va \<longleftrightarrow> va div PGSIZE = a div PGSIZE \<or> in_pages (a + PGSIZE) n va"
  unfolding in_pages_def by (auto simp: div_add_self2)

lemma in_pages_next: "in_pages (a + PGSIZE) n va \<Longrightarrow> va div PGSIZE \<noteq> a div PGSIZE"
  unfolding in_pages_def by (auto simp: div_add_self2)

lemma map_range_Suc:
  "map_range f a (Suc n) pa perm va =
     (if va div PGSIZE = a div PGSIZE then pa OR perm OR PTE_P else map_range f (a + PGSIZE) n (pa + PGSIZE) perm va)"
proof (cases "in_pages (a + PGSIZE) n va")
  case True
  then have "va div PGSIZE - a div PGSIZE = Suc (va div PGSIZE - (a + PGSIZE) div PGSIZE)"
    by (simp add: in_pages_def div_add_self2 Suc_diff_Suc less_eq_Suc_le)
  with True in_pages_next [OF True] show ?thesis
    by (simp add: map_range_def in_pages_Suc algebra_simps)
next
  case False
  then show ?thesis by (auto simp: map_range_def in_pages_Suc)
qed

text \<open>One round: the slot of the page is found and filled.\<close>

lemma map_one:
  assumes inv: "vm_inv s d F" and va: "va < W32" "\<not> pte_present (pte_of (mem s) d va)" and v: "v < W32"
  shows "(F = [] \<and> walkpgdir d va True s = Ok None s) \<or>
    (\<exists>pte t u F'. walkpgdir d va True s = Ok (Some pte) t \<and> \<not> pte_present (get_pte t pte) \<and>
       u = set_pte pte v t \<and> vm_step s u d F F' \<and>
       (\<forall>wa<W32. pte_of (mem u) d wa = (if wa div PGSIZE = va div PGSIZE then v else pte_of (mem s) d wa)))"
  using walkpgdir_alloc [OF inv, of va]
proof (elim disjE exE conjE)
  fix t F'
  assume w: "walkpgdir d va True s = Ok (Some (tbl (mem t) d (PDX va), PTX va)) t"
    and p: "pte_present (pde_of (mem t) d (PDX va))" and st: "vm_step s t d F F'"
    and eq: "pte_of (mem t) d = pte_of (mem s) d"
  let ?pte = "(tbl (mem t) d (PDX va), PTX va)"
  let ?u = "set_pte ?pte v t"
  from st have inv': "vm_inv t d F'" by (simp add: vm_step_def)
  have "vm_step s ?u d F F'" by (rule vm_step_trans [OF st set_pte_table(1) [OF inv' p v]])
  moreover have "\<forall>wa<W32. pte_of (mem ?u) d wa = (if wa div PGSIZE = va div PGSIZE then v else pte_of (mem s) d wa)"
    unfolding set_pte_table(2) [OF inv' p v] eq using va(1) PDX_PTX_inj [of _ va] PDX_PTX_cong [of _ va] by metis
  ultimately show ?thesis
    using w va(2) get_pte_tbl [OF p] eq by (intro disjI2 exI [of _ ?pte] exI [of _ t] exI [of _ ?u] exI [of _ F']) simp
qed simp

definition map_outcome :: "'z kmem_scheme \<Rightarrow> 'z kmem_scheme \<Rightarrow> nat \<Rightarrow> nat list \<Rightarrow> nat list \<Rightarrow> int \<Rightarrow>
    nat \<Rightarrow> nat \<Rightarrow> nat \<Rightarrow> nat \<Rightarrow> bool" where
  "map_outcome s t d F F' r a n pa perm \<longleftrightarrow> vm_step s t d F F' \<and>
     (r = 0 \<and> (\<forall>va<W32. pte_of (mem t) d va = map_range (pte_of (mem s) d) a n pa perm va) \<or>
      r = -1 \<and> F' = [] \<and> (\<forall>va<W32. \<not> in_pages a n va \<longrightarrow> pte_of (mem t) d va = pte_of (mem s) d va))"

lemma mappages_loop_spec:
  assumes "vm_inv s d F" "a mod PGSIZE = 0" "a + Suc n * PGSIZE \<le> W32" "pa + Suc n * PGSIZE \<le> W32"
    "perm < 4096" "n < fuel" "\<forall>va<W32. in_pages a (Suc n) va \<longrightarrow> \<not> pte_present (pte_of (mem s) d va)"
  shows "\<exists>r t F'. mappages_loop fuel d a (a + n * PGSIZE) pa perm s = Ok r t \<and>
    map_outcome s t d F F' r a (Suc n) pa perm"
  using assms
proof (induction n arbitrary: s a pa F fuel)
  case 0
  then obtain f where f: "fuel = Suc f" by (cases fuel) auto
  have v: "pa OR perm OR PTE_P < W32" using 0 by (intro or_less_W32) auto
  have a: "a < W32" "\<not> pte_present (pte_of (mem s) d a)" using 0 by (auto simp: in_pages_def)
  show ?case
    using map_one [OF "0.prems"(1) a v]
  proof (elim disjE exE conjE)
    fix pte t u F'
    assume "walkpgdir d a True s = Ok (Some pte) t" "\<not> pte_present (get_pte t pte)"
      "u = set_pte pte (pa OR perm OR PTE_P) t" "vm_step s u d F F'"
      "\<forall>wa<W32. pte_of (mem u) d wa = (if wa div PGSIZE = a div PGSIZE then pa OR perm OR PTE_P else pte_of (mem s) d wa)"
    then show ?thesis
      by (intro exI [of _ 0] exI [of _ u] exI [of _ F'])
        (simp add: f kop_simps map_outcome_def map_range_Suc map_range_def in_pages_def)
  qed (use vm_step_refl [OF "0.prems"(1)] in \<open>simp add: f kop_simps map_outcome_def\<close>)
next
  case (Suc n)
  then obtain f where f: "fuel = Suc f" by (cases fuel) auto
  have v: "pa OR perm OR PTE_P < W32" using Suc.prems by (intro or_less_W32) auto
  have a: "a < W32" "\<not> pte_present (pte_of (mem s) d a)" using Suc.prems by (auto simp: in_pages_def)
  show ?case
    using map_one [OF Suc.prems(1) a v]
  proof (elim disjE exE conjE)
    fix pte t u F'
    assume w: "walkpgdir d a True s = Ok (Some pte) t" "\<not> pte_present (get_pte t pte)"
      "u = set_pte pte (pa OR perm OR PTE_P) t" and st: "vm_step s u d F F'"
      and tr: "\<forall>wa<W32. pte_of (mem u) d wa = (if wa div PGSIZE = a div PGSIZE then pa OR perm OR PTE_P else pte_of (mem s) d wa)"
    have "\<forall>va<W32. in_pages (a + PGSIZE) (Suc n) va \<longrightarrow> \<not> pte_present (pte_of (mem u) d va)"
      using Suc.prems(7) tr in_pages_next by (metis in_pages_Suc)
    moreover have "vm_inv u d F'" using st by (simp add: vm_step_def)
    ultimately obtain r t' F'' where r: "mappages_loop f d (a + PGSIZE) (a + PGSIZE + n * PGSIZE) (pa + PGSIZE) perm u = Ok r t'"
        "map_outcome u t' d F' F'' r (a + PGSIZE) (Suc n) (pa + PGSIZE) perm"
      using Suc.IH [of u F' "a + PGSIZE" "pa + PGSIZE" f] Suc.prems f by auto
    have "map_outcome s t' d F F'' r a (Suc (Suc n)) pa perm"
      using r(2) vm_step_trans [OF st] tr in_pages_Suc [of a "Suc n"]
      by (auto simp: map_outcome_def map_range_Suc [of _ a "Suc n"] map_range_def [of _ "a + PGSIZE"] dest: in_pages_next)
    then show ?thesis
      using w r(1) Suc.prems f
      by (intro exI [of _ r] exI [of _ t'] exI [of _ F'']) (simp add: kop_simps algebra_simps)
  qed (use vm_step_refl [OF Suc.prems(1)] in \<open>simp add: f kop_simps map_outcome_def\<close>)
qed

lemma mappages_spec:
  assumes "vm_inv s d F" "va mod PGSIZE = 0" "sz = Suc n * PGSIZE" "va + sz \<le> W32" "pa + sz \<le> W32"
    "perm < 4096" "\<forall>wa<W32. in_pages va (Suc n) wa \<longrightarrow> \<not> pte_present (pte_of (mem s) d wa)"
  shows "\<exists>r t F'. mappages d va sz pa perm s = Ok r t \<and> map_outcome s t d F F' r va (Suc n) pa perm"
proof -
  have "(va + sz + (W32 - 1)) mod W32 = va + sz - 1"
    using assms(3,4) by (simp add: mod_if)
  moreover have "PGROUNDDOWN (va + sz - 1) = va + n * PGSIZE"
  proof -
    obtain k where k: "va = PGSIZE * k" using assms(2) by auto
    then have "va + sz - 1 = 4095 + PGSIZE * (k + n)" using assms(3) by simp
    also have "\<dots> div PGSIZE = k + n" by (subst div_mult_self2) simp_all
    finally show ?thesis unfolding PGROUNDDOWN_div using k by simp
  qed
  moreover have "PGROUNDDOWN va = va" using assms(2) by (simp add: PGROUNDDOWN_def)
  moreover have "n < 1048576" using assms(3,4) by simp
  ultimately show ?thesis
    using mappages_loop_spec [OF assms(1,2) _ _ assms(6) _ assms(7), of pa 1048576] assms(3-5)
    by (simp add: mappages_def)
qed

section \<open>The kernel part of an address space\<close>

fun seg_pages :: "nat \<times> nat \<times> nat \<times> nat \<Rightarrow> nat" where
  "seg_pages (virt, ps, pe, perm) = sub32 pe ps div PGSIZE"

fun in_seg :: "nat \<times> nat \<times> nat \<times> nat \<Rightarrow> nat \<Rightarrow> bool" where
  "in_seg (virt, ps, pe, perm) va \<longleftrightarrow> in_pages virt (seg_pages (virt, ps, pe, perm)) va"

fun seg_ok :: "nat \<times> nat \<times> nat \<times> nat \<Rightarrow> bool" where
  "seg_ok (virt, ps, pe, perm) \<longleftrightarrow> virt mod PGSIZE = 0 \<and> perm < 4096 \<and>
     sub32 pe ps mod PGSIZE = 0 \<and> sub32 pe ps \<noteq> 0 \<and> virt + sub32 pe ps \<le> W32 \<and> ps + sub32 pe ps \<le> W32"

fun seg_map :: "(nat \<Rightarrow> nat) \<Rightarrow> (nat \<times> nat \<times> nat \<times> nat) list \<Rightarrow> nat \<Rightarrow> nat" where
  "seg_map f [] = f"
| "seg_map f ((virt, ps, pe, perm) # ks) =
     seg_map (map_range f virt (seg_pages (virt, ps, pe, perm)) ps perm) ks"

lemma seg_map_outside: "(\<forall>k\<in>set ks. \<not> in_seg k va) \<Longrightarrow> seg_map f ks va = f va"
  by (induction f ks rule: seg_map.induct) (auto simp: map_range_def)

lemma seg_map_cong: "f va = g va \<Longrightarrow> seg_map f ks va = seg_map g ks va"
proof (induction ks arbitrary: f g)
  case (Cons k ks)
  obtain virt ps pe perm where k: "k = (virt, ps, pe, perm)" by (cases k)
  have "map_range f virt n ps perm va = map_range g virt n ps perm va" for n
    using Cons.prems by (simp add: map_range_def)
  then show ?case unfolding k seg_map.simps by (rule Cons.IH)
qed simp

lemma setupkvm_loop_spec:
  assumes "vm_inv s d F" "\<forall>k\<in>set ks. seg_ok k"
    "sorted_wrt (\<lambda>k l. \<forall>va. \<not> (in_seg k va \<and> in_seg l va)) ks"
    "\<forall>k\<in>set ks. \<forall>va<W32. in_seg k va \<longrightarrow> \<not> pte_present (pte_of (mem s) d va)"
  shows "\<exists>r t F'. setupkvm_loop ks d s = Ok r t \<and> vm_step s t d F F' \<and>
    (r = 0 \<and> F' = [] \<or> r = d \<and> (\<forall>va<W32. pte_of (mem t) d va = seg_map (pte_of (mem s) d) ks va))"
  using assms
proof (induction ks arbitrary: s F)
  case Nil
  then show ?case
    by (intro exI [of _ d] exI [of _ s] exI [of _ F]) (simp add: kop_simps vm_step_refl)
next
  case (Cons k ks)
  obtain virt ps pe perm where k: "k = (virt, ps, pe, perm)" by (cases k)
  define sz where "sz = sub32 pe ps"
  have ok: "virt mod PGSIZE = 0" "perm < 4096" "sz mod PGSIZE = 0" "sz \<noteq> 0" "virt + sz \<le> W32" "ps + sz \<le> W32"
    using Cons.prems(2) unfolding k by (simp_all add: sz_def)
  have "sz = sz div PGSIZE * PGSIZE" using div_mult_mod_eq [of sz PGSIZE] ok(3) by simp
  with ok(4) obtain n where n: "sz = Suc n * PGSIZE" by (metis not0_implies_Suc mult_0)
  then have sp: "seg_pages k = Suc n" by (simp add: k sz_def [symmetric])
  have "\<forall>va<W32. in_pages virt (Suc n) va \<longrightarrow> \<not> pte_present (pte_of (mem s) d va)"
    using Cons.prems(4) sp by (simp add: k)
  then obtain r t F' where m: "mappages d virt sz ps perm s = Ok r t" "map_outcome s t d F F' r virt (Suc n) ps perm"
    using mappages_spec [OF Cons.prems(1) ok(1) n ok(5,6,2)] by blast
  then have st: "vm_step s t d F F'" by (simp add: map_outcome_def)
  show ?case
  proof (cases "r = 0")
    case False
    with m have "r = -1" "F' = []" by (simp_all add: map_outcome_def)
    with m(1) have "setupkvm_loop (k # ks) d s = Ok 0 t \<and> F' = []" by (simp add: k sz_def [symmetric] kop_simps)
    with st show ?thesis by blast
  next
    case True
    with m have tr: "\<forall>va<W32. pte_of (mem t) d va = map_range (pte_of (mem s) d) virt (Suc n) ps perm va"
      by (simp add: map_outcome_def)
    have "\<forall>l\<in>set ks. \<forall>va<W32. in_seg l va \<longrightarrow> \<not> pte_present (pte_of (mem t) d va)"
      using Cons.prems(3,4) tr sp by (auto simp: map_range_def k)
    moreover have "vm_inv t d F'" using st by (simp add: vm_step_def)
    ultimately obtain r' t' F'' where l: "setupkvm_loop ks d t = Ok r' t'" "vm_step t t' d F' F''"
        "r' = 0 \<and> F'' = [] \<or> r' = d \<and> (\<forall>va<W32. pte_of (mem t') d va = seg_map (pte_of (mem t) d) ks va)"
      using Cons.IH [of t F'] Cons.prems by auto
    have "seg_map (pte_of (mem t) d) ks va = seg_map (pte_of (mem s) d) (k # ks) va" if "va < W32" for va
      using that tr sp by (auto simp: k intro!: seg_map_cong)
    moreover have "setupkvm_loop (k # ks) d s = Ok r' t'"
      using l(1) m(1) True by (simp add: k sz_def [symmetric] kop_simps)
    ultimately show ?thesis
      using l(3) vm_step_trans [OF st l(2)] by (metis (no_types, lifting))
  qed
qed
text \<open>Where the linker puts the writable part of the kernel.\<close>

definition link_ok :: "'z kmem_scheme \<Rightarrow> bool" where
  "link_ok s \<longleftrightarrow> kdata s mod PGSIZE = 0 \<and> KERNLINK < kdata s \<and> kdata s < KERNBASE + PHYSTOP"

lemma in_pages_aligned: "v mod PGSIZE = 0 \<Longrightarrow> in_pages v n va \<longleftrightarrow> v \<le> va \<and> va < v + n * PGSIZE"
proof -
  assume "v mod PGSIZE = 0"
  then obtain k where v: "v = PGSIZE * k" by auto
  have "va div PGSIZE < k + n \<longleftrightarrow> va < (k + n) * PGSIZE" by (rule div_less_iff_less_mult) simp
  moreover have "k \<le> va div PGSIZE \<longleftrightarrow> k * PGSIZE \<le> va" by (rule less_eq_div_iff_mult_less_eq) simp
  ultimately show ?thesis by (simp add: in_pages_def v algebra_simps)
qed

lemma aligned_diff: "b \<le> a \<Longrightarrow> a mod PGSIZE = 0 \<Longrightarrow> b mod PGSIZE = 0 \<Longrightarrow> (a - b) div PGSIZE * PGSIZE = a - b"
  by (simp add: mod_eq_0_iff_dvd)

lemma kmap_segs:
  assumes "data mod PGSIZE = 0" "KERNLINK < data" "data < KERNBASE + PHYSTOP"
  shows "\<forall>k\<in>set (kmap data). seg_ok k"
    "sorted_wrt (\<lambda>k l. \<forall>va. \<not> (in_seg k va \<and> in_seg l va)) (kmap data)"
proof -
  have v: "v2p data = data - KERNBASE" "v2p KERNLINK = EXTMEM" using assms by (simp_all add: v2p_high)
  have n: "sub32 EXTMEM 0 = 256 * PGSIZE" "sub32 0 DEVSPACE = 8192 * PGSIZE"
      "sub32 (data - KERNBASE) EXTMEM = data - KERNLINK" "sub32 PHYSTOP (data - KERNBASE) = KERNBASE + PHYSTOP - data"
    using assms by (simp_all add: sub32_def mod_if)
  have d: "(data - KERNLINK) mod PGSIZE = 0" "(KERNBASE + PHYSTOP - data) mod PGSIZE = 0"
    using assms by (simp_all add: mod_eq_0_iff_dvd)
  show "\<forall>k\<in>set (kmap data). seg_ok k"
    using assms d by (simp add: kmap_def v n)
  have "(data - KERNLINK) div PGSIZE * PGSIZE = data - KERNLINK"
      "(0x8E000000 - data) div PGSIZE * PGSIZE = 0x8E000000 - data"
    using assms by (simp_all add: mod_eq_0_iff_dvd)
  with assms show "sorted_wrt (\<lambda>k l. \<forall>va. \<not> (in_seg k va \<and> in_seg l va)) (kmap data)"
    by (simp add: kmap_def v n in_pages_aligned)
qed

text \<open>What the four mappings translate: below \<open>KERNBASE\<close> nothing, above it physical memory.\<close>

lemma kmap_user: 
  assumes "data mod PGSIZE = 0" "KERNLINK < data" "va < KERNBASE"
  shows "seg_map f (kmap data) va = f va"
proof (rule seg_map_outside)
  have "data div PGSIZE > va div PGSIZE" "KERNBASE div PGSIZE > va div PGSIZE" 
    using assms by (auto simp: mod_eq_0_iff_dvd)
  then show "\<forall>k\<in>set (kmap data). \<not> in_seg k va"
    using assms by (auto simp: kmap_def in_pages_aligned)
qed

lemma direct_map_addr:
  assumes "virt mod PGSIZE = 0" "KERNBASE \<le> virt" "virt \<le> va"
  shows "virt - KERNBASE + (va div PGSIZE - virt div PGSIZE) * PGSIZE = va div PGSIZE * PGSIZE - KERNBASE"
proof -
  obtain k where k: "virt = PGSIZE * k" using assms(1) by auto
  have "k \<le> va div PGSIZE" using assms(3) by (simp add: k less_eq_div_iff_mult_less_eq mult.commute)
  then obtain j where "va div PGSIZE = k + j" using le_iff_add by blast
  then show ?thesis using assms(2) by (simp add: k)
qed

lemma kmap_kernel:
  assumes "data mod PGSIZE = 0" "KERNLINK < data" "data < KERNBASE + PHYSTOP" "KERNBASE \<le> va" "va < KERNBASE + PHYSTOP"
  shows "\<exists>perm<4. seg_map f (kmap data) va = (va div PGSIZE * PGSIZE - KERNBASE) OR perm OR PTE_P"
proof -
  have v: "v2p data = data - KERNBASE" "v2p KERNLINK = EXTMEM" using assms by (simp_all add: v2p_high)
  have n: "sub32 EXTMEM 0 = 256 * PGSIZE" "sub32 0 DEVSPACE = 8192 * PGSIZE"
      "sub32 (data - KERNBASE) EXTMEM = data - KERNLINK" "sub32 PHYSTOP (data - KERNBASE) = KERNBASE + PHYSTOP - data"
    using assms by (simp_all add: sub32_def mod_if)
  have p: "(data - KERNLINK) div PGSIZE * PGSIZE = data - KERNLINK"
      "(0x8E000000 - data) div PGSIZE * PGSIZE = 0x8E000000 - data"
    using assms by (simp_all add: mod_eq_0_iff_dvd)
  note rules = kmap_def map_range_def in_pages_aligned v n p
  consider "va < KERNLINK" | "KERNLINK \<le> va" "va < data" | "data \<le> va" by linarith
  then show ?thesis
  proof cases
    case 1
    with assms direct_map_addr [of KERNBASE va] show ?thesis
      by (intro exI [of _ 2]) (simp add: rules)
  next
    case 2
    with assms direct_map_addr [of KERNLINK va] show ?thesis
      by (intro exI [of _ 0]) (simp add: rules)
  next
    case 3
    with assms direct_map_addr [of data va] show ?thesis
      by (intro exI [of _ 2]) (simp add: rules)
  qed
qed
lemma zero_pgdir:
  assumes "m d = (\<lambda>_. 0)"
  shows "pde_of m d i = 0" "pte_of m d va = 0" "pt_pages m d = {d}" "pgdir_ok m d"
proof -
  show *: "pde_of m d i = 0" for i using assms by (simp add: pde_of_def rd32_def)
  show "pte_of m d va = 0" by (simp add: pte_of_def *)
  show "pt_pages m d = {d}" by (simp add: pt_pages_def *)
  show "pgdir_ok m d" by (simp add: pgdir_ok_def *)
qed

text \<open>The translation of a new address space: the kernel's direct map, and nothing for the user.\<close>

definition kernel_only :: "(nat \<Rightarrow> bytes) \<Rightarrow> nat \<Rightarrow> bool" where
  "kernel_only m d \<longleftrightarrow> (\<forall>va<KERNBASE. pte_of m d va = 0) \<and>
     (\<forall>va. KERNBASE \<le> va \<and> va < KERNBASE + PHYSTOP \<longrightarrow>
        (\<exists>perm<4. pte_of m d va = (va div PGSIZE * PGSIZE - KERNBASE) OR perm OR PTE_P))"

text \<open>A directory and its tables are at most 1025 pages.\<close>

lemma pt_pages_finite [simp]: "finite (pt_pages m d)"
  and card_pt_pages: "card (pt_pages m d) \<le> Suc NPDENTRIES"
proof -
  have eq: "pt_pages m d = insert d (tbl m d ` {i \<in> {..<NPDENTRIES}. pte_present (pde_of m d i)})"
    by (auto simp: pt_pages_def)
  then show "finite (pt_pages m d)" by simp
  have "card (tbl m d ` {i \<in> {..<NPDENTRIES}. pte_present (pde_of m d i)}) \<le> card {i \<in> {..<NPDENTRIES}. pte_present (pde_of m d i)}"
    by (rule card_image_le) simp
  also have "\<dots> \<le> card {..<NPDENTRIES}" by (rule card_mono) auto
  finally show "card (pt_pages m d) \<le> Suc NPDENTRIES"
    unfolding eq by (simp add: card_insert_if)
qed

lemma setupkvm_spec:
  assumes "free_pages s F" "kmem_ready s" "link_ok s"
  shows "\<exists>r t F'. setupkvm s = Ok r t \<and> kmem_frame s t \<and> (\<exists>pre. F = pre @ F') \<and> free_pages t F' \<and>
    (\<forall>u. u \<notin> set F \<longrightarrow> mem t u = mem s u) \<and>
    (r = 0 \<longrightarrow> length F \<le> Suc NPDENTRIES) \<and>
    (r \<noteq> 0 \<longrightarrow> vm_inv t r F' \<and> pt_pages (mem t) r \<subseteq> set F \<and> set F \<subseteq> set F' \<union> pt_pages (mem t) r \<and> kernel_only (mem t) r)"
proof -
  obtain u where u: "kalloc s = Ok (case F of [] \<Rightarrow> 0 | v # _ \<Rightarrow> v) u" "free_pages u (tl F)"
      "mem u = mem s" "kmem_frame s u"
    using kalloc_pops [OF assms(1,2)] by blast
  show ?thesis
  proof (cases F)
    case Nil
    with u show ?thesis
      by (intro exI [of _ 0] exI [of _ u] exI [of _ "[]"]) (simp add: setupkvm_def kop_simps del: run_kalloc)
  next
    case (Cons q F1)
    have q: "q \<noteq> 0" "q \<notin> set F1" using free_pages_ok [OF assms(1)] Cons by auto
    let ?s = "mem_fill q 0 u"
    have fr: "kmem_frame s ?s" using u(4) by (rule kmem_frame_mem)
    have "((mem u)(q := (\<lambda>_. 0))) q = (\<lambda>_. 0)" by simp
    note zp = zero_pgdir [of "(mem u)(q := (\<lambda>_. 0))" q, OF this]
    have inv: "vm_inv ?s q F1"
      using u(2) q(2) zp kmem_frame_eqs [OF fr] assms(2) Cons
      by (simp add: vm_inv_def free_pages_def kpage_def)
    have data: "kdata ?s = kdata s" using kmem_frame_eqs [OF fr] by simp
    have "\<forall>k\<in>set (kmap (kdata s)). \<forall>va<W32. in_seg k va \<longrightarrow> \<not> pte_present (pte_of (mem ?s) q va)"
      by (simp add: zp)
    moreover have "\<forall>k\<in>set (kmap (kdata s)). seg_ok k"
        "sorted_wrt (\<lambda>k l. \<forall>va. \<not> (in_seg k va \<and> in_seg l va)) (kmap (kdata s))"
      using kmap_segs [of "kdata s"] assms(3) by (simp_all add: link_ok_def)
    ultimately obtain r t F' where l: "setupkvm_loop (kmap (kdata s)) q ?s = Ok r t" and st: "vm_step ?s t q F1 F'"
        and r: "r = 0 \<and> F' = [] \<or> r = q \<and> (\<forall>va<W32. pte_of (mem t) q va = seg_map (pte_of (mem ?s) q) (kmap (kdata s)) va)"
      using setupkvm_loop_spec [OF inv, of "kmap (kdata s)"] by auto
    have run: "setupkvm s = Ok r t"
      using u(1) q(1) Cons l data by (simp add: setupkvm_def kop_simps p2v_def del: run_kalloc)
    have sub: "pt_pages (mem t) q \<subseteq> set F" "set F \<subseteq> set F' \<union> pt_pages (mem t) q"
      using st zp Cons by (auto simp: vm_step_def)
    have short: "length F \<le> Suc NPDENTRIES" if "F' = []"
    proof -
      have "length F = card (set F)" using free_pages_ok [OF assms(1)] by (simp add: distinct_card)
      also have "\<dots> \<le> card (pt_pages (mem t) q)" using sub(2) that by (intro card_mono) auto
      finally show ?thesis using card_pt_pages order.trans by blast
    qed
    have "\<forall>v. v \<notin> set F \<longrightarrow> mem t v = mem s v"
      using sub(1) st u(3) Cons by (auto simp: vm_step_def subset_iff)
    moreover have "kernel_only (mem t) q" if "r \<noteq> 0"
      using r that kmap_user [of "kdata s"] kmap_kernel [of "kdata s"] assms(3)
      unfolding kernel_only_def link_ok_def by (simp add: zp)
    moreover have "kmem_frame s t" using st fr kmem_frame_trans by (auto simp: vm_step_def)
    ultimately show ?thesis
      using run st sub r short q(1) Cons by (intro exI [of _ r] exI [of _ t] exI [of _ F']) (auto simp: vm_step_def vm_inv_def)
  qed
qed
end
