(* ===== verification/Uvm.thy ===== *)
theory Uvm
  imports AddrSpace
begin

text \<open>
  User memory: the pages an address space owns, and what \<open>deallocuvm\<close>, \<open>freevm\<close>, \<open>allocuvm\<close>,
  \<open>copyuvm\<close> and \<open>copyout\<close> of \<^verbatim>\<open>src/vm.c\<close> do to them.
\<close>

section \<open>Address spaces\<close>

text \<open>The page behind a user address.\<close>

definition upage :: "(nat \<Rightarrow> bytes) \<Rightarrow> nat \<Rightarrow> nat \<Rightarrow> nat" where
  "upage m d va = p2v (PTE_ADDR (pte_of m d va))"

definition upages :: "(nat \<Rightarrow> bytes) \<Rightarrow> nat \<Rightarrow> nat \<Rightarrow> nat \<Rightarrow> nat set" where
  "upages m d lo hi = {upage m d va | va. lo \<le> va \<and> va < hi \<and> pte_present (pte_of m d va)}"

text \<open>
  An address space in order: the tables and the user pages are pages of the allocator, none of
  them free, no user page is a table, and no two user pages are the same page of memory.
\<close>

definition as_inv :: "'z kmem_scheme \<Rightarrow> nat \<Rightarrow> nat list \<Rightarrow> bool" where
  "as_inv s d F \<longleftrightarrow> vm_inv s d F \<and> (\<forall>u\<in>pt_pages (mem s) d. kpage s u) \<and>
     (\<forall>va<KERNBASE. pte_present (pte_of (mem s) d va) \<longrightarrow>
        PTE_ADDR (pte_of (mem s) d va) \<noteq> 0 \<and> kpage s (upage (mem s) d va) \<and>
        upage (mem s) d va \<notin> pt_pages (mem s) d \<union> set F) \<and>
     (\<forall>va<KERNBASE. \<forall>wa<KERNBASE. pte_present (pte_of (mem s) d va) \<and> pte_present (pte_of (mem s) d wa) \<and>
        upage (mem s) d va = upage (mem s) d wa \<longrightarrow> va div PGSIZE = wa div PGSIZE)"

lemma as_invD:
  assumes "as_inv s d F" "va < KERNBASE" "pte_present (pte_of (mem s) d va)"
  shows "PTE_ADDR (pte_of (mem s) d va) \<noteq> 0" "kpage s (upage (mem s) d va)"
    "upage (mem s) d va \<notin> pt_pages (mem s) d" "upage (mem s) d va \<notin> set F"
  using assms by (auto simp: as_inv_def)

lemma as_inv_inj:
  assumes "as_inv s d F" "va < KERNBASE" "wa < KERNBASE" "pte_present (pte_of (mem s) d va)"
    "pte_present (pte_of (mem s) d wa)" "upage (mem s) d va = upage (mem s) d wa"
  shows "va div PGSIZE = wa div PGSIZE"
  using assms unfolding as_inv_def by blast

lemma as_inv_cong:
  assumes inv: "as_inv s d F" and "vm_inv t d F'" "set F' \<subseteq> set F" "kpage t = kpage s"
    and eqs: "pte_of (mem t) d = pte_of (mem s) d" "pt_pages (mem t) d = pt_pages (mem s) d"
  shows "as_inv t d F'"
proof -
  have up: "upage (mem t) d = upage (mem s) d" by (simp add: upage_def fun_eq_iff eqs)
  have "\<forall>va<KERNBASE. pte_present (pte_of (mem s) d va) \<longrightarrow>
      PTE_ADDR (pte_of (mem s) d va) \<noteq> 0 \<and> kpage s (upage (mem s) d va) \<and>
      upage (mem s) d va \<notin> pt_pages (mem s) d \<union> set F'"
    using as_invD [OF inv] assms(3) by blast
  moreover have "\<forall>u\<in>pt_pages (mem s) d. kpage s u" using inv by (simp add: as_inv_def)
  ultimately show ?thesis
    using as_inv_inj [OF inv] assms(2) unfolding as_inv_def eqs up assms(4) by blast
qed

lemma PDX_PTX_iff:
  "va < W32 \<Longrightarrow> wa < W32 \<Longrightarrow> (PDX va = PDX wa \<and> PTX va = PTX wa) \<longleftrightarrow> va div PGSIZE = wa div PGSIZE"
  using PDX_PTX_inj [of va wa] PDX_PTX_cong [of va wa] by blast

lemma pte_of_page: "va div PGSIZE = wa div PGSIZE \<Longrightarrow> pte_of m d va = pte_of m d wa"
  using PDX_PTX_cong [of va wa] by (simp add: pte_of_def)

lemma pte_of_present_table: "pte_present (pte_of m d va) \<Longrightarrow> pte_present (pde_of m d (PDX va))"
  by (auto simp: pte_of_def split: if_splits)

section \<open>Freeing user pages\<close>

text \<open>One round of \<open>deallocuvm\<close> on a mapped page: the page is freed and the entry cleared.\<close>

lemma free_one:
  assumes inv: "as_inv s d F" and a: "a < KERNBASE" "pte_present (pte_of (mem s) d a)"
  defines "q \<equiv> upage (mem s) d a" and "e \<equiv> (tbl (mem s) d (PDX a), PTX a)"
  shows "\<exists>t. kthen (kfree q) (kmod (set_pte e 0)) s = Ok () t \<and> as_inv t d (q # F) \<and> kmem_frame s t \<and>
    pt_pages (mem t) d = pt_pages (mem s) d \<and> pde_of (mem t) d = pde_of (mem s) d \<and>
    (\<forall>va<W32. pte_of (mem t) d va = (if va div PGSIZE = a div PGSIZE then 0 else pte_of (mem s) d va)) \<and>
    (\<forall>u. u \<noteq> q \<and> u \<notin> pt_pages (mem s) d \<longrightarrow> mem t u = mem s u)"
proof -
  have q: "kpage s q" "q \<notin> pt_pages (mem s) d" "q \<notin> set F"
    using as_invD [OF inv a] by (simp_all add: q_def)
  have vm: "vm_inv s d F" and fp: "free_pages s F" "kmem_ready s"
    using inv by (simp_all add: as_inv_def vm_inv_def)
  obtain u where u: "kfree q s = Ok () u" "free_pages u (q # F)" "\<forall>v. v \<noteq> q \<longrightarrow> mem u v = mem s v" "kmem_frame s u"
    using kfree_pushes [OF fp q(1,3)] by blast
  have eqs: "pde_of (mem u) d = pde_of (mem s) d" "tbl (mem u) d = tbl (mem s) d" "pte_of (mem u) d = pte_of (mem s) d"
      "pt_pages (mem u) d = pt_pages (mem s) d" "pgdir_ok (mem u) d = pgdir_ok (mem s) d"
    by (rule pt_cong; use u(3) q(2) in auto)+
  have vmu: "vm_inv u d (q # F)"
    using vm u q kmem_frame_eqs [OF u(4)] by (auto simp: vm_inv_def eqs)
  have p: "pte_present (pde_of (mem u) d (PDX a))"
    using a(2) by (simp add: eqs pte_of_present_table)
  let ?t = "set_pte e 0 u"
  have st: "vm_step u ?t d (q # F) (q # F)"
    and tr: "pte_of (mem ?t) d = (\<lambda>wa. if PDX wa = PDX a \<and> PTX wa = PTX a then 0 else pte_of (mem s) d wa)"
    using set_pte_table [OF vmu p, of 0, unfolded eqs] by (simp_all add: e_def)
  have fr: "kmem_frame s ?t" using u(4) st kmem_frame_trans by (auto simp: vm_step_def)
  have pp: "pt_pages (mem ?t) d = pt_pages (mem s) d" using st by (auto simp: vm_step_def eqs)
  have pd: "pde_of (mem ?t) d = pde_of (mem s) d"
  proof -
    have "e \<in> {e. fst e \<noteq> d}" using vmu p by (auto simp: e_def vm_inv_def pgdir_ok_def eqs)
    then show ?thesis using eqs(1) by (simp add: pde_of_def set_pte_def fun_eq_iff)
  qed
  have tr': "\<forall>va<W32. pte_of (mem ?t) d va = (if va div PGSIZE = a div PGSIZE then 0 else pte_of (mem s) d va)"
    unfolding tr using a(1) by (simp add: PDX_PTX_iff)
  have kp: "kpage ?t = kpage s" using fr by (simp add: kmem_frame_eqs)
  have "as_inv ?t d (q # F)"
    unfolding as_inv_def
  proof (intro conjI ballI allI impI)
    show "vm_inv ?t d (q # F)" using st by (simp add: vm_step_def)
  next
    fix v assume "v \<in> pt_pages (mem ?t) d"
    then show "kpage ?t v" using inv pp kp by (simp add: as_inv_def)
  next
    fix va assume va: "va < KERNBASE" "pte_present (pte_of (mem ?t) d va)"
    then have ne: "va div PGSIZE \<noteq> a div PGSIZE" and eq: "pte_of (mem ?t) d va = pte_of (mem s) d va"
      using tr' [rule_format, of va] by (simp_all split: if_splits)
    then have "pte_present (pte_of (mem s) d va)" using va by simp
    note this as_invD [OF inv va(1) this]
    moreover have "upage (mem s) d va \<noteq> q"
      using as_inv_inj [OF inv va(1) a(1) _ a(2)] ne \<open>pte_present (pte_of (mem s) d va)\<close> unfolding q_def by blast
    ultimately show "PTE_ADDR (pte_of (mem ?t) d va) \<noteq> 0" "kpage ?t (upage (mem ?t) d va)"
      "upage (mem ?t) d va \<notin> pt_pages (mem ?t) d \<union> set (q # F)"
      by (simp_all add: upage_def eq kp pp)
  next
    fix va wa assume vw: "va < KERNBASE" "wa < KERNBASE" "pte_present (pte_of (mem ?t) d va) \<and>
      pte_present (pte_of (mem ?t) d wa) \<and> upage (mem ?t) d va = upage (mem ?t) d wa"
    then have "pte_of (mem ?t) d va = pte_of (mem s) d va" "pte_of (mem ?t) d wa = pte_of (mem s) d wa"
      using tr' [rule_format, of va] tr' [rule_format, of wa] by (simp_all split: if_splits)
    then show "va div PGSIZE = wa div PGSIZE"
      using as_inv_inj [OF inv vw(1,2)] vw(3) by (simp add: upage_def)
  qed
  moreover have "\<forall>v. v \<noteq> q \<and> v \<notin> pt_pages (mem s) d \<longrightarrow> mem ?t v = mem s v"
    using u(3) st pp by (auto simp: vm_step_def)
  ultimately show ?thesis using u(1) fr pp pd tr' by (auto simp: kop_simps)
qed

lemma aligned_page: "a mod PGSIZE = 0 \<Longrightarrow> a \<le> va \<Longrightarrow> va < a + PGSIZE \<Longrightarrow> va div PGSIZE = a div PGSIZE"
  by (intro div_nat_eqI) (auto simp: mod_eq_0_iff_dvd)

lemma page_ge: "a mod PGSIZE = 0 \<Longrightarrow> a \<le> va \<longleftrightarrow> a \<le> va div PGSIZE * PGSIZE"
proof -
  assume "a mod PGSIZE = 0"
  then obtain k where "a = k * PGSIZE" by (metis dvd_def mod_eq_0_iff_dvd mult.commute)
  then show ?thesis by (simp add: less_eq_div_iff_mult_less_eq [symmetric])
qed

lemma upages_step:
  assumes "a mod PGSIZE = 0" "a < hi"
  shows "upages m d a hi =
    (if pte_present (pte_of m d a) then {upage m d a} else {}) \<union> upages m d (a + PGSIZE) hi"
proof -
  have same: "pte_of m d va = pte_of m d a" if "a \<le> va" "va < a + PGSIZE" for va
    using aligned_page [OF assms(1) that] by (rule pte_of_page)
  show ?thesis
  proof (intro equalityI subsetI)
    fix x assume "x \<in> upages m d a hi"
    then obtain va where va: "x = upage m d va" "a \<le> va" "va < hi" "pte_present (pte_of m d va)"
      by (auto simp: upages_def)
    then show "x \<in> (if pte_present (pte_of m d a) then {upage m d a} else {}) \<union> upages m d (a + PGSIZE) hi"
      using same [of va] by (cases "va < a + PGSIZE") (auto simp: upages_def upage_def)
  next
    fix x assume "x \<in> (if pte_present (pte_of m d a) then {upage m d a} else {}) \<union> upages m d (a + PGSIZE) hi"
    then show "x \<in> upages m d a hi"
      using assms(2) by (auto simp: upages_def split: if_splits)
  qed
qed

lemma upages_cong:
  assumes "\<And>va. lo \<le> va \<Longrightarrow> va < hi \<Longrightarrow> pte_of m' d va = pte_of m d va"
  shows "upages m' d lo hi = upages m d lo hi"
  using assms by (auto simp: upages_def upage_def) metis+

definition dealloc_done :: "'z kmem_scheme \<Rightarrow> 'z kmem_scheme \<Rightarrow> nat \<Rightarrow> nat list \<Rightarrow> nat list \<Rightarrow>
    nat \<Rightarrow> nat \<Rightarrow> bool" where
  "dealloc_done s t d F F' a hi \<longleftrightarrow> as_inv t d F' \<and> kmem_frame s t \<and>
     set F' = set F \<union> upages (mem s) d a hi \<and>
     pt_pages (mem t) d = pt_pages (mem s) d \<and> pde_of (mem t) d = pde_of (mem s) d \<and>
     (\<forall>va<W32. pte_of (mem t) d va =
        (if a \<le> va \<and> va div PGSIZE * PGSIZE < hi \<and> pte_present (pte_of (mem s) d va) then 0
         else pte_of (mem s) d va)) \<and>
     (\<forall>u. u \<notin> upages (mem s) d a hi \<and> u \<notin> pt_pages (mem s) d \<longrightarrow> mem t u = mem s u)"

lemma dealloc_done_none:
  assumes "as_inv s d F" "a mod PGSIZE = 0" "hi \<le> a"
  shows "dealloc_done s s d F F a hi"
proof -
  have "upages (mem s) d a hi = {}" using assms(3) by (auto simp: upages_def)
  moreover have "\<not> (a \<le> va \<and> va div PGSIZE * PGSIZE < hi)" for va
    using page_ge [OF assms(2), of va] assms(3) by linarith
  ultimately show ?thesis using assms(1) by (simp add: dealloc_done_def) blast
qed

text \<open>A page that is not mapped changes nothing; a page that is mapped is freed first.\<close>

lemma dealloc_done_skip:
  assumes "a mod PGSIZE = 0" "a \<le> b" "b mod PGSIZE = 0" "\<And>va. a \<le> va \<Longrightarrow> va < b \<Longrightarrow> \<not> pte_present (pte_of (mem s) d va)"
    "dealloc_done s t d F F' b hi"
  shows "dealloc_done s t d F F' a hi"
proof -
  have "a \<le> va \<and> va < hi \<and> pte_present (pte_of (mem s) d va) \<longleftrightarrow>
      b \<le> va \<and> va < hi \<and> pte_present (pte_of (mem s) d va)" for va
    using assms(2) assms(4) [of va] by (cases "va < b") auto
  then have "upages (mem s) d a hi = upages (mem s) d b hi" by (simp add: upages_def)
  moreover have "pte_of (mem t) d va = (if a \<le> va \<and> va div PGSIZE * PGSIZE < hi \<and> pte_present (pte_of (mem s) d va)
      then 0 else pte_of (mem s) d va)" if "va < W32" for va
    using assms(2,5) assms(4) [of va] that unfolding dealloc_done_def by (cases "va < b") auto
  ultimately show ?thesis using assms(5) by (simp add: dealloc_done_def)
qed

lemma dealloc_done_free:
  assumes inv: "as_inv s d F" and a: "a < KERNBASE" "a mod PGSIZE = 0" "a < hi" "pte_present (pte_of (mem s) d a)"
    and one: "as_inv u d (upage (mem s) d a # F)" "kmem_frame s u" "pt_pages (mem u) d = pt_pages (mem s) d"
      "pde_of (mem u) d = pde_of (mem s) d"
      "\<forall>va<W32. pte_of (mem u) d va = (if va div PGSIZE = a div PGSIZE then 0 else pte_of (mem s) d va)"
      "\<forall>v. v \<noteq> upage (mem s) d a \<and> v \<notin> pt_pages (mem s) d \<longrightarrow> mem u v = mem s v"
    and hi: "hi \<le> W32" and rest: "dealloc_done u t d (upage (mem s) d a # F) F' (a + PGSIZE) hi"
  shows "dealloc_done s t d F F' a hi"
proof -
  have ne: "a + PGSIZE \<le> va \<Longrightarrow> va div PGSIZE \<noteq> a div PGSIZE" for va
    using div_le_mono [of "a + PGSIZE" va PGSIZE] by simp
  have up: "upages (mem u) d (a + PGSIZE) hi = upages (mem s) d (a + PGSIZE) hi"
    by (rule upages_cong) (use one(5) hi ne in auto)
  have step: "upages (mem s) d a hi = insert (upage (mem s) d a) (upages (mem s) d (a + PGSIZE) hi)"
    using upages_step [OF a(2,3)] a(4) by simp
  have "pte_of (mem t) d va = (if a \<le> va \<and> va div PGSIZE * PGSIZE < hi \<and> pte_present (pte_of (mem s) d va)
      then 0 else pte_of (mem s) d va)" if va: "va < W32" for va
  proof -
    define i k where "i = va div PGSIZE" and "k = a div PGSIZE"
    have ak: "a = k * PGSIZE" using a(2) by (simp add: k_def mod_eq_0_iff_dvd)
    have le: "a \<le> va \<longleftrightarrow> k \<le> i" "a + PGSIZE \<le> va \<longleftrightarrow> Suc k \<le> i"
      using less_eq_div_iff_mult_less_eq [of PGSIZE k va] less_eq_div_iff_mult_less_eq [of PGSIZE "Suc k" va]
      by (simp_all add: i_def ak add.commute)
    have "i = k \<Longrightarrow> pte_of (mem s) d va = pte_of (mem s) d a" by (rule pte_of_page) (simp add: i_def k_def)
    moreover have "pte_of (mem t) d va = (if Suc k \<le> i \<and> i * PGSIZE < hi \<and> pte_present (pte_of (mem u) d va)
        then 0 else pte_of (mem u) d va)"
      using rest va unfolding dealloc_done_def le(2) [symmetric] by (simp add: i_def)
    moreover have "pte_of (mem u) d va = (if i = k then 0 else pte_of (mem s) d va)"
      using one(5) va by (simp add: i_def k_def)
    ultimately show ?thesis
      unfolding le i_def [symmetric] using a(3,4) ak by (cases "i = k") auto
  qed
  then show ?thesis
    using one rest kmem_frame_trans [OF one(2)] by (auto simp: dealloc_done_def up step)
qed

abbreviation (input) "PDSIZE \<equiv> (4194304 :: nat)"

lemma PDX_next:
  assumes "a mod PGSIZE = 0" "(a + PGSIZE) mod PDSIZE \<noteq> 0"
  shows "PDX (a + PGSIZE) = PDX a"
proof -
  obtain k where k: "a = k * PGSIZE" using assms(1) by (metis dvd_def mod_eq_0_iff_dvd mult.commute)
  have "Suc k mod 1024 \<noteq> 0"
  proof
    assume "Suc k mod 1024 = 0"
    then obtain j where "Suc k = 1024 * j" by (auto simp: mod_eq_0_iff_dvd)
    then have "a + PGSIZE = j * PDSIZE" by (simp add: k)
    with assms(2) show False by simp
  qed
  then have "Suc k div 1024 = k div 1024" by (simp add: div_Suc)
  then show ?thesis by (simp add: PDX_def div_PDX k)
qed

lemma PDX_same:
  assumes "a mod PDSIZE = 0" "a \<le> va" "va < a + PDSIZE"
  shows "PDX va = PDX a"
proof -
  have "va div PDSIZE = a div PDSIZE"
    using assms by (intro div_nat_eqI) (auto simp: mod_eq_0_iff_dvd)
  then show ?thesis by (simp add: PDX_def)
qed

lemma deallocuvm_loop_spec:
  assumes "as_inv s d F" "a mod PGSIZE = 0" "hi \<le> KERNBASE"
    "a mod PDSIZE = 0 \<or> pte_present (pde_of (mem s) d (PDX a))"
  shows "\<exists>t F'. deallocuvm_loop d a hi s = Ok () t \<and> dealloc_done s t d F F' a hi"
  using assms
proof (induction d a hi arbitrary: s F rule: deallocuvm_loop.induct)
  case (1 d a hi)
  note unfold = deallocuvm_loop.simps [of d a hi]
  show ?case
  proof (cases "a < hi")
    case False
    then have "deallocuvm_loop d a hi s = Ok () s" by (simp add: unfold kop_simps)
    with dealloc_done_none [OF "1.prems"(1,2), of hi] False show ?thesis by auto
  next
    case lt: True
    show ?thesis
    proof (cases "pte_present (pde_of (mem s) d (PDX a))")
      case False
      with "1.prems"(4) have al: "a mod PDSIZE = 0" by simp
      have al': "(a + PDSIZE) mod PDSIZE = 0" "(a + PDSIZE) mod PGSIZE = 0"
        using al "1.prems"(2) by (simp_all add: mod_eq_0_iff_dvd)
      have ih: "\<exists>t F'. deallocuvm_loop d (a + PDSIZE) hi s = Ok () t \<and> dealloc_done s t d F F' (a + PDSIZE) hi"
        using "1.IH"(1) [OF lt, of s F] "1.prems" al' by (simp add: add.assoc)
      then obtain t F' where t: "deallocuvm_loop d (a + PDSIZE) hi s = Ok () t" "dealloc_done s t d F F' (a + PDSIZE) hi"
        by blast
      have "\<not> pte_present (pte_of (mem s) d va)" if "a \<le> va" "va < a + PDSIZE" for va
        using False by (simp add: pte_of_def PDX_same [OF al that])
      with t(2) have "dealloc_done s t d F F' a hi"
        by (intro dealloc_done_skip [OF "1.prems"(2) _ al'(2)]) auto
      moreover have "deallocuvm_loop d a hi s = Ok () t"
        using lt t(1) walkpgdir_absent [OF False] by (simp add: unfold kop_simps add.assoc)
      ultimately show ?thesis by blast
    next
      case present: True
      have al: "(a + PGSIZE) mod PGSIZE = 0" using "1.prems"(2) by simp
      have a: "a < KERNBASE" using lt "1.prems"(3) by simp
      have next_ok: "(a + PGSIZE) mod PDSIZE = 0 \<or> pte_present (pde_of m d (PDX (a + PGSIZE)))"
        if "pde_of m d = pde_of (mem s) d" for m
        using PDX_next [OF "1.prems"(2)] present that by auto
      note walk = walkpgdir_present [OF present, of False] get_pte_tbl [OF present]
      show ?thesis
      proof (cases "pte_present (pte_of (mem s) d a)")
        case False
        obtain t F' where t: "deallocuvm_loop d (a + PGSIZE) hi s = Ok () t" "dealloc_done s t d F F' (a + PGSIZE) hi"
          using "1.IH"(2) [OF lt, of s F] "1.prems" al next_ok [of "mem s"] by auto
        have "\<not> pte_present (pte_of (mem s) d va)" if "a \<le> va" "va < a + PGSIZE" for va
          using False pte_of_page [OF aligned_page [OF "1.prems"(2) that]] by simp
        with t(2) have "dealloc_done s t d F F' a hi"
          by (intro dealloc_done_skip [OF "1.prems"(2) _ al]) auto
        moreover have "deallocuvm_loop d a hi s = Ok () t"
          using lt t(1) walk False by (simp add: unfold kop_simps)
        ultimately show ?thesis by blast
      next
        case True
        obtain u where u: "kthen (kfree (upage (mem s) d a)) (kmod (set_pte (tbl (mem s) d (PDX a), PTX a) 0)) s = Ok () u"
            "as_inv u d (upage (mem s) d a # F)" "kmem_frame s u" "pt_pages (mem u) d = pt_pages (mem s) d"
            "pde_of (mem u) d = pde_of (mem s) d"
            "\<forall>va<W32. pte_of (mem u) d va = (if va div PGSIZE = a div PGSIZE then 0 else pte_of (mem s) d va)"
            "\<forall>v. v \<noteq> upage (mem s) d a \<and> v \<notin> pt_pages (mem s) d \<longrightarrow> mem u v = mem s v"
          using free_one [OF "1.prems"(1) a True] by blast
        obtain t F' where t: "deallocuvm_loop d (a + PGSIZE) hi u = Ok () t"
            "dealloc_done u t d (upage (mem s) d a # F) F' (a + PGSIZE) hi"
          using "1.IH"(2) [OF lt, of u "upage (mem s) d a # F"] "1.prems"(3) u(2) al next_ok [OF u(5)] by auto
        have "dealloc_done s t d F F' a hi"
          using "1.prems"(3) by (intro dealloc_done_free [OF "1.prems"(1) a "1.prems"(2) lt True u(2-7) _ t(2)]) simp
        moreover have "deallocuvm_loop d a hi s = Ok () t"
          using lt t(1) u(1) walk True as_invD(1) [OF "1.prems"(1) a True]
          by (simp add: unfold kop_simps upage_def split: res.splits)
        ultimately show ?thesis by blast
      qed
    qed
  qed
qed

section \<open>Freeing an address space\<close>

definition tables :: "(nat \<Rightarrow> bytes) \<Rightarrow> nat \<Rightarrow> nat list \<Rightarrow> nat set" where
  "tables m d is = {tbl m d i | i. i \<in> set is \<and> pte_present (pde_of m d i)}"

lemma run_free_table:
  "free_table d i s = (if pte_present (pde_of (mem s) d i) then kfree (tbl (mem s) d i) s else Ok () s)"
  by (simp add: free_table_def kop_simps get_pte_def pde_of_def tbl_def del: run_kfree)

lemma free_tables:
  assumes "free_pages s F" "kmem_ready s" "distinct is"
    "\<forall>i\<in>set is. pte_present (pde_of (mem s) d i) \<longrightarrow>
       kpage s (tbl (mem s) d i) \<and> tbl (mem s) d i \<noteq> d \<and> tbl (mem s) d i \<notin> set F"
    "inj_on (tbl (mem s) d) {i \<in> set is. pte_present (pde_of (mem s) d i)}"
  shows "\<exists>t F'. kfor is (free_table d) s = Ok () t \<and>
    free_pages t F' \<and> set F' = set F \<union> tables (mem s) d is \<and> kmem_frame s t \<and>
    (\<forall>u. u \<notin> tables (mem s) d is \<longrightarrow> mem t u = mem s u)"
  using assms
proof (induction "is" arbitrary: s F)
  case Nil
  then show ?case by (auto simp: kop_simps tables_def)
next
  case (Cons i "is")
  show ?case
  proof (cases "pte_present (pde_of (mem s) d i)")
    case False
    then have "tables (mem s) d (i # is) = tables (mem s) d is" by (auto simp: tables_def)
    moreover have "inj_on (tbl (mem s) d) {i \<in> set is. pte_present (pde_of (mem s) d i)}"
      by (rule inj_on_subset [OF Cons.prems(5)]) auto
    ultimately show ?thesis
      using Cons.IH [of s F] Cons.prems False by (simp add: run_kthen run_free_table [of d i s])
  next
    case True
    let ?q = "tbl (mem s) d i"
    have q: "kpage s ?q" "?q \<noteq> d" "?q \<notin> set F" using Cons.prems(4) True by auto
    obtain u where u: "kfree ?q s = Ok () u" "free_pages u (?q # F)" "\<forall>v. v \<noteq> ?q \<longrightarrow> mem u v = mem s v" "kmem_frame s u"
      using kfree_pushes [OF Cons.prems(1,2) q(1,3)] by blast
    have pd: "pde_of (mem u) d = pde_of (mem s) d" using u(3) q(2) by (auto simp: pde_of_def)
    then have tb: "tbl (mem u) d = tbl (mem s) d" by (simp add: tbl_def fun_eq_iff)
    have ne: "j \<in> set is \<Longrightarrow> pte_present (pde_of (mem s) d j) \<Longrightarrow> tbl (mem s) d j \<noteq> ?q" for j
      using Cons.prems(3,5) True by (auto dest: inj_onD)
    have "inj_on (tbl (mem s) d) {i \<in> set is. pte_present (pde_of (mem s) d i)}"
      by (rule inj_on_subset [OF Cons.prems(5)]) auto
    then obtain t F' where t: "kfor is (free_table d) u = Ok () t"
        "free_pages t F'" "set F' = set (?q # F) \<union> tables (mem s) d is" "kmem_frame u t"
        "\<forall>v. v \<notin> tables (mem s) d is \<longrightarrow> mem t v = mem u v"
      using Cons.IH [of u "?q # F"] Cons.prems u(2) kmem_frame_eqs [OF u(4)] ne
      unfolding pd tb tables_def by auto
    have "tables (mem s) d (i # is) = insert ?q (tables (mem s) d is)"
      using True by (auto simp: tables_def)
    with t u True kmem_frame_trans [OF u(4) t(4)] show ?thesis
      by (auto simp: run_kthen run_free_table [of d i s])
  qed
qed

text \<open>Every page of an address space.\<close>

definition as_pages :: "(nat \<Rightarrow> bytes) \<Rightarrow> nat \<Rightarrow> nat set" where
  "as_pages m d = pt_pages m d \<union> upages m d 0 KERNBASE"

lemma freevm_spec:
  assumes "as_inv s d F" and "d \<noteq> 0"
  shows "\<exists>t F'. freevm d s = Ok () t \<and> free_pages t F' \<and> set F' = set F \<union> as_pages (mem s) d \<and>
    kmem_frame s t \<and> (\<forall>u. u \<notin> as_pages (mem s) d \<longrightarrow> mem t u = mem s u)"
proof -
  have "\<exists>t F'. deallocuvm_loop d 0 KERNBASE s = Ok () t \<and> dealloc_done s t d F F' 0 KERNBASE"
    by (rule deallocuvm_loop_spec [OF assms(1)]) simp_all
  then obtain t F1 where l: "deallocuvm_loop d 0 KERNBASE s = Ok () t" and dd: "dealloc_done s t d F F1 0 KERNBASE"
    by blast
  have inv: "as_inv t d F1" and fr: "kmem_frame s t" and pp: "pt_pages (mem t) d = pt_pages (mem s) d"
    using dd by (simp_all add: dealloc_done_def)
  from inv have vm: "vm_inv t d F1" and kp: "\<forall>u\<in>pt_pages (mem t) d. kpage t u" by (simp_all add: as_inv_def)
  have ok: "pgdir_ok (mem t) d" "pt_pages (mem t) d \<inter> set F1 = {}" using vm by (simp_all add: vm_inv_def)
  have dis: "u \<in> pt_pages (mem t) d \<Longrightarrow> u \<notin> set F1" for u using ok(2) by auto
  have tbs: "pt_pages (mem t) d = insert d (tables (mem t) d [0..<NPDENTRIES])"
    by (auto simp: pt_pages_def tables_def)
  have "\<exists>u F2. kfor [0..<NPDENTRIES] (free_table d) t = Ok () u \<and>
    free_pages u F2 \<and> set F2 = set F1 \<union> tables (mem t) d [0..<NPDENTRIES] \<and> kmem_frame t u \<and>
    (\<forall>v. v \<notin> tables (mem t) d [0..<NPDENTRIES] \<longrightarrow> mem u v = mem t v)"
  proof (rule free_tables)
    show "free_pages t F1" "kmem_ready t" using vm by (simp_all add: vm_inv_def)
    show "\<forall>i\<in>set [0..<NPDENTRIES]. pte_present (pde_of (mem t) d i) \<longrightarrow>
        kpage t (tbl (mem t) d i) \<and> tbl (mem t) d i \<noteq> d \<and> tbl (mem t) d i \<notin> set F1"
      using kp ok(1) dis tbl_in_pt_pages [of "mem t" d] by (auto simp: pgdir_ok_def)
    show "inj_on (tbl (mem t) d) {i \<in> set [0..<NPDENTRIES]. pte_present (pde_of (mem t) d i)}"
      using ok(1) by (auto simp: inj_on_def pgdir_ok_def)
  qed simp
  then obtain u F2 where k: "kfor [0..<NPDENTRIES] (free_table d) t = Ok () u"
    and u: "free_pages u F2" "set F2 = set F1 \<union> tables (mem t) d [0..<NPDENTRIES]" "kmem_frame t u"
      "\<forall>v. v \<notin> tables (mem t) d [0..<NPDENTRIES] \<longrightarrow> mem u v = mem t v"
    by blast
  have "d \<notin> tables (mem t) d [0..<NPDENTRIES]" using ok(1) by (auto simp: pgdir_ok_def tables_def)
  then have "d \<notin> set F2" using u(2) ok(2) tbs by auto
  moreover have "kpage u d" using kp tbs kmem_frame_eqs(8) [OF u(3)] by simp
  moreover have "kmem_ready u" using vm kmem_frame_eqs [OF u(3)] by (simp add: vm_inv_def)
  ultimately obtain w where w: "kfree d u = Ok () w" "free_pages w (d # F2)" "\<forall>v. v \<noteq> d \<longrightarrow> mem w v = mem u v" "kmem_frame u w"
    using kfree_pushes [OF u(1)] by blast
  have "freevm d s = Ok () w"
    using assms(2) l k w(1) by (simp add: freevm_def deallocuvm_def PGROUNDUP_def kop_simps del: kfor.simps upt_Suc)
  moreover have "set (d # F2) = set F \<union> as_pages (mem s) d"
    using u(2) dd tbs pp by (auto simp: dealloc_done_def as_pages_def)
  moreover have "kmem_frame s w" using fr u(3) w(4) kmem_frame_trans by blast
  moreover have "\<forall>v. v \<notin> as_pages (mem s) d \<longrightarrow> mem w v = mem s v"
  proof (intro allI impI)
    fix v assume v: "v \<notin> as_pages (mem s) d"
    then have "v \<noteq> d" "v \<notin> tables (mem t) d [0..<NPDENTRIES]"
      using tbs pp by (auto simp: as_pages_def)
    then show "mem w v = mem s v" using v w(3) u(4) dd by (simp add: dealloc_done_def as_pages_def)
  qed
  ultimately show ?thesis using w(2) by blast
qed

text \<open>
  C23. \<open>freevm\<close> gives back every page of an address space in order, user pages, page tables and
  directory, each exactly once, and touches no other page.
\<close>

theorem freevm_frees_all:
  assumes "as_inv s d F" and "d \<noteq> 0"
  shows "\<exists>t F'. freevm d s = Ok () t \<and> free_pages t F' \<and> set F' = set F \<union> as_pages (mem s) d \<and>
    kmem_frame s t \<and> (\<forall>u. u \<notin> as_pages (mem s) d \<longrightarrow> mem t u = mem s u)"
  by (rule freevm_spec [OF assms])

section \<open>Copying an address space\<close>

text \<open>
  The pages below \<open>n\<close> of \<open>d\<close> are copies of those of \<open>p\<close> in memory \<open>m\<close>, with the same flags.
\<close>

definition copied :: "(nat \<Rightarrow> bytes) \<Rightarrow> nat \<Rightarrow> 'z kmem_scheme \<Rightarrow> nat \<Rightarrow> nat \<Rightarrow> bool" where
  "copied m p s d n \<longleftrightarrow> (\<forall>va<n. pte_present (pte_of (mem s) d va) \<and>
     PTE_FLAGS (pte_of (mem s) d va) = PTE_FLAGS (pte_of m p va) \<and>
     mem s (upage (mem s) d va) = m (upage m p va))"

text \<open>Mapping one new page into an address space in order keeps it in order.\<close>

lemma as_inv_map:
  assumes inv: "as_inv s d F" and q: "kpage s q" "q \<notin> pt_pages (mem s) d" "q \<notin> set F"
    "\<forall>va<KERNBASE. pte_present (pte_of (mem s) d va) \<longrightarrow> upage (mem s) d va \<noteq> q"
    and st: "vm_step s t d F F'" and a: "a < KERNBASE" "a mod PGSIZE = 0" "fl < 4096"
    and tr: "\<forall>va<W32. pte_of (mem t) d va = map_range (pte_of (mem s) d) a (Suc 0) (v2p q) fl va"
  shows "as_inv t d F'" "upage (mem t) d a = q"
proof -
  have kp: "kpage t = kpage s" using st by (simp add: vm_step_def kmem_frame_eqs)
  have sub: "set F' \<subseteq> set F" "pt_pages (mem t) d \<subseteq> pt_pages (mem s) d \<union> set F"
    using st by (auto simp: vm_step_def)
  have pte: "pte_of (mem t) d va = (if va div PGSIZE = a div PGSIZE then v2p q OR fl OR PTE_P else pte_of (mem s) d va)"
    if "va < W32" for va
    using tr that by (simp add: map_range_Suc map_range_def in_pages_def)
  have qa: "v2p q mod PGSIZE = 0" "q < W32" "v2p q \<noteq> 0" "fl OR PTE_P < 4096"
    using q(1) a(3) or_less_page [of fl 1] by (auto simp: kpage_def v2p_high)
  have new: "upage (mem t) d va = q" "PTE_ADDR (pte_of (mem t) d va) = v2p q" if "va div PGSIZE = a div PGSIZE" "va < W32" for va
    using pte [OF that(2)] that(1) qa by (simp_all add: upage_def)
  have old: "upage (mem t) d va = upage (mem s) d va" "pte_of (mem t) d va = pte_of (mem s) d va"
    if "va div PGSIZE \<noteq> a div PGSIZE" "va < W32" for va
    using pte [OF that(2)] that(1) by (simp_all add: upage_def)
  show "upage (mem t) d a = q" using new(1) a(1) by simp
  show "as_inv t d F'"
    unfolding as_inv_def
  proof (intro conjI ballI allI impI)
    show "vm_inv t d F'" using st by (simp add: vm_step_def)
  next
    fix u assume "u \<in> pt_pages (mem t) d"
    moreover have "u \<in> set F \<Longrightarrow> kpage s u" for u using inv free_pages_ok [of s F] by (auto simp: as_inv_def vm_inv_def)
    ultimately show "kpage t u" using inv sub(2) kp by (auto simp: as_inv_def)
  next
    fix va assume va: "va < KERNBASE" "pte_present (pte_of (mem t) d va)"
    have w: "va < W32" using va(1) by simp
    have "PTE_ADDR (pte_of (mem t) d va) \<noteq> 0 \<and> kpage t (upage (mem t) d va) \<and>
        upage (mem t) d va \<notin> pt_pages (mem s) d \<and> upage (mem t) d va \<notin> set F"
    proof (cases "va div PGSIZE = a div PGSIZE")
      case True
      then show ?thesis using new [OF _ w] q qa kp by simp
    next
      case False
      then show ?thesis using old [OF False w] as_invD [OF inv va(1)] va(2) kp by simp
    qed
    then show "PTE_ADDR (pte_of (mem t) d va) \<noteq> 0" "kpage t (upage (mem t) d va)"
      "upage (mem t) d va \<notin> pt_pages (mem t) d \<union> set F'"
      using sub by auto
  next
    fix va wa assume va: "va < KERNBASE" "wa < KERNBASE" "pte_present (pte_of (mem t) d va) \<and>
      pte_present (pte_of (mem t) d wa) \<and> upage (mem t) d va = upage (mem t) d wa"
    then have w: "va < W32" "wa < W32" by simp_all
    show "va div PGSIZE = wa div PGSIZE"
    proof (cases "va div PGSIZE = a div PGSIZE"; cases "wa div PGSIZE = a div PGSIZE")
      assume "va div PGSIZE = a div PGSIZE" "wa div PGSIZE \<noteq> a div PGSIZE"
      then show ?thesis using new(1) [OF _ w(1)] old [OF _ w(2)] q(4) va by auto
    next
      assume "va div PGSIZE \<noteq> a div PGSIZE" "wa div PGSIZE = a div PGSIZE"
      then show ?thesis using new(1) [OF _ w(2)] old [OF _ w(1)] q(4) va by auto
    next
      assume "va div PGSIZE \<noteq> a div PGSIZE" "wa div PGSIZE \<noteq> a div PGSIZE"
      then show ?thesis using old [OF _ w(1)] old [OF _ w(2)] as_inv_inj [OF inv va(1,2)] va(3) by simp
    qed simp
  qed
qed

lemma mappages_one:
  assumes "vm_inv s d F" "a mod PGSIZE = 0" "a + PGSIZE \<le> W32" "pa < W32" "perm < 4096"
    "\<not> pte_present (pte_of (mem s) d a)"
  shows "(F = [] \<and> mappages d a PGSIZE pa perm s = Ok (-1) s) \<or>
    (\<exists>t F'. mappages d a PGSIZE pa perm s = Ok 0 t \<and> vm_step s t d F F' \<and>
       (\<forall>va<W32. pte_of (mem t) d va = map_range (pte_of (mem s) d) a (Suc 0) pa perm va))"
proof -
  have a: "PGROUNDDOWN a = a" "PGROUNDDOWN ((a + PGSIZE + (W32 - 1)) mod W32) = a"
  proof -
    show "PGROUNDDOWN a = a" using assms(2) by (simp add: PGROUNDDOWN_def)
    have "(a + PGSIZE + (W32 - 1)) mod W32 = a + 4095" using assms(3) by (simp add: mod_if)
    moreover have "(a + 4095) div PGSIZE = a div PGSIZE"
      by (rule aligned_page [OF assms(2)]) simp_all
    ultimately show "PGROUNDDOWN ((a + PGSIZE + (W32 - 1)) mod W32) = a"
      using assms(2) by (simp add: PGROUNDDOWN_div mod_eq_0_iff_dvd)
  qed
  obtain n where n: "1048576 = Suc n" by (metis not0_implies_Suc zero_neq_numeral)
  have run: "mappages d a PGSIZE pa perm s = mappages_loop (Suc n) d a a pa perm s"
    unfolding mappages_def a n ..
  have v: "pa OR perm OR PTE_P < W32" using assms(4,5) by (intro or_less_W32) auto
  have aw: "a < W32" using assms(3) by simp
  show ?thesis
    using map_one [OF assms(1) aw assms(6) v]
  proof (elim disjE exE conjE)
    fix pte t u F'
    assume "walkpgdir d a True s = Ok (Some pte) t" "\<not> pte_present (get_pte t pte)"
      "u = set_pte pte (pa OR perm OR PTE_P) t" "vm_step s u d F F'"
      "\<forall>wa<W32. pte_of (mem u) d wa = (if wa div PGSIZE = a div PGSIZE then pa OR perm OR PTE_P else pte_of (mem s) d wa)"
    then show ?thesis
      unfolding run
      by (intro disjI2 exI [of _ u] exI [of _ F'])
        (simp add: kop_simps map_range_Suc map_range_def in_pages_def)
  qed (simp_all add: run kop_simps)
qed

text \<open>A page taken off the free list may be filled: it belongs to no address space.\<close>

lemma as_inv_pop:
  assumes inv: "as_inv s d (q # F)" and t: "free_pages t F" "mem t = mem s" "kmem_frame s t"
    and t'_def: "t' = t\<lparr>mem := (mem t)(q := b)\<rparr>"
  shows "as_inv t' d F" "kpage t' q" "q \<notin> pt_pages (mem t') d" "q \<notin> set F"
    "\<forall>va<KERNBASE. pte_present (pte_of (mem t') d va) \<longrightarrow> upage (mem t') d va \<noteq> q"
    "pte_of (mem t') d = pte_of (mem s) d" "pt_pages (mem t') d = pt_pages (mem s) d"
proof -
  from inv have fp: "free_pages s (q # F)" and rd: "kmem_ready s" and ok: "pgdir_ok (mem s) d"
    and dis: "q \<notin> pt_pages (mem s) d" "pt_pages (mem s) d \<inter> set F = {}"
    by (auto simp: as_inv_def vm_inv_def)
  show q: "q \<notin> set F" using free_pages_ok [OF fp] by simp
  have m: "mem t' = (mem s)(q := b)" by (simp add: t'_def t(2))
  have eqs: "pte_of (mem t') d = pte_of (mem s) d" "pt_pages (mem t') d = pt_pages (mem s) d"
      "pgdir_ok (mem t') d = pgdir_ok (mem s) d"
    by (rule pt_cong; use dis in \<open>auto simp: m\<close>)+
  have up: "upage (mem t') d = upage (mem s) d" by (simp add: upage_def fun_eq_iff eqs)
  have kf: "kmem_frame s t'" unfolding t'_def using t(3) by (rule kmem_frame_mem)
  have kp: "kpage t' = kpage s" using kf by (simp add: kmem_frame_eqs)
  have "free_pages t' F"
    using t(1) q unfolding free_pages_def kp kmem_frame_eqs(8) [OF t(3)] by (simp add: t'_def)
  moreover have "kmem_ready t'" using rd kf by (simp add: kmem_frame_eqs)
  ultimately have vm: "vm_inv t' d F" using ok dis by (simp add: vm_inv_def eqs)
  show "kpage t' q" using free_pages_ok [OF fp] by (simp add: kp)
  show "q \<notin> pt_pages (mem t') d" using dis by (simp add: eqs)
  show "\<forall>va<KERNBASE. pte_present (pte_of (mem t') d va) \<longrightarrow> upage (mem t') d va \<noteq> q"
    unfolding eqs up using as_invD(4) [OF inv] by (metis list.set_intros(1))
  show "as_inv t' d F" by (rule as_inv_cong [OF inv vm _ kp eqs(1,2)]) auto
  show "pte_of (mem t') d = pte_of (mem s) d" "pt_pages (mem t') d = pt_pages (mem s) d" by (rule eqs)+
qed

text \<open>How many pages an address space takes when nothing is mapped from \<open>i\<close> on.\<close>

lemma finite_upages: "finite (upages m d 0 KERNBASE)"
  and card_upages: "i mod PGSIZE = 0 \<Longrightarrow> \<forall>va<KERNBASE. i \<le> va \<longrightarrow> \<not> pte_present (pte_of m d va) \<Longrightarrow>
    card (upages m d 0 KERNBASE) \<le> i div PGSIZE"
proof -
  have "upage m d va = upage m d (va div PGSIZE * PGSIZE)" for va
    using pte_of_page [of va "va div PGSIZE * PGSIZE" m d] by (simp add: upage_def)
  note eq = this
  have sub: "upages m d 0 KERNBASE \<subseteq> (\<lambda>k. upage m d (k * PGSIZE)) ` {..<n}"
    if "\<And>va. va < KERNBASE \<Longrightarrow> pte_present (pte_of m d va) \<Longrightarrow> va div PGSIZE < n" for n
    using that eq by (fastforce simp: upages_def)
  have "va < KERNBASE \<Longrightarrow> va div PGSIZE < KERNBASE" for va using div_le_dividend [of va PGSIZE] by linarith
  from finite_subset [OF sub [OF this]] show "finite (upages m d 0 KERNBASE)" by simp
  assume i: "i mod PGSIZE = 0" "\<forall>va<KERNBASE. i \<le> va \<longrightarrow> \<not> pte_present (pte_of m d va)"
  have "va div PGSIZE < i div PGSIZE" if "va < KERNBASE" "pte_present (pte_of m d va)" for va
  proof -
    have "va < i div PGSIZE * PGSIZE" using i that div_mult_mod_eq [of i PGSIZE] by (metis add.right_neutral not_less)
    then show ?thesis by (simp add: div_less_iff_less_mult)
  qed
  from card_mono [OF _ sub [OF this]] card_image_le [of "{..<i div PGSIZE}" "\<lambda>k. upage m d (k * PGSIZE)"]
  show "card (upages m d 0 KERNBASE) \<le> i div PGSIZE" by simp
qed

text \<open>The pages \<open>copyuvm\<close> may need: a directory, all page tables, and one page for each user page.\<close>

definition copy_need :: "nat \<Rightarrow> nat" where
  "copy_need sz = Suc NPDENTRIES + (sz + (PGSIZE - 1)) div PGSIZE"

lemma copy_short:
  assumes "distinct G" "set G \<subseteq> insert q (as_pages m d)" "i mod PGSIZE = 0" "i < sz"
    "\<forall>va<KERNBASE. i \<le> va \<longrightarrow> \<not> pte_present (pte_of m d va)"
  shows "length G \<le> copy_need sz"
proof -
  have fin: "finite (as_pages m d)" by (simp add: as_pages_def finite_upages)
  have "length G = card (set G)" using assms(1) by (simp add: distinct_card)
  also have "\<dots> \<le> card (insert q (as_pages m d))" using fin assms(2) by (intro card_mono) auto
  also have "\<dots> \<le> Suc (card (pt_pages m d \<union> upages m d 0 KERNBASE))" using fin by (simp add: card_insert_if as_pages_def)
  also have "\<dots> \<le> Suc (card (pt_pages m d) + card (upages m d 0 KERNBASE))" by (simp add: card_Un_le)
  also have "\<dots> \<le> Suc NPDENTRIES + Suc (i div PGSIZE)"
    using card_pt_pages [of m d] card_upages [OF assms(3,5)] by linarith
  also have "Suc (i div PGSIZE) \<le> (sz + (PGSIZE - 1)) div PGSIZE"
  proof -
    have "Suc (i div PGSIZE) = (i + PGSIZE) div PGSIZE" by (simp add: div_add_self2)
    also have "\<dots> \<le> (sz + (PGSIZE - 1)) div PGSIZE" using assms(4) by (intro div_le_mono) simp
    finally show ?thesis .
  qed
  finally show ?thesis by (simp add: copy_need_def)
qed

definition copy_pre :: "(nat \<Rightarrow> bytes) \<Rightarrow> nat \<Rightarrow> 'z kmem_scheme \<Rightarrow> nat \<Rightarrow> nat list \<Rightarrow> nat \<Rightarrow> bool" where
  "copy_pre m p s d F i \<longleftrightarrow> as_inv s d F \<and> d \<noteq> 0 \<and>
     (\<forall>u\<in>as_pages m p. mem s u = m u \<and> u \<notin> set F \<and> u \<notin> as_pages (mem s) d) \<and>
     copied m p s d i \<and> (\<forall>va<KERNBASE. i \<le> va \<longrightarrow> \<not> pte_present (pte_of (mem s) d va))"

lemma or_flag [simp]: "odd fl \<Longrightarrow> fl OR Suc 0 = fl"
  using or_one_eq [of fl] by simp

text \<open>One round of \<open>copyuvm\<close> with a free page to spare.\<close>

lemma copy_one:
  assumes pre: "copy_pre m p s d (q # F) i" and i: "i < sz" "sz \<le> KERNBASE" "i mod PGSIZE = 0"
    and prs: "pte_present (pte_of m p i)"
    and u: "free_pages u F" "mem u = mem s" "kmem_frame s u"
    and w: "w = u\<lparr>mem := (mem u)(q := m (upage m p i))\<rparr>"
  shows "(mappages d i PGSIZE (v2p q) (PTE_FLAGS (pte_of m p i)) w = Ok (-1) w \<and> as_inv w d F \<and> F = [] \<and> as_pages (mem w) d = as_pages (mem s) d \<and>
      (\<forall>v\<in>as_pages m p. mem w v = m v \<and> v \<notin> set F \<and> v \<notin> as_pages (mem w) d)) \<or>
    (\<exists>t F'. mappages d i PGSIZE (v2p q) (PTE_FLAGS (pte_of m p i)) w = Ok 0 t \<and> copy_pre m p t d F' (i + PGSIZE) \<and>
      kmem_frame s t \<and> set F' \<subseteq> set F \<and> set (q # F) \<union> as_pages (mem s) d \<subseteq> set F' \<union> as_pages (mem t) d)"
proof -
  let ?P = "as_pages m p"
  let ?fl = "PTE_FLAGS (pte_of m p i)"
  have inv: "as_inv s d (q # F)" using pre by (simp add: copy_pre_def)
  note pop = as_inv_pop [OF inv u(1-3) w]
  have fl: "?fl < 4096" "odd ?fl" using prs by (simp_all add: PTE_FLAGS_def odd_iff_mod_2_eq_one mod_mod_cancel)
  have qw: "v2p q < W32" "v2p q mod PGSIZE = 0" using pop(2) by (simp_all add: kpage_def)
  have up: "upage (mem w) d = upage (mem s) d" by (simp add: upage_def fun_eq_iff pop(6))
  then have ap: "as_pages (mem w) d = as_pages (mem s) d" by (simp add: as_pages_def upages_def pop(6,7))
  have P: "\<forall>v\<in>?P. mem w v = m v \<and> v \<notin> set F \<and> v \<notin> as_pages (mem w) d \<and> v \<noteq> q"
    using pre u(2) ap by (auto simp: copy_pre_def w)
  have vm: "vm_inv w d F" using pop(1) by (simp add: as_inv_def)
  have np: "\<not> pte_present (pte_of (mem w) d i)" using pre i by (simp add: copy_pre_def pop(6))
  have iw: "i < KERNBASE" "i + PGSIZE \<le> W32" using i by simp_all
  show ?thesis
    using mappages_one [OF vm i(3) iw(2) qw(1) fl(1) np]
  proof (elim disjE exE conjE)
    fix t F'
    assume run: "mappages d i PGSIZE (v2p q) ?fl w = Ok 0 t" and st: "vm_step w t d F F'"
      and tr: "\<forall>va<W32. pte_of (mem t) d va = map_range (pte_of (mem w) d) i (Suc 0) (v2p q) ?fl va"
    note am = as_inv_map [OF pop(1-5) st iw(1) i(3) fl(1) tr]
    have pte: "pte_of (mem t) d va = (if va div PGSIZE = i div PGSIZE then v2p q OR ?fl else pte_of (mem s) d va)"
      if "va < W32" for va
      using tr that fl by (simp add: map_range_Suc map_range_def in_pages_def pop(6))
    have keep: "mem t v = mem w v" if "v \<notin> pt_pages (mem t) d" for v using st that by (simp add: vm_step_def)
    have new: "va div PGSIZE = i div PGSIZE \<longleftrightarrow> i \<le> va \<and> va < i + PGSIZE" for va
      using in_pages_aligned [OF i(3), of 1 va] by (simp add: in_pages_def) linarith
    have cp: "copied m p t d (i + PGSIZE)"
      unfolding copied_def
    proof (intro allI impI)
      fix va assume va: "va < i + PGSIZE"
      then have vw: "va < W32" "va < KERNBASE + PGSIZE" using i by simp_all
      show "pte_present (pte_of (mem t) d va) \<and> PTE_FLAGS (pte_of (mem t) d va) = PTE_FLAGS (pte_of m p va) \<and>
          mem t (upage (mem t) d va) = m (upage m p va)"
      proof (cases "i \<le> va")
        case True
        then have e: "va div PGSIZE = i div PGSIZE" using va new by simp
        have "upage (mem t) d va = q" "pte_of m p va = pte_of m p i" "upage m p va = upage m p i"
          using am(2) pte_of_page [OF e] by (simp_all add: upage_def)
        moreover have "mem t q = m (upage m p i)"
        proof -
          have "q \<notin> pt_pages (mem t) d"
            using am(2) as_invD(3) [OF am(1) iw(1)] pte [of i] fl qw iw by simp
          then show ?thesis using keep by (simp add: w)
        qed
        ultimately show ?thesis using pte [OF vw(1)] e fl qw by simp
      next
        case False
        then have ne: "va div PGSIZE \<noteq> i div PGSIZE" and vi: "va < i" "va < KERNBASE" using new i by auto
        have old: "pte_of (mem t) d va = pte_of (mem s) d va" "upage (mem t) d va = upage (mem s) d va"
          using pte [OF vw(1)] ne by (simp_all add: upage_def)
        have prv: "pte_present (pte_of (mem s) d va)" "PTE_FLAGS (pte_of (mem s) d va) = PTE_FLAGS (pte_of m p va)"
            "mem s (upage (mem s) d va) = m (upage m p va)"
          using pre vi(1) by (auto simp: copy_pre_def copied_def)
        moreover have "upage (mem s) d va \<noteq> q" using as_invD(4) [OF inv vi(2) prv(1)] by auto
        moreover have "mem t (upage (mem s) d va) = mem w (upage (mem s) d va)"
          using keep as_invD(3) [OF am(1) vi(2)] prv(1) old by simp
        ultimately show ?thesis using old u(2) by (simp add: w)
      qed
    qed
    have sub: "set F' \<subseteq> set F" "pt_pages (mem t) d \<subseteq> pt_pages (mem s) d \<union> set F"
      using st by (auto simp: vm_step_def pop(7))
    have "upages (mem t) d 0 KERNBASE \<subseteq> insert q (upages (mem s) d 0 KERNBASE)"
    proof
      fix x assume "x \<in> upages (mem t) d 0 KERNBASE"
      then obtain va where "x = upage (mem t) d va" "va < KERNBASE" "pte_present (pte_of (mem t) d va)"
        by (auto simp: upages_def)
      then show "x \<in> insert q (upages (mem s) d 0 KERNBASE)"
        using pte [of va] am(2) pte_of_page [of va i "mem t" d]
        by (cases "va div PGSIZE = i div PGSIZE") (auto simp: upages_def upage_def)
    qed
    then have ap': "as_pages (mem t) d \<subseteq> as_pages (mem w) d \<union> set F \<union> {q}"
      using sub(2) unfolding ap by (auto simp: as_pages_def)
    have "\<forall>v\<in>?P. mem t v = m v \<and> v \<notin> set F' \<and> v \<notin> as_pages (mem t) d"
    proof
      fix v assume "v \<in> ?P"
      then have v: "mem w v = m v" "v \<notin> set F" "v \<notin> as_pages (mem t) d" using P ap' by auto
      then have "v \<notin> pt_pages (mem t) d" by (simp add: as_pages_def)
      with v keep sub(1) show "mem t v = m v \<and> v \<notin> set F' \<and> v \<notin> as_pages (mem t) d" by auto
    qed
    moreover have "\<not> pte_present (pte_of (mem t) d va)" if "va < KERNBASE" "i + PGSIZE \<le> va" for va
      using pte [of va] new [of va] that pre by (simp add: copy_pre_def)
    ultimately have "copy_pre m p t d F' (i + PGSIZE)"
      using am(1) cp pre by (simp add: copy_pre_def)
    moreover have "kmem_frame s t"
      using u(3) st kmem_frame_trans by (auto simp: w vm_step_def)
    moreover have "set (q # F) \<union> as_pages (mem s) d \<subseteq> set F' \<union> as_pages (mem t) d"
    proof -
      have "pte_present (pte_of (mem t) d i)" using pte [of i] fl iw(1) qw by simp
      then have "q \<in> upages (mem t) d 0 KERNBASE" using am(2) iw(1) unfolding upages_def by blast
      moreover have "upages (mem s) d 0 KERNBASE \<subseteq> upages (mem t) d 0 KERNBASE"
      proof
        fix x assume "x \<in> upages (mem s) d 0 KERNBASE"
        then obtain va where va: "x = upage (mem s) d va" "va < KERNBASE" "pte_present (pte_of (mem s) d va)"
          by (auto simp: upages_def)
        then have "va div PGSIZE \<noteq> i div PGSIZE" using np pte_of_page [of va i "mem s" d] pop(6) by auto
        then have "pte_of (mem t) d va = pte_of (mem s) d va" using pte [of va] va(2) by simp
        then have "x = upage (mem t) d va" "pte_present (pte_of (mem t) d va)" using va by (simp_all add: upage_def)
        with va(2) show "x \<in> upages (mem t) d 0 KERNBASE" unfolding upages_def by blast
      qed
      moreover have "pt_pages (mem s) d \<subseteq> pt_pages (mem t) d" "set F \<subseteq> set F' \<union> pt_pages (mem t) d"
        using st by (auto simp: vm_step_def pop(7))
      ultimately show ?thesis by (auto simp: as_pages_def)
    qed
    ultimately show ?thesis using run sub(1) by blast
  qed (use pop(1) P ap in auto)
qed

lemma copyuvm_loop_spec:
  assumes "copy_pre m p s d F i" "i mod PGSIZE = 0" "sz \<le> KERNBASE" "\<forall>va. va < sz \<longrightarrow> pte_present (pte_of m p va)"
    and "distinct G" "set G \<subseteq> set F \<union> as_pages (mem s) d"
  shows "\<exists>r t F'. copyuvm_loop p d i sz s = Ok r t \<and> free_pages t F' \<and> kmem_frame s t \<and>
    (\<forall>u\<in>as_pages m p. mem t u = m u \<and> u \<notin> set F') \<and>
    (r = 0 \<and> length G \<le> copy_need sz \<or> r = d \<and> (\<exists>j\<ge>sz. copy_pre m p t d F' j))"
  using assms
proof (induction p d i sz arbitrary: s F rule: copyuvm_loop.induct)
  case (1 p d i sz)
  note unfold = copyuvm_loop.simps [of p d i sz]
  have inv: "as_inv s d F" and P: "\<forall>u\<in>as_pages m p. mem s u = m u \<and> u \<notin> set F \<and> u \<notin> as_pages (mem s) d"
    and d: "d \<noteq> 0" and none: "\<forall>va<KERNBASE. i \<le> va \<longrightarrow> \<not> pte_present (pte_of (mem s) d va)"
    using "1.prems"(1) by (simp_all add: copy_pre_def)
  have fp: "free_pages s F" "kmem_ready s" using inv by (simp_all add: as_inv_def vm_inv_def)
  show ?case
  proof (cases "i < sz")
    case False
    then have "copyuvm_loop p d i sz s = Ok d s" by (simp add: unfold kop_simps)
    moreover have "\<exists>j\<ge>sz. copy_pre m p s d F j" using "1.prems"(1) False by (intro exI [of _ i]) simp
    ultimately show ?thesis using fp(1) P by (intro exI [of _ d] exI [of _ s] exI [of _ F]) simp
  next
    case lt: True
    have agree: "u \<in> pt_pages m p \<Longrightarrow> mem s u = m u" for u using P by (simp add: as_pages_def)
    have eq: "pde_of (mem s) p = pde_of m p" "pte_of (mem s) p = pte_of m p"
      by (rule pt_cong; erule agree)+
    have prs: "pte_present (pte_of m p i)" using "1.prems"(4) lt by simp
    then have pd: "pte_present (pde_of (mem s) p (PDX i))" using pte_of_present_table eq by metis
    note walk = walkpgdir_present [OF pd, of False] get_pte_tbl [OF pd, unfolded eq]
    have upin: "upage m p i \<in> as_pages m p"
      using prs lt "1.prems"(3) by (auto simp: as_pages_def upages_def)
    have fail: "\<exists>r t F'. kthen (freevm d) (kret 0) w = Ok r t \<and> free_pages t F' \<and> kmem_frame s t \<and>
        (\<forall>u\<in>as_pages m p. mem t u = m u \<and> u \<notin> set F') \<and> r = (0::nat)"
      if w: "as_inv w d G" "kmem_frame s w" "\<forall>u\<in>as_pages m p. mem w u = m u \<and> u \<notin> set G \<and> u \<notin> as_pages (mem w) d" for w G
    proof -
      obtain t F' where "freevm d w = Ok () t" "free_pages t F'" "set F' = set G \<union> as_pages (mem w) d"
          "kmem_frame w t" "\<forall>u. u \<notin> as_pages (mem w) d \<longrightarrow> mem t u = mem w u"
        using freevm_spec [OF w(1) d] by blast
      then show ?thesis using w(3) kmem_frame_trans [OF w(2)] by (auto simp: kop_simps)
    qed
    obtain u where u: "kalloc s = Ok (case F of [] \<Rightarrow> 0 | v # _ \<Rightarrow> v) u" "free_pages u (tl F)" "mem u = mem s" "kmem_frame s u"
      using kalloc_pops [OF fp] by blast
    show ?thesis
    proof (cases F)
      case Nil
      have vm: "vm_inv u d []"
        using inv u(2,3) Nil kmem_frame_eqs [OF u(4)] by (simp add: as_inv_def vm_inv_def)
      have "as_inv u d []"
        by (rule as_inv_cong [OF inv vm]) (use u(3) kmem_frame_eqs [OF u(4)] in simp_all)
      then obtain r t F' where "kthen (freevm d) (kret 0) u = Ok r t" "free_pages t F'" "kmem_frame s t"
        "\<forall>u\<in>as_pages m p. mem t u = m u \<and> u \<notin> set F'" "r = (0::nat)"
        using fail [of u "[]"] u(3,4) P by auto
      moreover have "length G \<le> copy_need sz"
        using copy_short [OF "1.prems"(5) _ "1.prems"(2) lt none, of d] "1.prems"(6) Nil by auto
      ultimately show ?thesis
        using lt walk prs u(1) Nil by (intro exI [of _ r] exI [of _ t] exI [of _ F']) (simp add: unfold run_kbind run_kthen run_kassert run_kget)
    next
      case (Cons q F1)
      have q0: "q \<noteq> 0" using free_pages_ok [OF fp(1)] Cons by simp
      define w where "w = u\<lparr>mem := (mem u)(q := m (upage m p i))\<rparr>"
      have frw: "kmem_frame s w" unfolding w_def using u(4) by (rule kmem_frame_mem)
      have cw: "u\<lparr>mem := (mem u)(q := mem u (p2v (PTE_ADDR (pte_of m p i))))\<rparr> = w"
        using upin P u(3) by (simp add: w_def upage_def [symmetric])
      have run: "copyuvm_loop p d i sz s = (case mappages d i PGSIZE (v2p q) (PTE_FLAGS (pte_of m p i)) w of
          Ok r t \<Rightarrow> (if r < 0 then kthen (freevm d) (kret 0) else copyuvm_loop p d (i + PGSIZE) sz) t
        | Panic e \<Rightarrow> Panic e | Switch c t \<Rightarrow> Switch c t)"
        using lt walk prs u(1) Cons q0 by (simp add: unfold run_kbind run_kthen run_kassert run_kget run_kmod cw)
      have "free_pages u F1" using u(2) Cons by simp
      from copy_one [OF "1.prems"(1) [unfolded Cons] lt "1.prems"(3,2) prs this u(3,4) w_def]
      show ?thesis
      proof (elim disjE exE conjE)
        assume "mappages d i PGSIZE (v2p q) (PTE_FLAGS (pte_of m p i)) w = Ok (-1) w" "as_inv w d F1" "F1 = []"
          "\<forall>v\<in>as_pages m p. mem w v = m v \<and> v \<notin> set F1 \<and> v \<notin> as_pages (mem w) d"
        moreover from this(3) have "length G \<le> copy_need sz"
          using copy_short [OF "1.prems"(5) _ "1.prems"(2) lt none, of q] "1.prems"(6) Cons by auto
        ultimately show ?thesis using fail [OF _ frw, of F1] run by auto
      next
        fix t F'
        assume mp: "mappages d i PGSIZE (v2p q) (PTE_FLAGS (pte_of m p i)) w = Ok 0 t"
          and t: "copy_pre m p t d F' (i + PGSIZE)" "kmem_frame s t" "set F' \<subseteq> set F1"
            "set (q # F1) \<union> as_pages (mem s) d \<subseteq> set F' \<union> as_pages (mem t) d"
        have "(i + PGSIZE) mod PGSIZE = 0" using "1.prems"(2) by simp
        moreover have "set G \<subseteq> set F' \<union> as_pages (mem t) d" using t(4) "1.prems"(6) Cons by auto
        ultimately obtain r t' F'' where "copyuvm_loop p d (i + PGSIZE) sz t = Ok r t'" "free_pages t' F''" "kmem_frame t t'"
            "\<forall>u\<in>as_pages m p. mem t' u = m u \<and> u \<notin> set F''" "r = 0 \<and> length G \<le> copy_need sz \<or> r = d \<and> (\<exists>j\<ge>sz. copy_pre m p t' d F'' j)"
          using "1.IH" [OF lt, of 1 0 t F'] t(1) "1.prems"(3-5) by auto
        then show ?thesis
          using run mp kmem_frame_trans [OF t(2)] by (intro exI [of _ r] exI [of _ t'] exI [of _ F'']) auto
      qed
    qed
  qed
qed

text \<open>The byte a user address denotes.\<close>

definition ubyte :: "(nat \<Rightarrow> bytes) \<Rightarrow> nat \<Rightarrow> nat \<Rightarrow> u8" where
  "ubyte m d va = m (upage m d va) (va mod PGSIZE)"

lemma as_pages_cong:
  assumes "\<And>u. u \<in> pt_pages m d \<Longrightarrow> m' u = m u"
  shows "as_pages m' d = as_pages m d"
  using pt_cong [of m d m', OF assms] by (simp add: as_pages_def upages_def upage_def)

text \<open>Changes of the state outside an address space.\<close>

lemma as_inv_other:
  assumes inv: "as_inv s d F" and f: "free_pages t F'" "kmem_ready t" "kpage t = kpage s"
    and same: "\<And>u. u \<in> as_pages (mem s) d \<Longrightarrow> mem t u = mem s u \<and> u \<notin> set F'"
  shows "as_inv t d F'" "as_pages (mem t) d = as_pages (mem s) d" "pte_of (mem t) d = pte_of (mem s) d"
proof -
  have pt: "\<And>u. u \<in> pt_pages (mem s) d \<Longrightarrow> mem t u = mem s u" using same by (simp add: as_pages_def)
  have eqs: "pte_of (mem t) d = pte_of (mem s) d" "pt_pages (mem t) d = pt_pages (mem s) d" "pgdir_ok (mem t) d = pgdir_ok (mem s) d"
    by (rule pt_cong; erule pt)+
  show ap: "as_pages (mem t) d = as_pages (mem s) d" by (rule as_pages_cong) (erule pt)
  show "pte_of (mem t) d = pte_of (mem s) d" by (rule eqs(1))
  have up: "upage (mem t) d = upage (mem s) d" by (simp add: upage_def fun_eq_iff eqs)
  have vm: "vm_inv t d F'"
    using inv f same by (auto simp: vm_inv_def as_inv_def eqs as_pages_def)
  have u: "upage (mem s) d va \<notin> set F'" if "va < KERNBASE" "pte_present (pte_of (mem s) d va)" for va
    using same that by (auto simp: as_pages_def upages_def)
  have "\<forall>va<KERNBASE. pte_present (pte_of (mem s) d va) \<longrightarrow>
      PTE_ADDR (pte_of (mem s) d va) \<noteq> 0 \<and> kpage s (upage (mem s) d va) \<and>
      upage (mem s) d va \<notin> pt_pages (mem s) d \<union> set F'"
    using as_invD [OF inv] u by blast
  moreover have "\<forall>u\<in>pt_pages (mem s) d. kpage s u" using inv by (simp add: as_inv_def)
  ultimately show "as_inv t d F'"
    using as_inv_inj [OF inv] vm unfolding as_inv_def eqs up f(3) by blast
qed

lemma free_pages_state: "free_pages s F \<Longrightarrow> mem t = mem s \<Longrightarrow> freelist t = freelist s \<Longrightarrow> kend t = kend s \<Longrightarrow> free_pages t F"
  by (simp add: free_pages_def kpage_def)

lemma as_inv_pages: "as_inv s d F \<Longrightarrow> u \<in> as_pages (mem s) d \<Longrightarrow> u \<notin> set F"
proof -
  assume inv: "as_inv s d F" and u: "u \<in> as_pages (mem s) d"
  have "pt_pages (mem s) d \<inter> set F = {}" using inv by (simp add: as_inv_def vm_inv_def)
  with u as_invD(4) [OF inv] show ?thesis by (auto simp: as_pages_def upages_def)
qed

lemma as_inv_state:
  assumes "as_inv s d F" "mem t = mem s" "freelist t = freelist s" "kend t = kend s" "kmem_ready t"
  shows "as_inv t d F"
proof (rule as_inv_other(1) [OF assms(1)])
  show "free_pages t F" using assms free_pages_state [of s F t] by (simp add: as_inv_def vm_inv_def)
  show "kpage t = kpage s" using assms(4) by (simp add: kpage_def fun_eq_iff)
  show "mem t u = mem s u \<and> u \<notin> set F" if "u \<in> as_pages (mem s) d" for u
    using as_inv_pages [OF assms(1) that] assms(2) by simp
qed (rule assms(5))

lemma kernel_only_as_inv:
  assumes "vm_inv t d F'" "kernel_only (mem t) d" "\<forall>u\<in>pt_pages (mem t) d. kpage t u"
  shows "as_inv t d F'" "as_pages (mem t) d = pt_pages (mem t) d"
proof -
  have z: "va < KERNBASE \<Longrightarrow> pte_of (mem t) d va = 0" for va using assms(2) by (simp add: kernel_only_def)
  then show "as_inv t d F'" using assms(1,3) unfolding as_inv_def by (metis even_zero)
  show "as_pages (mem t) d = pt_pages (mem t) d" using z by (auto simp: as_pages_def upages_def)
qed

lemma copyuvm_spec:
  assumes inv: "as_inv s p F" and link: "link_ok s" and sz: "sz \<le> KERNBASE"
    and prs: "\<forall>va. va < sz \<longrightarrow> pte_present (pte_of (mem s) p va)"
  shows "\<exists>r t F'. copyuvm p sz s = Ok r t \<and> free_pages t F' \<and> kmem_frame s t \<and>
    (\<forall>u\<in>as_pages (mem s) p. mem t u = mem s u \<and> u \<notin> set F') \<and>
    (r = 0 \<and> length F \<le> copy_need sz \<or> r \<noteq> 0 \<and> (\<exists>j\<ge>sz. copy_pre (mem s) p t r F' j))"
proof -
  have fp: "free_pages s F" "kmem_ready s" using inv by (simp_all add: as_inv_def vm_inv_def)
  obtain d t F1 where t: "setupkvm s = Ok d t" "kmem_frame s t" "\<exists>pre. F = pre @ F1" "free_pages t F1"
      "\<forall>u. u \<notin> set F \<longrightarrow> mem t u = mem s u"
      "d \<noteq> 0 \<longrightarrow> vm_inv t d F1 \<and> pt_pages (mem t) d \<subseteq> set F \<and> set F \<subseteq> set F1 \<union> pt_pages (mem t) d \<and> kernel_only (mem t) d"
      "d = 0 \<longrightarrow> length F \<le> Suc NPDENTRIES"
    using setupkvm_spec [OF fp link] by blast
  have dis: "u \<in> as_pages (mem s) p \<Longrightarrow> u \<notin> set F" for u
    using inv as_invD(4) [OF inv] by (auto simp: as_pages_def upages_def as_inv_def vm_inv_def)
  have keep: "\<forall>u\<in>as_pages (mem s) p. mem t u = mem s u \<and> u \<notin> set F1"
    using dis t(3,5) by auto
  show ?thesis
  proof (cases "d = 0")
    case True
    then show ?thesis
      using t(1,2,4,7) keep by (intro exI [of _ 0] exI [of _ t] exI [of _ F1]) (simp add: copyuvm_def kop_simps copy_need_def)
  next
    case False
    with t(6) have d: "vm_inv t d F1" "pt_pages (mem t) d \<subseteq> set F" "kernel_only (mem t) d" "set F \<subseteq> set F1 \<union> pt_pages (mem t) d"
      by simp_all
    have "\<forall>u\<in>pt_pages (mem t) d. kpage t u"
      using d(2) free_pages_ok [OF fp(1)] kmem_frame_eqs(8) [OF t(2)] by auto
    note ai = kernel_only_as_inv [OF d(1,3) this]
    have "copy_pre (mem s) p t d F1 0"
      using ai keep False d(2,3) dis by (auto simp: copy_pre_def copied_def kernel_only_def)
    moreover have "set F \<subseteq> set F1 \<union> as_pages (mem t) d" using d(4) by (auto simp: as_pages_def)
    ultimately obtain r u F' where "copyuvm_loop p d 0 sz t = Ok r u" "free_pages u F'" "kmem_frame t u"
        "\<forall>v\<in>as_pages (mem s) p. mem u v = mem s v \<and> v \<notin> set F'" "r = 0 \<and> length F \<le> copy_need sz \<or> r = d \<and> (\<exists>j\<ge>sz. copy_pre (mem s) p u d F' j)"
      using copyuvm_loop_spec [of "mem s" p t d F1 0 sz F] sz prs free_pages_ok [OF fp(1)] by auto
    then show ?thesis
      using t(1) False kmem_frame_trans [OF t(2)]
      by (intro exI [of _ r] exI [of _ u] exI [of _ F']) (auto simp: copyuvm_def run_kbind)
  qed
qed

text \<open>
  C22. \<open>copyuvm\<close> of an address space in order never panics and leaves the parent's tables and pages
  as they were.  With more than \<open>copy_need sz\<close> free pages, a directory, 1024 page tables and one page for each
  user page, it succeeds.  When it succeeds it returns a second address space in order, which shares no page with the
  parent and in which every user address below \<open>sz\<close> holds the parent's byte under the parent's permissions.
\<close>

theorem copyuvm_copies:
  assumes "as_inv s p F" and "link_ok s" and "sz \<le> KERNBASE"
    and "\<forall>va. va < sz \<longrightarrow> pte_present (pte_of (mem s) p va)"
  shows "\<exists>r t F'. copyuvm p sz s = Ok r t \<and> (\<forall>u\<in>as_pages (mem s) p. mem t u = mem s u) \<and>
    (copy_need sz < length F \<longrightarrow> r \<noteq> 0) \<and>
    (r \<noteq> 0 \<longrightarrow> as_inv t r F' \<and> as_pages (mem t) r \<inter> as_pages (mem t) p = {} \<and>
       (\<forall>va. va < sz \<longrightarrow> pte_present (pte_of (mem t) r va) \<and> ubyte (mem t) r va = ubyte (mem s) p va \<and>
          PTE_FLAGS (pte_of (mem t) r va) = PTE_FLAGS (pte_of (mem s) p va)))"
proof -
  obtain r t F' where t: "copyuvm p sz s = Ok r t" "\<forall>u\<in>as_pages (mem s) p. mem t u = mem s u \<and> u \<notin> set F'"
      "r = 0 \<and> length F \<le> copy_need sz \<or> r \<noteq> 0 \<and> (\<exists>j\<ge>sz. copy_pre (mem s) p t r F' j)"
    using copyuvm_spec [OF assms] by blast
  have "as_pages (mem t) p = as_pages (mem s) p"
    by (rule as_pages_cong) (use t(2) in \<open>simp add: as_pages_def\<close>)
  with t show ?thesis
    by (intro exI [of _ r] exI [of _ t] exI [of _ F']) (auto simp: copy_pre_def copied_def ubyte_def)
qed

section \<open>Copying to user memory\<close>

lemma uva2ka_user:
  assumes "pte_present (pte_of (mem s) d va)" "bit (pte_of (mem s) d va) 2"
  shows "uva2ka d va s = Ok (upage (mem s) d va) s"
proof -
  note pd = pte_of_present_table [OF assms(1)]
  show ?thesis
    using assms walkpgdir_present [OF pd, of False] get_pte_tbl [OF pd]
    by (simp add: uva2ka_def kop_simps upage_def)
qed

text \<open>Writing a user page keeps the address space, and changes the bytes of that page only.\<close>

lemma write_upage:
  assumes inv: "as_inv s d F" and a: "a < KERNBASE" "pte_present (pte_of (mem s) d a)"
    and t: "t = s\<lparr>mem := (mem s)(upage (mem s) d a := b)\<rparr>"
  shows "as_inv t d F" "pte_of (mem t) d = pte_of (mem s) d"
    "\<And>wa. wa < KERNBASE \<Longrightarrow> pte_present (pte_of (mem s) d wa) \<Longrightarrow>
      ubyte (mem t) d wa = (if wa div PGSIZE = a div PGSIZE then b (wa mod PGSIZE) else ubyte (mem s) d wa)"
proof -
  let ?q = "upage (mem s) d a"
  have q: "?q \<notin> pt_pages (mem s) d" "?q \<notin> set F" using as_invD [OF inv a] by simp_all
  have m: "mem t = (mem s)(?q := b)" by (simp add: t)
  have eqs: "pte_of (mem t) d = pte_of (mem s) d" "pt_pages (mem t) d = pt_pages (mem s) d"
      "pgdir_ok (mem t) d = pgdir_ok (mem s) d"
    by (rule pt_cong; use q in \<open>auto simp: m\<close>)+
  show "pte_of (mem t) d = pte_of (mem s) d" by (rule eqs)
  have kf: "kmem_frame s t" unfolding t by (rule kmem_frame_mem) simp
  have "free_pages t F"
    using inv q(2) unfolding as_inv_def vm_inv_def free_pages_def kmem_frame_eqs(8) [OF kf] by (simp add: t)
  then have "vm_inv t d F"
    using inv kmem_frame_eqs(7) [OF kf] by (simp add: as_inv_def vm_inv_def eqs)
  then show "as_inv t d F"
    by (rule as_inv_cong [OF inv _ subset_refl kmem_frame_eqs(8) [OF kf] eqs(1,2)])
  fix wa assume wa: "wa < KERNBASE" "pte_present (pte_of (mem s) d wa)"
  have up: "upage (mem t) d wa = upage (mem s) d wa" by (simp add: upage_def eqs)
  show "ubyte (mem t) d wa = (if wa div PGSIZE = a div PGSIZE then b (wa mod PGSIZE) else ubyte (mem s) d wa)"
  proof (cases "wa div PGSIZE = a div PGSIZE")
    case True
    then have "upage (mem s) d wa = ?q" using pte_of_page [OF True] by (simp add: upage_def)
    with True show ?thesis unfolding ubyte_def up by (simp add: m)
  next
    case False
    then have "upage (mem s) d wa \<noteq> ?q" using as_inv_inj [OF inv wa(1) a(1) wa(2) a(2)] by blast
    with False show ?thesis unfolding ubyte_def up by (simp add: m)
  qed
qed

text \<open>The bytes of \<open>[va, va + length p)\<close> are writable by \<open>copyout\<close>.\<close>

definition user_range :: "(nat \<Rightarrow> bytes) \<Rightarrow> nat \<Rightarrow> nat \<Rightarrow> nat \<Rightarrow> bool" where
  "user_range m d va n \<longleftrightarrow> va + n \<le> KERNBASE \<and>
     (\<forall>wa. va \<le> wa \<and> wa < va + n \<longrightarrow> pte_present (pte_of m d wa) \<and> bit (pte_of m d wa) 2)"

text \<open>
  C24. \<open>copyout\<close> into mapped user memory returns 0, stores the bytes at \<open>va\<close> onwards, across page
  boundaries, and changes no other byte of the address space.
\<close>

theorem copyout_writes:
  assumes "as_inv s d F" and "user_range (mem s) d va (length p)"
  shows "\<exists>t. copyout d va p s = Ok 0 t \<and> as_inv t d F \<and> pte_of (mem t) d = pte_of (mem s) d \<and>
    (\<forall>wa. wa < KERNBASE \<and> pte_present (pte_of (mem s) d wa) \<longrightarrow>
       ubyte (mem t) d wa = (if va \<le> wa \<and> wa < va + length p then p ! (wa - va) else ubyte (mem s) d wa))"
  using assms
proof (induction d va p arbitrary: s rule: copyout.induct)
  case (1 d va p)
  show ?case
  proof (cases "p = []")
    case True
    then have "copyout d va p s = Ok 0 s" by (simp add: copyout.simps [of d va "[]"] kop_simps)
    with True "1.prems"(1) show ?thesis by auto
  next
    case ne: False
    define va0 n where "va0 = PGROUNDDOWN va" and "n = min (PGSIZE - (va - va0)) (length p)"
    have v0: "va0 = va div PGSIZE * PGSIZE" "va0 \<le> va" "va - va0 = va mod PGSIZE" "va0 div PGSIZE = va div PGSIZE"
      by (simp_all add: va0_def PGROUNDDOWN_div minus_mult_div_eq_mod mult.commute)
    have n: "0 < n" "n \<le> length p" "va mod PGSIZE + n \<le> PGSIZE" using ne by (auto simp: n_def v0(3))
    have fits: "va + n \<le> va0 + PGSIZE" using n(3) v0(2,3) by linarith
    have top: "va + length p \<le> KERNBASE" using "1.prems"(2) by (simp add: user_range_def)
    have pv: "pte_present (pte_of (mem s) d va)" "bit (pte_of (mem s) d va) 2"
      using "1.prems"(2) ne by (auto simp: user_range_def)
    have same: "pte_of (mem s) d va0 = pte_of (mem s) d va" by (rule pte_of_page) (rule v0(4))
    let ?q = "upage (mem s) d va0"
    have v0k: "va0 < KERNBASE" using v0(2) top ne by (cases p) auto
    have uk: "uva2ka d va0 s = Ok ?q s" using uva2ka_user [of s d va0] pv same by simp
    have q0: "?q \<noteq> 0" using as_invD(2) [OF "1.prems"(1) v0k] pv same by (auto simp: kpage_def)
    define t where "t = s\<lparr>mem := (mem s)(?q := blit (mem s ?q) (va - va0) (take n p))\<rparr>"
    have pv0: "pte_present (pte_of (mem s) d va0)" using pv(1) same by simp
    note w = write_upage [OF "1.prems"(1) v0k pv0 t_def]
    have nxt: "(va0 + PGSIZE) mod W32 = va0 + PGSIZE" using v0k by simp
    have v0n: "va0 + PGSIZE \<le> KERNBASE"
    proof -
      have "k * PGSIZE < KERNBASE \<Longrightarrow> k * PGSIZE + PGSIZE \<le> KERNBASE" for k :: nat by simp
      then show ?thesis using v0k unfolding v0(1) by blast
    qed
    have full: "va0 + PGSIZE = va + n" if "n < length p"
    proof -
      have "n = PGSIZE - (va - va0)" using that by (simp add: n_def)
      moreover have "va - va0 < PGSIZE" by (simp add: v0(3))
      ultimately show ?thesis using v0(2) by linarith
    qed
    have ur: "user_range (mem t) d (va0 + PGSIZE) (length (drop n p))"
      using "1.prems"(2) full v0n n(2) unfolding user_range_def w(2) by (cases "n < length p") auto
    obtain u where u: "copyout d (va0 + PGSIZE) (drop n p) t = Ok 0 u" "as_inv u d F" "pte_of (mem u) d = pte_of (mem t) d"
        "\<forall>wa. wa < KERNBASE \<and> pte_present (pte_of (mem t) d wa) \<longrightarrow> ubyte (mem u) d wa =
           (if va0 + PGSIZE \<le> wa \<and> wa < va0 + PGSIZE + length (drop n p) then drop n p ! (wa - (va0 + PGSIZE)) else ubyte (mem t) d wa)"
      using "1.IH" [OF ne va0_def n_def q0, unfolded nxt, OF w(1) ur] by blast
    have "copyout d va p s = Ok 0 u"
      using ne uk q0 u(1) nxt by (simp add: copyout.simps [of d va p] kop_simps Let_def va0_def [symmetric] n_def [symmetric] t_def)
    moreover have "ubyte (mem u) d wa = (if va \<le> wa \<and> wa < va + length p then p ! (wa - va) else ubyte (mem s) d wa)"
      if wa: "wa < KERNBASE" "pte_present (pte_of (mem s) d wa)" for wa
    proof (cases "wa div PGSIZE = va div PGSIZE")
      case True
      then have wv: "wa = va0 + wa mod PGSIZE" "wa < va0 + PGSIZE"
        using div_mult_mod_eq [of wa PGSIZE] v0(1) by simp_all
      have vv: "va = va0 + va mod PGSIZE" using v0(2,3) by simp
      have "ubyte (mem u) d wa = blit (mem s ?q) (va mod PGSIZE) (take n p) (wa mod PGSIZE)"
        using u(4) wa wv(2) w(2,3) True v0(3,4) by (simp add: t_def)
      also have "\<dots> = (if va \<le> wa \<and> wa < va + n then p ! (wa - va) else mem s ?q (wa mod PGSIZE))"
      proof -
        have "wa mod PGSIZE - va mod PGSIZE = wa - va" "va mod PGSIZE \<le> wa mod PGSIZE \<longleftrightarrow> va \<le> wa"
          "wa mod PGSIZE < va mod PGSIZE + n \<longleftrightarrow> wa < va + n"
          using wv(1) vv by linarith+
        then show ?thesis using n(2) by (auto simp: blit_def)
      qed
      also have "mem s ?q (wa mod PGSIZE) = ubyte (mem s) d wa"
        using pte_of_page [of wa va0] True v0(4) by (simp add: ubyte_def upage_def)
      finally show ?thesis
        using full wv(2) n(2) by (cases "n < length p") auto
    next
      case False
      have "ubyte (mem t) d wa = ubyte (mem s) d wa" using w(3) [OF wa] False v0(4) by simp
      moreover have "\<not> (va \<le> wa \<and> wa < va0 + PGSIZE)"
        using False aligned_page [of va0 wa] v0(1,2,4) by auto
      ultimately show ?thesis
        using u(4) wa w(2) full n(2) fits by (cases "n < length p") (auto simp: algebra_simps)
    qed
    ultimately show ?thesis using u(2,3) w(2) by (intro exI [of _ u]) simp
  qed
qed

section \<open>An address space with one user page\<close>

text \<open>Pages beyond all that an address space uses may be handed to the allocator.\<close>

lemma more_pages:
  assumes inv: "as_inv s d F" and p: "p mod PGSIZE = 0" "kend s \<le> p" "KERNBASE < p" "vend \<le> KERNBASE + PHYSTOP"
    and below: "\<forall>v\<in>set F \<union> as_pages (mem s) d. v < p"
  shows "\<exists>t. freerange_loop p vend s = Ok () t \<and> as_inv t d (rev (pages_of p vend) @ F) \<and> kmem_frame s t \<and> (\<forall>v<p. mem t v = mem s v)"
proof -
  have fp: "free_pages s F" "kmem_ready s" using inv by (simp_all add: as_inv_def vm_inv_def)
  obtain t where t: "freerange_loop p vend s = Ok () t" "free_pages t (rev (pages_of p vend) @ F)" "kmem_frame s t" "\<forall>v<p. mem t v = mem s v"
    using freerange_loop_pages [OF fp p] below by blast
  have "mem t u = mem s u \<and> u \<notin> set (rev (pages_of p vend) @ F)" if u: "u \<in> as_pages (mem s) d" for u
  proof -
    have "u < p" "u \<notin> set F" using below u as_inv_pages [OF inv u] by auto
    with t(4) show ?thesis using pages_of_range [of u p vend] by auto
  qed
  note same = this
  have "kmem_ready t" "kpage t = kpage s" using fp(2) kmem_frame_eqs [OF t(3)] by simp_all
  then have "as_inv t d (rev (pages_of p vend) @ F)"
    by (intro as_inv_other(1) [OF inv t(2)]) (simp_all add: same del: set_append)
  with t show ?thesis by blast
qed

text \<open>A directory with one page mapped at address 0, and 4096 free pages to spare.\<close>

definition one_page_kmem :: kmem where
  "one_page_kmem = boot_kmem\<lparr>freelist := 0x80301000, kend := 0x80300000, kdata := 0x80200000,
     mem := (\<lambda>_ _. 0)(0x80302000 := (\<lambda>_. 0)(5 := 7))\<rparr>"

lemma one_page_space:
  "\<exists>s F. as_inv (s::kmem) 0x80300000 F \<and> link_ok s \<and> copy_need 4096 < length F \<and> ubyte (mem s) 0x80300000 5 = 7 \<and>
     (\<forall>va. va < 4096 \<longrightarrow> pte_present (pte_of (mem s) 0x80300000 va) \<and> bit (pte_of (mem s) 0x80300000 va) 2)"
proof -
  let ?s = one_page_kmem and ?d = "0x80300000 :: nat" and ?b = "0x80301000 :: nat" and ?q = "0x80302000 :: nat"
  have z: "mem ?s ?d = (\<lambda>_. 0)" by (simp add: one_page_kmem_def boot_kmem_def)
  note zp = zero_pgdir [of "mem ?s" ?d, OF z]
  have kp: "kpage ?s ?d" "kpage ?s ?b" "kpage ?s ?q"
    by (simp_all add: kpage_def v2p_high one_page_kmem_def boot_kmem_def)
  have "free_pages ?s [?b]" using kp by (simp add: free_pages_def one_page_kmem_def boot_kmem_def rd32_def)
  then have vm: "vm_inv ?s ?d [?b]"
    using zp by (simp add: vm_inv_def kmem_ready_def) (simp add: one_page_kmem_def boot_kmem_def)
  then have inv: "as_inv ?s ?d [?b]" using kp by (simp add: as_inv_def zp)
  have "v2p ?q < W32" "(6::nat) < 4096" "\<not> pte_present (pte_of (mem ?s) ?d 0)" by (simp_all add: zp)
  from mappages_one [OF vm _ _ this(1) this(2) this(3)] obtain t F' where st: "vm_step ?s t ?d [?b] F'"
    and tr: "\<forall>va<W32. pte_of (mem t) ?d va = map_range (pte_of (mem ?s) ?d) 0 (Suc 0) (v2p ?q) 6 va"
    by auto
  have ai: "as_inv t ?d F'"
    by (rule as_inv_map(1) [OF inv kp(3) _ _ _ st _ _ _ tr]) (simp_all add: zp)
  have pte: "pte_of (mem t) ?d va = (if va div PGSIZE = 0 then v2p ?q OR 7 else 0)" if "va < W32" for va
    using tr that by (simp add: map_range_def in_pages_def zp)
  have up: "upage (mem t) ?d va = ?q" if "va < PGSIZE" for va
    using pte [of va] that by (simp add: upage_def PTE_ADDR_def p2v_def v2p_high)
  have "\<exists>pre. [?b] = pre @ F'" using st by (simp add: vm_step_def)
  then have F': "set F' \<subseteq> {?b}" by (metis Un_upper2 list.simps(15) empty_set set_append)
  have "pt_pages (mem t) ?d \<subseteq> {?d} \<union> ({?b} - set F')" using st zp(3) by (simp add: vm_step_def)
  then have sub: "pt_pages (mem t) ?d \<subseteq> {?d, ?b}" by blast
  have q: "mem t ?q = mem ?s ?q"
  proof -
    have "?q \<notin> pt_pages (mem t) ?d" using sub by auto
    with st show ?thesis unfolding vm_step_def by blast
  qed
  have "upages (mem t) ?d 0 KERNBASE \<subseteq> {?q}"
    using pte up by (auto simp: upages_def div_eq_0_iff split: if_splits)
  with sub F' have "\<forall>v\<in>set F' \<union> as_pages (mem t) ?d. v < 0x80303000" by (fastforce simp: as_pages_def)
  moreover have "kend t = 0x80300000" "kdata t = 0x80200000"
    using st kmem_frame_eqs [of ?s t] by (simp_all add: vm_step_def one_page_kmem_def)
  ultimately obtain u where u: "as_inv u ?d (rev (pages_of 0x80303000 0x81303000) @ F')" "kmem_frame t u"
      "\<forall>v<0x80303000. mem u v = mem t v"
    using more_pages [OF ai, of "0x80303000" "0x81303000"] by auto
  have same: "pte_of (mem u) ?d = pte_of (mem t) ?d"
    by (rule pt_cong) (use sub u(3) in auto)
  have "ubyte (mem u) ?d 5 = 7"
    using up [of 5] u(3) q by (simp add: ubyte_def upage_def same one_page_kmem_def)
  moreover have "copy_need 4096 < length (rev (pages_of 0x80303000 0x81303000) @ F')"
    by (simp add: pages_of_def copy_need_def)
  moreover have "link_ok u" using \<open>kdata t = 0x80200000\<close> kmem_frame_eqs(5) [OF u(2)] by (simp add: link_ok_def)
  moreover have "pte_present (pte_of (mem u) ?d va) \<and> bit (pte_of (mem u) ?d va) 2" if "va < 4096" for va
    using that pte [of va] by (simp add: same v2p_high bit_or_iff)
  ultimately show ?thesis using u(1) by blast
qed

theorem copyuvm_copies_witness:
  "\<exists>(s::kmem) r t. copyuvm 0x80300000 4096 s = Ok r t \<and> r \<noteq> 0 \<and> ubyte (mem s) 0x80300000 5 = 7 \<and> ubyte (mem t) r 5 = 7"
proof -
  obtain s :: kmem and F where "as_inv s 0x80300000 F" "link_ok s" "copy_need 4096 < length F" "ubyte (mem s) 0x80300000 5 = 7"
      "\<forall>va. va < 4096 \<longrightarrow> pte_present (pte_of (mem s) 0x80300000 va)"
    using one_page_space by blast
  moreover from this copyuvm_copies [of s "0x80300000" F 4096] obtain r t where "copyuvm 0x80300000 4096 s = Ok r t" "r \<noteq> 0"
      "\<forall>va. va < 4096 \<longrightarrow> ubyte (mem t) r va = ubyte (mem s) 0x80300000 va" by auto
  ultimately show ?thesis by (intro exI [of _ s] exI [of _ r] exI [of _ t]) simp
qed

theorem freevm_frees_all_witness:
  "\<exists>(s::kmem) t F F'. freevm 0x80300000 s = Ok () t \<and> set F' = set F \<union> as_pages (mem s) 0x80300000"
proof -
  obtain s :: kmem and F where "as_inv s 0x80300000 F" using one_page_space by blast
  then show ?thesis using freevm_frees_all [of s "0x80300000" F] by auto
qed

theorem copyout_writes_witness:
  "\<exists>(s::kmem) t. copyout 0x80300000 10 [1, 2, 3] s = Ok 0 t \<and> ubyte (mem t) 0x80300000 12 = 3"
proof -
  obtain s :: kmem and F where s: "as_inv s 0x80300000 F" "\<forall>va. va < 4096 \<longrightarrow>
      pte_present (pte_of (mem s) 0x80300000 va) \<and> bit (pte_of (mem s) 0x80300000 va) 2"
    using one_page_space by blast
  then have "user_range (mem s) 0x80300000 10 (length [1, 2, 3 :: u8])" by (simp add: user_range_def)
  from copyout_writes [OF s(1) this] obtain t where t: "copyout 0x80300000 10 [1, 2, 3] s = Ok 0 t"
      "\<forall>wa. wa < KERNBASE \<and> pte_present (pte_of (mem s) 0x80300000 wa) \<longrightarrow> ubyte (mem t) 0x80300000 wa =
        (if 10 \<le> wa \<and> wa < 10 + length [1, 2, 3 :: u8] then [1, 2, 3] ! (wa - 10) else ubyte (mem s) 0x80300000 wa)"
    by blast
  from t(2) [rule_format, of 12] s(2) have "ubyte (mem t) 0x80300000 12 = 3" by simp
  with t(1) show ?thesis by blast
qed

end
