(* ===== verification/Bio.thy ===== *)
theory Bio
  imports Uvm
begin

text \<open>
  The buffer cache, \<^verbatim>\<open>src/bio.c\<close> and \<^verbatim>\<open>src/buf.h\<close>, over the disk of \<^verbatim>\<open>src/memide.c\<close>, which keeps the
  sectors in memory and completes a request at once.  A \<open>struct buf*\<close> is the index of the buffer;
  the list through \<open>prev\<close> and \<open>next\<close> is the list of indices, most recently used first (the theory
  \<open>Lru\<close> shows that the pointers implement it).  The state also records the sectors written so
  far, in order, so that the crash theorems can cut a run at any write.
\<close>

abbreviation (input) "NBUF \<equiv> (30 :: nat)"
abbreviation (input) "BSIZE \<equiv> (512 :: nat)"
abbreviation (input) "ROOTDEV \<equiv> (1 :: nat)"

datatype bflag = B_BUSY | B_VALID | B_DIRTY

record buf =
  b_flags :: "bflag set"
  b_dev :: nat
  b_sector :: nat
  b_data :: bytes

record kbio = kmem +
  disk :: "nat \<Rightarrow> bytes"
  disksize :: nat
  dwrites :: "(nat \<times> bytes) list"
  bufs :: "nat \<Rightarrow> buf"
  lru :: "nat list"

definition upd_buf :: "nat \<Rightarrow> (buf \<Rightarrow> buf) \<Rightarrow> 'z kbio_scheme \<Rightarrow> 'z kbio_scheme" where
  "upd_buf i f s = s\<lparr>bufs := (bufs s)(i := f (bufs s i))\<rparr>"

abbreviation set_data :: "nat \<Rightarrow> (bytes \<Rightarrow> bytes) \<Rightarrow> (unit, 'z kbio_scheme) kop" where
  "set_data i f \<equiv> kmod (upd_buf i (\<lambda>b. b\<lparr>b_data := f (b_data b)\<rparr>))"

abbreviation get_data :: "nat \<Rightarrow> (bytes, 'z kbio_scheme) kop" where
  "get_data i \<equiv> kget (\<lambda>s. b_data (bufs s i))"

section \<open>The disk\<close>

definition ideinit :: "(nat \<Rightarrow> bytes) \<Rightarrow> nat \<Rightarrow> (unit, 'z kbio_scheme) kop" where
  "ideinit img imgsize = kmod (\<lambda>s. s\<lparr>disk := img, disksize := imgsize div 512\<rparr>)"

definition disk_write :: "nat \<Rightarrow> bytes \<Rightarrow> 'z kbio_scheme \<Rightarrow> 'z kbio_scheme" where
  "disk_write n d s = s\<lparr>disk := (disk s)(n := d), dwrites := dwrites s @ [(n, d)]\<rparr>"

definition iderw :: "nat \<Rightarrow> (unit, 'z kbio_scheme) kop" where
  "iderw b =
     kthen (kassert (\<lambda>s. B_BUSY \<in> b_flags (bufs s b)) ''iderw: buf not busy'')
    (kthen (kassert (\<lambda>s. \<not> (B_VALID \<in> b_flags (bufs s b) \<and> B_DIRTY \<notin> b_flags (bufs s b))) ''iderw: nothing to do'')
    (kthen (kassert (\<lambda>s. b_dev (bufs s b) = 1) ''iderw: request not for disk 1'')
    (kthen (kassert (\<lambda>s. b_sector (bufs s b) < disksize s) ''iderw: sector out of range'')
    (kthen (kmod (\<lambda>s.
       if B_DIRTY \<in> b_flags (bufs s b)
       then disk_write (b_sector (bufs s b)) (b_data (bufs s b)) (upd_buf b (\<lambda>x. x\<lparr>b_flags := b_flags x - {B_DIRTY}\<rparr>) s)
       else upd_buf b (\<lambda>x. x\<lparr>b_data := disk s (b_sector x)\<rparr>) s))
           (kmod (upd_buf b (\<lambda>x. x\<lparr>b_flags := insert B_VALID (b_flags x)\<rparr>)))))))"

section \<open>The cache\<close>

text \<open>\<open>binit\<close> puts every buffer at the head of the list in turn and marks it unused (\<open>dev = -1\<close>).\<close>

definition binit :: "(unit, 'z kbio_scheme) kop" where
  "binit =
     kthen (kmod (\<lambda>s. s\<lparr>lru := []\<rparr>))
           (kfor [0..<NBUF] (\<lambda>b. kmod (\<lambda>s. upd_buf b (\<lambda>x. x\<lparr>b_dev := W32 - 1\<rparr>) (s\<lparr>lru := b # lru s\<rparr>))))"

definition bget :: "nat \<Rightarrow> nat \<Rightarrow> (nat, 'z kbio_scheme) kop" where
  "bget dev sector =
     kthen (kacquire LBcache)
    (kbind (kget (\<lambda>s. find (\<lambda>b. b_dev (bufs s b) = dev \<and> b_sector (bufs s b) = sector) (lru s))) (\<lambda>r.
     case r of
       Some b \<Rightarrow>
         kbind (kget (\<lambda>s. B_BUSY \<in> b_flags (bufs s b))) (\<lambda>busy.
         if \<not> busy
         then kthen (kmod (upd_buf b (\<lambda>x. x\<lparr>b_flags := insert B_BUSY (b_flags x)\<rparr>)))
             (kthen (krelease LBcache) (kret b))
         else sleep (ChBuf b) LBcache)
     | None \<Rightarrow>
         kbind (kget (\<lambda>s. find (\<lambda>b. B_BUSY \<notin> b_flags (bufs s b) \<and> B_DIRTY \<notin> b_flags (bufs s b)) (rev (lru s)))) (\<lambda>r.
         case r of
           Some b \<Rightarrow>
             kthen (kmod (upd_buf b (\<lambda>x. x\<lparr>b_dev := dev, b_sector := sector, b_flags := {B_BUSY}\<rparr>)))
            (kthen (krelease LBcache) (kret b))
         | None \<Rightarrow> kpanic ''bget: no buffers'')))"

definition bread :: "nat \<Rightarrow> nat \<Rightarrow> (nat, 'z kbio_scheme) kop" where
  "bread dev sector =
     kbind (bget dev sector) (\<lambda>b.
     kbind (kget (\<lambda>s. B_VALID \<in> b_flags (bufs s b))) (\<lambda>valid.
     kthen (if \<not> valid then iderw b else kret ()) (kret b)))"

definition bwrite :: "nat \<Rightarrow> (unit, 'z kbio_scheme) kop" where
  "bwrite b =
     kthen (kassert (\<lambda>s. B_BUSY \<in> b_flags (bufs s b)) ''bwrite'')
    (kthen (kmod (upd_buf b (\<lambda>x. x\<lparr>b_flags := insert B_DIRTY (b_flags x)\<rparr>)))
           (iderw b))"

definition brelse :: "nat \<Rightarrow> (unit, 'z kbio_scheme) kop" where
  "brelse b =
     kthen (kassert (\<lambda>s. B_BUSY \<in> b_flags (bufs s b)) ''brelse'')
    (kthen (kacquire LBcache)
    (kthen (kmod (\<lambda>s. s\<lparr>lru := b # remove1 b (lru s)\<rparr>))
    (kthen (kmod (upd_buf b (\<lambda>x. x\<lparr>b_flags := b_flags x - {B_BUSY}\<rparr>)))
    (kthen (wakeup (ChBuf b))
           (krelease LBcache)))))"

end
