(* ===== verification/Log.thy ===== *)
theory Log
  imports Bio
begin

text \<open>
  The redo log, \<^verbatim>\<open>src/log.c\<close>.  On disk the log is a header sector, holding the number of logged
  sectors and their home locations, followed by the sectors' contents.
\<close>

abbreviation (input) "MAXOPBLOCKS \<equiv> (10 :: nat)"
abbreviation (input) "LOGSIZE \<equiv> (30 :: nat)"

record superblock =
  sb_size :: nat
  sb_nblocks :: nat
  sb_ninodes :: nat
  sb_nlog :: nat

text \<open>\<open>lh.n\<close>, \<open>outstanding\<close> and \<open>size\<close> are C \<open>int\<close>s.\<close>

record klog = kbio +
  log_start :: nat
  log_size :: int
  log_outstanding :: int
  log_committing :: bool
  log_dev :: nat
  lh_n :: int
  lh_sector :: "nat \<Rightarrow> nat"

definition decode_sb :: "bytes \<Rightarrow> superblock" where
  "decode_sb d = \<lparr>sb_size = rd32 d 0, sb_nblocks = rd32 d 4, sb_ninodes = rd32 d 8, sb_nlog = rd32 d 12\<rparr>"

definition readsb :: "nat \<Rightarrow> (superblock, 'z kbio_scheme) kop" where
  "readsb dev =
     kbind (bread dev 1) (\<lambda>bp.
     kbind (kget (\<lambda>s. decode_sb (b_data (bufs s bp)))) (\<lambda>sb.
     kthen (brelse bp) (kret sb)))"

text \<open>A C \<open>int\<close> stored in 32 bits.\<close>

definition int_of32 :: "nat \<Rightarrow> int" where
  "int_of32 v = (if v < 2147483648 then int v else int v - 4294967296)"

definition of_int32 :: "int \<Rightarrow> nat" where
  "of_int32 i = nat (i mod 4294967296)"

section \<open>Installing and recovering\<close>

text \<open>\<open>memmove(to->data, from->data, BSIZE)\<close> copies the whole of the data.\<close>

definition copy_block :: "nat \<Rightarrow> nat \<Rightarrow> (unit, 'z klog_scheme) kop" where
  "copy_block to from = kbind (get_data from) (\<lambda>d. set_data to (\<lambda>_. d))"

definition install_one :: "nat \<Rightarrow> (unit, 'z klog_scheme) kop" where
  "install_one tail =
     kbind (kget (\<lambda>s. (log_dev s, log_start s, lh_sector s tail))) (\<lambda>(dev, start, sec).
     kbind (bread dev (start + tail + 1)) (\<lambda>lbuf.
     kbind (bread dev sec) (\<lambda>dbuf.
     kthen (copy_block dbuf lbuf)
    (kthen (bwrite dbuf)
    (kthen (brelse lbuf)
           (brelse dbuf))))))"

definition install_trans :: "(unit, 'z klog_scheme) kop" where
  "install_trans = kbind (kget (\<lambda>s. nat (lh_n s))) (\<lambda>n. kfor [0..<n] install_one)"

definition read_head :: "(unit, 'z klog_scheme) kop" where
  "read_head =
     kbind (kget (\<lambda>s. (log_dev s, log_start s))) (\<lambda>(dev, start).
     kbind (bread dev start) (\<lambda>buf.
     kbind (get_data buf) (\<lambda>d.
     kthen (kmod (\<lambda>s. s\<lparr>lh_n := int_of32 (rd32 d 0)\<rparr>))
    (kthen (kmod (\<lambda>s. s\<lparr>lh_sector := (\<lambda>i. if i < nat (lh_n s) then rd32 d (4 + 4 * i) else lh_sector s i)\<rparr>))
           (brelse buf)))))"

fun put_head :: "nat \<Rightarrow> (nat \<Rightarrow> nat) \<Rightarrow> bytes \<Rightarrow> bytes" where
  "put_head 0 sec d = d"
| "put_head (Suc i) sec d = wr32 (put_head i sec d) (4 + 4 * i) (sec i)"

definition write_head :: "(unit, 'z klog_scheme) kop" where
  "write_head =
     kbind (kget (\<lambda>s. (log_dev s, log_start s))) (\<lambda>(dev, start).
     kbind (bread dev start) (\<lambda>buf.
     kbind (kget (\<lambda>s. (lh_n s, lh_sector s))) (\<lambda>(n, sec).
     kthen (set_data buf (\<lambda>d. put_head (nat n) sec (wr32 d 0 (of_int32 n))))
    (kthen (bwrite buf)
           (brelse buf)))))"

definition recover_from_log :: "(unit, 'z klog_scheme) kop" where
  "recover_from_log =
     kthen read_head
    (kthen install_trans
    (kthen (kmod (\<lambda>s. s\<lparr>lh_n := 0\<rparr>))
           write_head))"

text \<open>
  The header is 124 bytes, so the size test of \<open>initlog\<close> passes.  \<open>log.start\<close> and \<open>log.size\<close> come
  from the superblock.
\<close>

definition initlog :: "(unit, 'z klog_scheme) kop" where
  "initlog =
     kbind (readsb ROOTDEV) (\<lambda>sb.
     kthen (kmod (\<lambda>s. s\<lparr>log_start := sub32 (sb_size sb) (sb_nlog sb), log_size := int_of32 (sb_nlog sb), log_dev := ROOTDEV\<rparr>))
           recover_from_log)"

section \<open>Transactions\<close>

definition begin_op :: "(unit, 'z klog_scheme) kop" where
  "begin_op =
     kthen (kacquire LLog)
    (kbind (kget (\<lambda>s. log_committing s)) (\<lambda>committing.
     if committing then sleep ChLog LLog
     else kbind (kget (\<lambda>s. lh_n s + (log_outstanding s + 1) * int MAXOPBLOCKS > int LOGSIZE)) (\<lambda>full.
       if full then sleep ChLog LLog
       else kthen (kmod (\<lambda>s. s\<lparr>log_outstanding := log_outstanding s + 1\<rparr>))
                  (krelease LLog))))"

definition write_log_one :: "nat \<Rightarrow> (unit, 'z klog_scheme) kop" where
  "write_log_one tail =
     kbind (kget (\<lambda>s. (log_dev s, log_start s, lh_sector s tail))) (\<lambda>(dev, start, sec).
     kbind (bread dev (start + tail + 1)) (\<lambda>to.
     kbind (bread dev sec) (\<lambda>from.
     kthen (copy_block to from)
    (kthen (bwrite to)
    (kthen (brelse from)
           (brelse to))))))"

definition write_log :: "(unit, 'z klog_scheme) kop" where
  "write_log = kbind (kget (\<lambda>s. nat (lh_n s))) (\<lambda>n. kfor [0..<n] write_log_one)"

definition commit :: "(unit, 'z klog_scheme) kop" where
  "commit =
     kbind (kget (\<lambda>s. lh_n s > 0)) (\<lambda>some.
     if some then
       kthen write_log
      (kthen write_head
      (kthen install_trans
      (kthen (kmod (\<lambda>s. s\<lparr>lh_n := 0\<rparr>))
             write_head)))
     else kret ())"

definition end_op :: "(unit, 'z klog_scheme) kop" where
  "end_op =
     kthen (kacquire LLog)
    (kthen (kmod (\<lambda>s. s\<lparr>log_outstanding := log_outstanding s - 1\<rparr>))
    (kthen (kassert (\<lambda>s. \<not> log_committing s) ''log.committing'')
    (kbind (kget (\<lambda>s. log_outstanding s = 0)) (\<lambda>do_commit.
     kthen (if do_commit then kmod (\<lambda>s. s\<lparr>log_committing := True\<rparr>) else wakeup ChLog)
    (kthen (krelease LLog)
           (if do_commit then
              kthen commit
             (kthen (kacquire LLog)
             (kthen (kmod (\<lambda>s. s\<lparr>log_committing := False\<rparr>))
             (kthen (wakeup ChLog)
                    (krelease LLog))))
            else kret ()))))))"

definition log_slot :: "'z klog_scheme \<Rightarrow> nat \<Rightarrow> nat" where
  "log_slot s sec = (case find (\<lambda>i. lh_sector s i = sec) [0..<nat (lh_n s)] of Some i \<Rightarrow> i | None \<Rightarrow> nat (lh_n s))"

definition log_write :: "nat \<Rightarrow> (unit, 'z klog_scheme) kop" where
  "log_write b =
     kthen (kassert (\<lambda>s. \<not> (lh_n s \<ge> int LOGSIZE \<or> lh_n s \<ge> log_size s - 1)) ''too big a transaction'')
    (kthen (kassert (\<lambda>s. \<not> log_outstanding s < 1) ''log_write outside of trans'')
    (kthen (kacquire LLog)
    (kbind (kget (\<lambda>s. (b_sector (bufs s b), log_slot s (b_sector (bufs s b))))) (\<lambda>(sec, i).
     kthen (kmod (\<lambda>s. s\<lparr>lh_sector := (lh_sector s)(i := sec)\<rparr>))
    (kthen (kmod (\<lambda>s. if int i = lh_n s then s\<lparr>lh_n := lh_n s + 1\<rparr> else s))
    (kthen (kmod (upd_buf b (\<lambda>x. x\<lparr>b_flags := insert B_DIRTY (b_flags x)\<rparr>)))
           (krelease LLog)))))))"

end
