(* ===== verification/Cache.thy ===== *)
theory Cache
  imports Log
begin

text \<open>
  Correctness of the buffer cache.  The relation \<open>bcf\<close> ties the buffers to the contents \<open>M\<close> of the disk
  as the file system sees them: a valid buffer holds the contents of its sector, and only the sectors in
  \<open>X\<close> differ on disk, each of them cached in a buffer that is dirty or busy.  The operations of \<^verbatim>\<open>bio.c\<close> keep
  the relation, and \<open>bread\<close> returns the contents.
\<close>

declare One_nat_def [simp del]

section \<open>The cache relation\<close>

abbreviation fbusy :: "buf \<Rightarrow> bool" where "fbusy x \<equiv> B_BUSY \<in> b_flags x"
abbreviation fvalid :: "buf \<Rightarrow> bool" where "fvalid x \<equiv> B_VALID \<in> b_flags x"
abbreviation fdirty :: "buf \<Rightarrow> bool" where "fdirty x \<equiv> B_DIRTY \<in> b_flags x"

definition uniq_sectors :: "(nat \<Rightarrow> buf) \<Rightarrow> bool" where
  "uniq_sectors B \<longleftrightarrow> (\<forall>b<NBUF. \<forall>c<NBUF. b_dev (B b) = 1 \<and> b_dev (B c) = 1 \<and> b_sector (B b) = b_sector (B c) \<longrightarrow> b = c)"

definition dirty_valid :: "(nat \<Rightarrow> buf) \<Rightarrow> bool" where
  "dirty_valid B \<longleftrightarrow> (\<forall>b<NBUF. fdirty (B b) \<longrightarrow> fvalid (B b) \<and> b_dev (B b) = 1)"

definition holds_data :: "(nat \<Rightarrow> buf) \<Rightarrow> (nat \<Rightarrow> bytes) \<Rightarrow> bool" where
  "holds_data B M \<longleftrightarrow> (\<forall>b<NBUF. b_dev (B b) = 1 \<and> fvalid (B b) \<longrightarrow> b_data (B b) = M (b_sector (B b)))"

definition pinned :: "(nat \<Rightarrow> buf) \<Rightarrow> nat \<Rightarrow> bool" where
  "pinned B n \<longleftrightarrow> (\<exists>b<NBUF. b_dev (B b) = 1 \<and> b_sector (B b) = n \<and> fvalid (B b) \<and> (fdirty (B b) \<or> fbusy (B b)))"

definition bcf :: "(nat \<Rightarrow> buf) \<Rightarrow> nat list \<Rightarrow> (nat \<Rightarrow> bytes) \<Rightarrow> (nat \<Rightarrow> bytes) \<Rightarrow> nat set \<Rightarrow> bool" where
  "bcf B l d M X \<longleftrightarrow> (distinct l \<and> set l = {..<NBUF}) \<and> uniq_sectors B \<and> dirty_valid B \<and> holds_data B M \<and>
     (\<forall>n. n \<notin> X \<longrightarrow> d n = M n) \<and> (\<forall>n\<in>X. pinned B n)"

abbreviation bc :: "'z kbio_scheme \<Rightarrow> (nat \<Rightarrow> bytes) \<Rightarrow> nat set \<Rightarrow> bool" where
  "bc s \<equiv> bcf (bufs s) (lru s) (disk s)"

lemma bcfI:
  assumes "distinct l \<and> set l = {..<NBUF}"
    and "\<And>b c. b < NBUF \<Longrightarrow> c < NBUF \<Longrightarrow> b_dev (B b) = 1 \<Longrightarrow> b_dev (B c) = 1 \<Longrightarrow> b_sector (B b) = b_sector (B c) \<Longrightarrow> b = c"
    and "\<And>b. b < NBUF \<Longrightarrow> fdirty (B b) \<Longrightarrow> fvalid (B b) \<and> b_dev (B b) = 1"
    and "\<And>b. b < NBUF \<Longrightarrow> b_dev (B b) = 1 \<Longrightarrow> fvalid (B b) \<Longrightarrow> b_data (B b) = M (b_sector (B b))"
    and "\<And>n. n \<notin> X \<Longrightarrow> d n = M n" and "\<And>n. n \<in> X \<Longrightarrow> pinned B n"
  shows "bcf B l d M X"
  using assms unfolding bcf_def uniq_sectors_def dirty_valid_def holds_data_def by (intro conjI) simp_all

lemma bcf_unique:
  assumes "bcf B l d M X" "b < NBUF" "c < NBUF" "b_dev (B b) = 1" "b_dev (B c) = 1" "b_sector (B b) = b_sector (B c)"
  shows "b = c"
proof -
  from assms(1) have "uniq_sectors B" by (simp add: bcf_def)
  with assms(2-) show ?thesis unfolding uniq_sectors_def by simp
qed

lemma bcf_data:
  assumes "bcf B l d M X" "b < NBUF" "b_dev (B b) = 1" "fvalid (B b)"
  shows "b_data (B b) = M (b_sector (B b))"
proof -
  from assms(1) have "holds_data B M" by (simp add: bcf_def)
  with assms(2-) show ?thesis unfolding holds_data_def by simp
qed

lemma bcf_disk: "bcf B l d M X \<Longrightarrow> n \<notin> X \<Longrightarrow> d n = M n"
  by (simp add: bcf_def)

lemma bcf_dirty:
  assumes "bcf B l d M X" "b < NBUF" "fdirty (B b)"
  shows "fvalid (B b) \<and> b_dev (B b) = 1"
proof -
  from assms(1) have "dirty_valid B" by (simp add: bcf_def)
  with assms(2-) show ?thesis unfolding dirty_valid_def by simp
qed

lemma bcf_lru: "bcf B l d M X \<Longrightarrow> distinct l \<and> set l = {..<NBUF}"
  by (simp add: bcf_def)

lemma bcf_X:
  assumes "bcf B l d M X" "n \<in> X"
  obtains b where "b < NBUF" "b_dev (B b) = 1" "b_sector (B b) = n" "fvalid (B b)" "fdirty (B b) \<or> fbusy (B b)"
proof -
  from assms have "pinned B n" by (simp add: bcf_def)
  then show ?thesis unfolding pinned_def using that by (elim exE conjE)
qed

lemma pinnedI:
  "b < NBUF \<Longrightarrow> b_dev (B b) = 1 \<Longrightarrow> b_sector (B b) = n \<Longrightarrow> fvalid (B b) \<Longrightarrow> fdirty (B b) \<or> fbusy (B b) \<Longrightarrow> pinned B n"
  unfolding pinned_def by (intro exI [of _ b]) simp

text \<open>A sector of \<open>X\<close> is cached by a valid buffer, so it is in no other.\<close>

lemma bcf_clean_not_X:
  assumes bcf: "bcf B l d M X" and b: "b < NBUF" "b_dev (B b) = 1"
    and clean: "\<not> fvalid (B b) \<or> \<not> fdirty (B b) \<and> \<not> fbusy (B b)"
  shows "b_sector (B b) \<notin> X"
proof
  assume "b_sector (B b) \<in> X"
  from bcf_X [OF bcf this] obtain c where c: "c < NBUF" "b_dev (B c) = 1" "b_sector (B c) = b_sector (B b)"
    "fvalid (B c)" "fdirty (B c) \<or> fbusy (B c)" .
  from bcf_unique [OF bcf c(1) b(1) c(2) b(2) c(3)] c clean show False by simp
qed

section \<open>Steps on one buffer\<close>

text \<open>Changing the flags of a buffer without losing what pins its sector.\<close>

lemma bcf_flags:
  assumes bcf: "bcf B l d M X" and b: "b < NBUF"
    and x: "x = (B b)\<lparr>b_flags := fl\<rparr>"
    and valid: "B_VALID \<in> fl \<longleftrightarrow> fvalid (B b)" and dirty: "B_DIRTY \<in> fl \<longrightarrow> fvalid (B b) \<and> b_dev (B b) = 1"
    and pin: "b_dev (B b) = 1 \<Longrightarrow> b_sector (B b) \<in> X \<Longrightarrow> B_DIRTY \<in> fl \<or> B_BUSY \<in> fl"
  shows "bcf (B(b := x)) l d M X"
proof -
  have f: "b_dev ((B(b := x)) c) = b_dev (B c)" "b_sector ((B(b := x)) c) = b_sector (B c)"
    "b_data ((B(b := x)) c) = b_data (B c)" "fvalid ((B(b := x)) c) = fvalid (B c)" for c
    using x valid by auto
  show ?thesis
  proof (rule bcfI)
    fix n assume "n \<in> X"
    from bcf_X [OF bcf this] obtain c where "c < NBUF" "b_dev (B c) = 1" "b_sector (B c) = n" "fvalid (B c)"
      "fdirty (B c) \<or> fbusy (B c)" .
    then show "pinned (B(b := x)) n" using pin x \<open>n \<in> X\<close> f by (intro pinnedI [of c]) auto
  next
    fix c assume "c < NBUF" "fdirty ((B(b := x)) c)"
    then show "fvalid ((B(b := x)) c) \<and> b_dev ((B(b := x)) c) = 1"
      unfolding f using bcf_dirty [OF bcf \<open>c < NBUF\<close>] dirty x by (cases "c = b") auto
  qed (use bcf_lru [OF bcf] bcf_disk [OF bcf] bcf_unique [OF bcf] bcf_data [OF bcf] in \<open>simp_all only: f\<close>)
qed

text \<open>Giving a clean, idle buffer to a sector that is not cached.\<close>

lemma bcf_recycle:
  assumes bcf: "bcf B l d M X" and b: "b < NBUF" "\<not> fbusy (B b)" "\<not> fdirty (B b)"
    and miss: "\<And>c. c < NBUF \<Longrightarrow> b_dev (B c) = 1 \<Longrightarrow> b_sector (B c) \<noteq> n"
    and x: "x = (B b)\<lparr>b_dev := 1, b_sector := n, b_flags := {B_BUSY}\<rparr>"
  shows "bcf (B(b := x)) l d M X"
proof (rule bcfI)
  show "distinct l \<and> set l = {..<NBUF}" by (rule bcf_lru [OF bcf])
next
  fix k assume "k \<in> X"
  from bcf_X [OF bcf this] obtain c where c: "c < NBUF" "b_dev (B c) = 1" "b_sector (B c) = k" "fvalid (B c)"
    "fdirty (B c) \<or> fbusy (B c)" .
  with b have "c \<noteq> b" by auto
  with c show "pinned (B(b := x)) k" by (intro pinnedI [of c]) auto
next
  fix c e assume "c < NBUF" "e < NBUF" "b_dev ((B(b := x)) c) = 1" "b_dev ((B(b := x)) e) = 1"
    "b_sector ((B(b := x)) c) = b_sector ((B(b := x)) e)"
  then show "c = e" using miss [of c] miss [of e] bcf_unique [OF bcf, of c e] x by (auto split: if_splits)
next
  fix c assume "c < NBUF" "fdirty ((B(b := x)) c)"
  then show "fvalid ((B(b := x)) c) \<and> b_dev ((B(b := x)) c) = 1"
    using bcf_dirty [OF bcf, of c] x by (cases "c = b") auto
next
  fix c assume "c < NBUF" "b_dev ((B(b := x)) c) = 1" "fvalid ((B(b := x)) c)"
  then show "b_data ((B(b := x)) c) = M (b_sector ((B(b := x)) c))"
    using bcf_data [OF bcf, of c] x by (cases "c = b") auto
qed (rule bcf_disk [OF bcf])

text \<open>Changing the data of a buffer that pins its sector, or filling a buffer from the disk.\<close>

lemma bcf_data_upd:
  assumes bcf: "bcf B l d M X" and b: "b < NBUF" "b_dev (B b) = 1" "b_sector (B b) = n"
    and x: "x = (B b)\<lparr>b_data := v, b_flags := fl\<rparr>" and valid: "B_VALID \<in> fl"
    and pin: "n \<in> Y \<longrightarrow> B_DIRTY \<in> fl \<or> B_BUSY \<in> fl"
    and Y: "\<And>k. k \<noteq> n \<Longrightarrow> k \<in> Y \<longleftrightarrow> k \<in> X" and dsk: "n \<notin> Y \<longrightarrow> d' n = v" "\<And>k. k \<noteq> n \<Longrightarrow> d' k = d k"
  shows "bcf (B(b := x)) l d' (M(n := v)) Y"
proof (rule bcfI)
  have f: "b_dev ((B(b := x)) c) = b_dev (B c)" "b_sector ((B(b := x)) c) = b_sector (B c)" for c
    using x by auto
  fix c e assume "c < NBUF" "e < NBUF" "b_dev ((B(b := x)) c) = 1" "b_dev ((B(b := x)) e) = 1"
    "b_sector ((B(b := x)) c) = b_sector ((B(b := x)) e)"
  then show "c = e" unfolding f by (rule bcf_unique [OF bcf])
next
  show "distinct l \<and> set l = {..<NBUF}" by (rule bcf_lru [OF bcf])
next
  fix k assume "k \<in> Y"
  show "pinned (B(b := x)) k"
  proof (cases "k = n")
    case True
    with \<open>k \<in> Y\<close> pin valid b x show ?thesis by (intro pinnedI [of b]) auto
  next
    case False
    with \<open>k \<in> Y\<close> Y have "k \<in> X" by simp
    from bcf_X [OF bcf this] obtain c where c: "c < NBUF" "b_dev (B c) = 1" "b_sector (B c) = k" "fvalid (B c)"
      "fdirty (B c) \<or> fbusy (B c)" .
    with False b have "c \<noteq> b" by auto
    with c show ?thesis by (intro pinnedI [of c]) auto
  qed
next
  fix c assume "c < NBUF" "fdirty ((B(b := x)) c)"
  then show "fvalid ((B(b := x)) c) \<and> b_dev ((B(b := x)) c) = 1"
    using bcf_dirty [OF bcf, of c] valid b x by (cases "c = b") auto
next
  fix c assume c: "c < NBUF" "b_dev ((B(b := x)) c) = 1" "fvalid ((B(b := x)) c)"
  show "b_data ((B(b := x)) c) = (M(n := v)) (b_sector ((B(b := x)) c))"
  proof (cases "c = b")
    case True
    with x b show ?thesis by simp
  next
    case False
    with c b bcf_unique [OF bcf, of c b] have "b_sector (B c) \<noteq> n" by auto
    with False c bcf_data [OF bcf, of c] show ?thesis by simp
  qed
next
  fix k assume "k \<notin> Y"
  then show "d' k = (M(n := v)) k" using dsk Y bcf_disk [OF bcf] by (cases "k = n") auto
qed

lemma bcf_perm: "bcf B l d M X \<Longrightarrow> distinct l' \<Longrightarrow> set l' = set l \<Longrightarrow> bcf B l' d M X"
  unfolding bcf_def by simp

section \<open>The operations\<close>

lemma run_upd_buf [simp]:
  "bufs (upd_buf b f s) = (bufs s)(b := f (bufs s b))" "lru (upd_buf b f s) = lru s"
  "disk (upd_buf b f s) = disk s" "disksize (upd_buf b f s) = disksize s" "dwrites (upd_buf b f s) = dwrites s"
  "held (upd_buf b f s) = held s" "ptable (upd_buf b f s) = ptable s"
  by (simp_all add: upd_buf_def)

text \<open>What a caller of \<open>bread\<close> gets: a busy, valid buffer for the sector with the contents of \<open>M\<close>.\<close>

definition got :: "(nat \<Rightarrow> buf) \<Rightarrow> (nat \<Rightarrow> buf) \<Rightarrow> nat \<Rightarrow> nat \<Rightarrow> (nat \<Rightarrow> bytes) \<Rightarrow> bool" where
  "got B B' b n M \<longleftrightarrow> b < NBUF \<and> b_dev (B' b) = 1 \<and> b_sector (B' b) = n \<and> fbusy (B' b) \<and> fvalid (B' b) \<and>
     b_data (B' b) = M n \<and> fdirty (B' b) = fdirty (B b) \<and> \<not> fbusy (B b) \<and>
     (fdirty (B b) \<longrightarrow> b_sector (B b) = n) \<and> (\<forall>c. c \<noteq> b \<longrightarrow> B' c = B c)"

definition can_read :: "(nat \<Rightarrow> buf) \<Rightarrow> nat \<Rightarrow> bool" where
  "can_read B n \<longleftrightarrow> (\<forall>b<NBUF. b_dev (B b) = 1 \<and> b_sector (B b) = n \<longrightarrow> \<not> fbusy (B b)) \<and>
     ((\<exists>b<NBUF. b_dev (B b) = 1 \<and> b_sector (B b) = n) \<or> (\<exists>b<NBUF. \<not> fbusy (B b) \<and> \<not> fdirty (B b)))"

lemma bget_spec:
  assumes bcf: "bc s M X" and lk: "LBcache \<notin> set (held s)" and can: "can_read (bufs s) n"
  shows "\<exists>b B. bget 1 n s = Ok b (s\<lparr>bufs := B\<rparr>) \<and> bcf B (lru s) (disk s) M X \<and> b < NBUF \<and>
    b_dev (B b) = 1 \<and> b_sector (B b) = n \<and> fbusy (B b) \<and> fdirty (B b) = fdirty (bufs s b) \<and> \<not> fbusy (bufs s b) \<and>
    (fdirty (bufs s b) \<longrightarrow> b_sector (bufs s b) = n) \<and> (\<forall>c. c \<noteq> b \<longrightarrow> B c = bufs s c)"
proof (cases "find (\<lambda>b. b_dev (bufs s b) = 1 \<and> b_sector (bufs s b) = n) (lru s)")
  case (Some b)
  from find_SomeD [OF Some] bcf_lru [OF bcf] have b: "b < NBUF" "b_dev (bufs s b) = 1" "b_sector (bufs s b) = n"
    by auto
  with can have nb: "\<not> fbusy (bufs s b)" unfolding can_read_def by blast
  let ?B = "(bufs s)(b := (bufs s b)\<lparr>b_flags := insert B_BUSY (b_flags (bufs s b))\<rparr>)"
  have "bget 1 n s = Ok b (s\<lparr>bufs := ?B\<rparr>)"
    using Some lk nb by (simp add: bget_def kop_simps upd_buf_def)
  moreover have "bcf ?B (lru s) (disk s) M X"
    by (rule bcf_flags [OF bcf b(1) refl]) (use bcf_dirty [OF bcf b(1)] in auto)
  ultimately show ?thesis using b nb by (intro exI [of _ b] exI [of _ ?B]) auto
next
  case None
  then have miss: "b_sector (bufs s c) \<noteq> n" if "c < NBUF" "b_dev (bufs s c) = 1" for c
    using that bcf_lru [OF bcf] by (auto simp: find_None_iff)
  with can have "\<exists>b<NBUF. \<not> fbusy (bufs s b) \<and> \<not> fdirty (bufs s b)" unfolding can_read_def by blast
  then obtain b where b0: "find (\<lambda>b. \<not> fbusy (bufs s b) \<and> \<not> fdirty (bufs s b)) (rev (lru s)) = Some b"
    using bcf_lru [OF bcf] by (cases "find (\<lambda>b. \<not> fbusy (bufs s b) \<and> \<not> fdirty (bufs s b)) (rev (lru s))")
      (auto simp: find_None_iff)
  from find_SomeD [OF b0] bcf_lru [OF bcf] have b: "b < NBUF" "\<not> fbusy (bufs s b)" "\<not> fdirty (bufs s b)" by auto
  let ?B = "(bufs s)(b := (bufs s b)\<lparr>b_dev := 1, b_sector := n, b_flags := {B_BUSY}\<rparr>)"
  have "bget 1 n s = Ok b (s\<lparr>bufs := ?B\<rparr>)"
    using None b0 lk by (simp add: bget_def kop_simps upd_buf_def)
  moreover have "bcf ?B (lru s) (disk s) M X" by (rule bcf_recycle [OF bcf b miss refl])
  ultimately show ?thesis using b by (intro exI [of _ b] exI [of _ ?B]) auto
qed

lemma bread_spec:
  assumes bcf: "bc s M X" and lk: "LBcache \<notin> set (held s)" and can: "can_read (bufs s) n"
    and n: "n < disksize s"
  shows "\<exists>b B. bread 1 n s = Ok b (s\<lparr>bufs := B\<rparr>) \<and> bcf B (lru s) (disk s) M X \<and> got (bufs s) B b n M"
proof -
  from bget_spec [OF bcf lk can] obtain b B where get: "bget 1 n s = Ok b (s\<lparr>bufs := B\<rparr>)"
    and B: "bcf B (lru s) (disk s) M X"
    and b: "b < NBUF" "b_dev (B b) = 1" "b_sector (B b) = n" "fbusy (B b)" "fdirty (B b) = fdirty (bufs s b)"
      "\<not> fbusy (bufs s b)" "fdirty (bufs s b) \<longrightarrow> b_sector (bufs s b) = n" "\<forall>c. c \<noteq> b \<longrightarrow> B c = bufs s c"
    by blast
  have rd: "bread 1 n s = kthen (if \<not> fvalid (B b) then iderw b else kret ()) (kret b) (s\<lparr>bufs := B\<rparr>)"
    by (simp only: bread_def kbind_step [where f = "bget 1 n", OF get]) (simp add: run_kbind run_kget)
  show ?thesis
  proof (cases "fvalid (B b)")
    case True
    then have "bread 1 n s = Ok b (s\<lparr>bufs := B\<rparr>)" by (simp add: rd kop_simps)
    moreover have "got (bufs s) B b n M"
      unfolding got_def using b True bcf_data [OF B b(1,2)] by simp
    ultimately show ?thesis using B by (intro exI [of _ b] exI [of _ B]) simp
  next
    case False
    with bcf_dirty [OF B b(1)] have nd: "\<not> fdirty (B b)" by blast
    from bcf_clean_not_X [OF B b(1,2)] False b have nX: "n \<notin> X" by auto
    let ?x = "(B b)\<lparr>b_data := disk s n, b_flags := insert B_VALID (b_flags (B b))\<rparr>"
    have "bread 1 n s = Ok b (s\<lparr>bufs := B(b := ?x)\<rparr>)"
      using False nd b n by (simp add: rd kop_simps iderw_def upd_buf_def)
    moreover have "bcf (B(b := ?x)) (lru s) (disk s) (M(n := disk s n)) X"
      by (rule bcf_data_upd [OF B b(1-3) refl]) (use nX in auto)
    moreover have "M(n := disk s n) = M" using bcf_disk [OF B nX] by simp
    moreover have "got (bufs s) (B(b := ?x)) b n M"
      unfolding got_def using b bcf_disk [OF B nX] by simp
    ultimately show ?thesis by (intro exI [of _ b] exI [of _ "B(b := ?x)"]) simp
  qed
qed

text \<open>Storing into a busy buffer.\<close>

lemma set_data_spec:
  assumes bcf: "bc s M X" and b: "b < NBUF" "b_dev (bufs s b) = 1" "fvalid (bufs s b)" "fbusy (bufs s b)"
  shows "bcf ((bufs s)(b := (bufs s b)\<lparr>b_data := v\<rparr>)) (lru s) (disk s) (M(b_sector (bufs s b) := v))
    (insert (b_sector (bufs s b)) X)"
  by (rule bcf_data_upd [OF bcf b(1,2) refl]) (use b in auto)

lemma bwrite_spec:
  assumes bcf: "bc s M X" and b: "b < NBUF" "b_dev (bufs s b) = 1" "fvalid (bufs s b)" "fbusy (bufs s b)"
    and n: "b_sector (bufs s b) = n" "n < disksize s"
  shows "\<exists>B. bwrite b s = Ok () (s\<lparr>disk := (disk s)(n := M n), dwrites := dwrites s @ [(n, M n)], bufs := B\<rparr>) \<and>
    bcf B (lru s) ((disk s)(n := M n)) M (X - {n}) \<and>
    B = (bufs s)(b := (bufs s b)\<lparr>b_flags := b_flags (bufs s b) - {B_DIRTY}\<rparr>)"
proof -
  let ?B = "(bufs s)(b := (bufs s b)\<lparr>b_flags := b_flags (bufs s b) - {B_DIRTY}\<rparr>)"
  have d: "b_data (bufs s b) = M n" using bcf_data [OF bcf b(1-3)] n by simp
  have fl: "insert B_VALID (F - {B_DIRTY}) = F - {B_DIRTY}" if "B_VALID \<in> F" for F
    using that by auto
  have "bwrite b s = Ok () (s\<lparr>disk := (disk s)(n := M n), dwrites := dwrites s @ [(n, M n)], bufs := ?B\<rparr>)"
    using b n d by (simp add: bwrite_def iderw_def kop_simps upd_buf_def disk_write_def fl)
  moreover have "(bufs s b)\<lparr>b_flags := b_flags (bufs s b) - {B_DIRTY}\<rparr> =
      (bufs s b)\<lparr>b_data := M n, b_flags := b_flags (bufs s b) - {B_DIRTY}\<rparr>"
    by (simp add: d [symmetric])
  then have "bcf ?B (lru s) ((disk s)(n := M n)) (M(n := M n)) (X - {n})"
    by (rule bcf_data_upd [OF bcf b(1,2) n(1)]) (use b in auto)
  ultimately show ?thesis by auto
qed

lemma brelse_spec:
  assumes bcf: "bc s M X" and b: "b < NBUF" "fbusy (bufs s b)"
    and lk: "LBcache \<notin> set (held s)" "LPtable \<notin> set (held s)"
    and pin: "b_dev (bufs s b) = 1 \<Longrightarrow> b_sector (bufs s b) \<in> X \<Longrightarrow> fdirty (bufs s b)"
  shows "\<exists>B l. brelse b s = Ok () (s\<lparr>bufs := B, lru := l, ptable := woken (ChBuf b) (ptable s)\<rparr>) \<and>
    bcf B l (disk s) M X \<and> B = (bufs s)(b := (bufs s b)\<lparr>b_flags := b_flags (bufs s b) - {B_BUSY}\<rparr>)"
proof -
  let ?B = "(bufs s)(b := (bufs s b)\<lparr>b_flags := b_flags (bufs s b) - {B_BUSY}\<rparr>)"
  have "brelse b s = Ok () (s\<lparr>bufs := ?B, lru := b # remove1 b (lru s), ptable := woken (ChBuf b) (ptable s)\<rparr>)"
    using b lk by (simp add: brelse_def kop_simps upd_buf_def)
  moreover have "bcf ?B (lru s) (disk s) M X"
    by (rule bcf_flags [OF bcf b(1) refl]) (use bcf_dirty [OF bcf b(1)] pin in auto)
  then have "bcf ?B (b # remove1 b (lru s)) (disk s) M X"
    by (rule bcf_perm) (use bcf_lru [OF bcf] b in \<open>auto simp: set_remove1_eq\<close>)
  ultimately show ?thesis by blast
qed

end
