(* ===== verification/CacheOps.thy ===== *)
theory CacheOps
  imports Cache
begin

text \<open>
  The buffer cache as its clients use it.  \<open>cfx s M X L Z\<close> extends the cache relation with the two reasons a
  buffer cannot be recycled: the dirty buffers are those of the sectors \<open>L\<close>, and the busy ones are among those
  of the sectors \<open>Z\<close>.  Each operation has a rule for its weakest precondition, so that a sequence of operations is
  proved by applying the rules in order.  \<open>stp s t ws\<close> says that the step from \<open>s\<close> to \<open>t\<close> wrote the sectors \<open>ws\<close>,
  in this order, and changed nothing but buffers, disk and sleeping processes.
\<close>

section \<open>Steps and frames\<close>

definition replay :: "(nat \<Rightarrow> bytes) \<Rightarrow> (nat \<times> bytes) list \<Rightarrow> nat \<Rightarrow> bytes" where
  "replay d ws = foldl (\<lambda>d (n, b). d(n := b)) d ws"

lemma replay_simps [simp]:
  "replay d [] = d" "replay d ((n, b) # ws) = replay (d(n := b)) ws" "replay d (us @ ws) = replay (replay d us) ws"
  by (simp_all add: replay_def)

definition only_woken :: "(nat \<Rightarrow> proc) \<Rightarrow> (nat \<Rightarrow> proc) \<Rightarrow> bool" where
  "only_woken p q \<longleftrightarrow> (\<forall>i. q i = p i \<or> p_state (p i) = SLEEPING \<and> q i = (p i)\<lparr>p_state := RUNNABLE\<rparr>)"

lemma only_woken_refl [simp]: "only_woken p p"
  by (simp add: only_woken_def)

lemma only_woken_trans:
  assumes "only_woken p q" "only_woken q r"
  shows "only_woken p r"
  unfolding only_woken_def
proof
  fix i
  from assms have "q i = p i \<or> p_state (p i) = SLEEPING \<and> q i = (p i)\<lparr>p_state := RUNNABLE\<rparr>"
    "r i = q i \<or> p_state (q i) = SLEEPING \<and> r i = (q i)\<lparr>p_state := RUNNABLE\<rparr>"
    by (simp_all add: only_woken_def)
  then show "r i = p i \<or> p_state (p i) = SLEEPING \<and> r i = (p i)\<lparr>p_state := RUNNABLE\<rparr>" by auto
qed

lemma only_woken_woken [simp]: "only_woken p (woken ch p)"
  by (simp add: only_woken_def woken_def)

definition bfr :: "'z kbio_scheme \<Rightarrow> 'z kbio_scheme \<Rightarrow> bool" where
  "bfr s t \<longleftrightarrow> (\<exists>p d w B l. t = s\<lparr>ptable := p, disk := d, dwrites := w, bufs := B, lru := l\<rparr> \<and> only_woken (ptable s) p)"

lemma bfrI: "t = s\<lparr>ptable := p, disk := d, dwrites := w, bufs := B, lru := l\<rparr> \<Longrightarrow> only_woken (ptable s) p \<Longrightarrow> bfr s t"
  unfolding bfr_def by blast

lemma bfr_refl [simp]: "bfr s s"
  by (rule bfrI [where p = "ptable s" and d = "disk s" and w = "dwrites s" and B = "bufs s" and l = "lru s"]) simp_all

lemma bfr_trans:
  assumes "bfr s t" "bfr t u"
  shows "bfr s u"
proof -
  from assms(1) obtain p d w B l where t: "t = s\<lparr>ptable := p, disk := d, dwrites := w, bufs := B, lru := l\<rparr>"
    and ow: "only_woken (ptable s) p" unfolding bfr_def by (elim exE conjE)
  from assms(2) obtain p' d' w' B' l' where u: "u = t\<lparr>ptable := p', disk := d', dwrites := w', bufs := B', lru := l'\<rparr>"
    and ow': "only_woken (ptable t) p'" unfolding bfr_def by (elim exE conjE)
  from ow' have "only_woken p p'" by (simp add: t)
  with ow have "only_woken (ptable s) p'" by (rule only_woken_trans)
  moreover have "u = s\<lparr>ptable := p', disk := d', dwrites := w', bufs := B', lru := l'\<rparr>" by (simp add: u t)
  ultimately show ?thesis by (intro bfrI)
qed

lemma bfr_eqs:
  assumes "bfr s t"
  shows "held t = held s" "curproc t = curproc s" "disksize t = disksize s" "only_woken (ptable s) (ptable t)"
  using assms unfolding bfr_def by (elim exE conjE; simp)+

definition stp :: "'z kbio_scheme \<Rightarrow> 'z kbio_scheme \<Rightarrow> (nat \<times> bytes) list \<Rightarrow> bool" where
  "stp s t ws \<longleftrightarrow> bfr s t \<and> dwrites t = dwrites s @ ws \<and> disk t = replay (disk s) ws"

lemma stp_refl [simp]: "stp s s []"
  by (simp add: stp_def)

lemma stp_trans: "stp s t us \<Longrightarrow> stp t u vs \<Longrightarrow> ws = us @ vs \<Longrightarrow> stp s u ws"
  by (auto simp: stp_def intro: bfr_trans)

lemma stp_eqs:
  assumes "stp s t ws"
  shows "held t = held s" "curproc t = curproc s" "disksize t = disksize s" "only_woken (ptable s) (ptable t)"
  using assms bfr_eqs unfolding stp_def by blast+

lemma stp_log_eqs:
  fixes s t :: "'z klog_scheme"
  assumes "stp s t ws"
  shows "log_start t = log_start s" "log_size t = log_size s" "log_outstanding t = log_outstanding s"
    "log_committing t = log_committing s" "log_dev t = log_dev s" "lh_n t = lh_n s" "lh_sector t = lh_sector s"
  using assms unfolding stp_def bfr_def by (elim exE conjE; simp)+

section \<open>The client's view of the cache\<close>

definition cfx :: "'z kbio_scheme \<Rightarrow> (nat \<Rightarrow> bytes) \<Rightarrow> nat set \<Rightarrow> nat set \<Rightarrow> nat set \<Rightarrow> bool" where
  "cfx s M X L Z \<longleftrightarrow> bc s M X \<and> L \<subseteq> X \<and>
     (\<forall>b<NBUF. fdirty (bufs s b) \<longleftrightarrow> b_dev (bufs s b) = 1 \<and> b_sector (bufs s b) \<in> L) \<and>
     (\<forall>b<NBUF. fbusy (bufs s b) \<longrightarrow> b_dev (bufs s b) = 1 \<and> fvalid (bufs s b) \<and> b_sector (bufs s b) \<in> Z) \<and>
     LBcache \<notin> set (held s) \<and> LPtable \<notin> set (held s)"

text \<open>The caller owns the busy buffer \<open>b\<close> of the sector \<open>n\<close>.\<close>

definition owns :: "'z kbio_scheme \<Rightarrow> nat \<Rightarrow> nat \<Rightarrow> bool" where
  "owns s b n \<longleftrightarrow> b < NBUF \<and> b_dev (bufs s b) = 1 \<and> b_sector (bufs s b) = n \<and> fbusy (bufs s b) \<and> fvalid (bufs s b)"

text \<open>A step leaves the buffers others own as they are.\<close>

definition kept :: "'z kbio_scheme \<Rightarrow> 'z kbio_scheme \<Rightarrow> bool" where
  "kept s t \<longleftrightarrow> (\<forall>c<NBUF. fbusy (bufs s c) \<longrightarrow> bufs t c = bufs s c)"

lemma kept_refl [simp]: "kept s s"
  by (simp add: kept_def)

lemma kept_owns: "kept s t \<Longrightarrow> owns s b n \<Longrightarrow> owns t b n \<and> bufs t b = bufs s b"
  by (auto simp: kept_def owns_def)

lemma kept_trans: "kept s t \<Longrightarrow> kept t u \<Longrightarrow> kept s u"
  unfolding kept_def by metis

lemma cfx_bc: "cfx s M X L Z \<Longrightarrow> bc s M X"
  by (simp add: cfx_def)

lemma cfx_locks: "cfx s M X L Z \<Longrightarrow> LBcache \<notin> set (held s) \<and> LPtable \<notin> set (held s)"
  by (simp add: cfx_def)

lemma cfx_dirty: "cfx s M X L Z \<Longrightarrow> b < NBUF \<Longrightarrow> fdirty (bufs s b) \<longleftrightarrow> b_dev (bufs s b) = 1 \<and> b_sector (bufs s b) \<in> L"
  by (simp add: cfx_def)

lemma cfx_busy: "cfx s M X L Z \<Longrightarrow> b < NBUF \<Longrightarrow> fbusy (bufs s b) \<Longrightarrow>
    b_dev (bufs s b) = 1 \<and> fvalid (bufs s b) \<and> b_sector (bufs s b) \<in> Z"
  by (simp add: cfx_def)

lemma cfx_data: "cfx s M X L Z \<Longrightarrow> owns s b n \<Longrightarrow> b_data (bufs s b) = M n"
  using bcf_data [OF cfx_bc] by (auto simp: owns_def)

lemma cfx_disk: "cfx s M X L Z \<Longrightarrow> n \<notin> X \<Longrightarrow> disk s n = M n"
  using bcf_disk [OF cfx_bc] by blast

lemma cfx_busy_mono: "cfx s M X L Z \<Longrightarrow> Z \<subseteq> Z' \<Longrightarrow> cfx s M X L Z'"
  unfolding cfx_def by blast

text \<open>With fewer pinned sectors than buffers some buffer can be recycled.\<close>

lemma cfx_room:
  assumes c: "cfx s M X L Z" and fin: "finite (L \<union> Z)" "card (L \<union> Z) < NBUF"
  shows "\<exists>b<NBUF. \<not> fbusy (bufs s b) \<and> \<not> fdirty (bufs s b)"
proof (rule ccontr)
  assume "\<not> ?thesis"
  then have all: "b_dev (bufs s b) = 1 \<and> b_sector (bufs s b) \<in> L \<union> Z" if "b < NBUF" for b
    using cfx_busy [OF c that] cfx_dirty [OF c that] that by blast
  have "inj_on (\<lambda>b. b_sector (bufs s b)) {..<NBUF}"
    using all bcf_unique [OF cfx_bc [OF c]] by (auto intro!: inj_onI)
  moreover have "(\<lambda>b. b_sector (bufs s b)) ` {..<NBUF} \<subseteq> L \<union> Z" using all by auto
  ultimately have "card {..<NBUF} \<le> card (L \<union> Z)" using fin(1) by (intro card_inj_on_le)
  with fin(2) show False by simp
qed

lemma cfx_can_read:
  assumes c: "cfx s M X L Z" and n: "n \<notin> Z" and room: "n \<in> X \<or> finite (L \<union> Z) \<and> card (L \<union> Z) < NBUF"
  shows "can_read (bufs s) n"
proof -
  have "\<exists>b<NBUF. b_dev (bufs s b) = 1 \<and> b_sector (bufs s b) = n" if "n \<in> X"
    using bcf_X [OF cfx_bc [OF c] that] by metis
  with cfx_room [OF c] room cfx_busy [OF c] n show ?thesis unfolding can_read_def by blast
qed

section \<open>Rules for the operations\<close>

lemma wp_bread:
  assumes c: "cfx s M X L Z" and n: "n \<notin> Z" "n < disksize s"
    and room: "n \<in> X \<or> finite (L \<union> Z) \<and> card (L \<union> Z) < NBUF"
    and Q: "\<And>b t. cfx t M X L (insert n Z) \<Longrightarrow> owns t b n \<Longrightarrow> stp s t [] \<Longrightarrow> kept s t \<Longrightarrow> \<not> fbusy (bufs s b) \<Longrightarrow> Q b t"
  shows "wp (bread 1 n) Q s"
proof -
  have lk: "LBcache \<notin> set (held s)" using cfx_locks [OF c] by simp
  from bread_spec [OF cfx_bc [OF c] lk cfx_can_read [OF c n(1) room] n(2)] obtain b B
    where r: "bread 1 n s = Ok b (s\<lparr>bufs := B\<rparr>)" and B: "bcf B (lru s) (disk s) M X" and g: "got (bufs s) B b n M"
    by blast
  let ?t = "s\<lparr>bufs := B\<rparr>"
  have g1: "b < NBUF" "b_dev (B b) = 1" "b_sector (B b) = n" "fbusy (B b)" "fvalid (B b)" "\<not> fbusy (bufs s b)"
    and gd: "fdirty (B b) = fdirty (bufs s b)" "fdirty (bufs s b) \<longrightarrow> b_sector (bufs s b) = n"
    using g by (simp_all add: got_def)
  have other: "B x = bufs s x" if "x \<noteq> b" for x using g that by (simp add: got_def)
  have dirty: "fdirty (B x) \<longleftrightarrow> b_dev (B x) = 1 \<and> b_sector (B x) \<in> L" if x: "x < NBUF" for x
  proof (cases "x = b")
    case True
    have "b_dev (bufs s b) = 1 \<and> b_sector (bufs s b) = n" if "n \<in> L"
    proof -
      from that c have "n \<in> X" by (auto simp: cfx_def)
      from bcf_X [OF cfx_bc [OF c] this] obtain y where y: "y < NBUF" "b_dev (bufs s y) = 1" "b_sector (bufs s y) = n" .
      moreover have "y = b"
      proof (rule ccontr)
        assume "y \<noteq> b"
        with bcf_unique [OF B y(1) g1(1)] y g1 other [OF \<open>y \<noteq> b\<close>] show False by simp
      qed
      ultimately show ?thesis by simp
    qed
    with gd cfx_dirty [OF c g1(1)] have "fdirty (B b) \<longleftrightarrow> n \<in> L" by metis
    with True g1 show ?thesis by simp
  next
    case False
    then show ?thesis using cfx_dirty [OF c x] by (simp add: other)
  qed
  have busy: "b_dev (B x) = 1 \<and> fvalid (B x) \<and> b_sector (B x) \<in> insert n Z" if "x < NBUF" "fbusy (B x)" for x
    using cfx_busy [OF c that(1)] that g1 other by (cases "x = b") simp_all
  have "cfx ?t M X L (insert n Z)" 
    unfolding cfx_def using B dirty busy c by (simp add: cfx_def)
  moreover have "owns ?t b n" using g1 by (simp add: owns_def)
  moreover have "stp s ?t []"
    unfolding stp_def
    by (simp, rule bfrI [where p = "ptable s" and d = "disk s" and w = "dwrites s" and B = B and l = "lru s"]) simp_all
  moreover have "kept s ?t" 
    unfolding kept_def
  proof (intro allI impI)
    fix x assume "fbusy (bufs s x)"
    with g1 have "x \<noteq> b" by auto
    then show "bufs ?t x = bufs s x" by (simp add: other)
  qed
  ultimately show ?thesis using g1 unfolding wp_def r by (simp add: Q)
qed

text \<open>A change of the owned buffer \<open>b\<close> alone.\<close>

lemma cfx_upd:
  assumes c: "cfx s M X L Z" and o: "owns s b n" and x: "b_dev x = 1" "b_sector x = n"
    and bcf: "bcf ((bufs s)(b := x)) l d M' X'" and t: "bufs t = (bufs s)(b := x)" "lru t = l" "disk t = d" "held t = held s"
    and L: "fdirty x \<longleftrightarrow> n \<in> L'" "\<And>k. k \<noteq> n \<Longrightarrow> k \<in> L' \<longleftrightarrow> k \<in> L" "L' \<subseteq> X'"
    and Z: "fbusy x \<longrightarrow> fvalid x \<and> n \<in> Z'" "\<And>k. k \<noteq> n \<Longrightarrow> k \<in> Z \<Longrightarrow> k \<in> Z'"
  shows "cfx t M' X' L' Z'"
proof -
  have o1: "b < NBUF" "b_dev (bufs s b) = 1" "b_sector (bufs s b) = n" using o by (simp_all add: owns_def)
  have ne: "b_sector (bufs s c) \<noteq> n" if "c < NBUF" "c \<noteq> b" "b_dev (bufs s c) = 1" for c
    using bcf_unique [OF cfx_bc [OF c] that(1) o1(1) that(3) o1(2)] that(2) o1(3) by metis
  have "fdirty (bufs t y) \<longleftrightarrow> b_dev (bufs t y) = 1 \<and> b_sector (bufs t y) \<in> L'" if "y < NBUF" for y
    using cfx_dirty [OF c that] ne [OF that] L x by (cases "y = b") (auto simp: t)
  moreover have "b_dev (bufs t y) = 1 \<and> fvalid (bufs t y) \<and> b_sector (bufs t y) \<in> Z'"
    if "y < NBUF" "fbusy (bufs t y)" for y
    using cfx_busy [OF c that(1)] that ne [OF that(1)] Z x by (cases "y = b") (auto simp: t)
  ultimately show ?thesis using bcf cfx_locks [OF c] L(3) by (simp add: cfx_def t)
qed

lemma wp_set_data:
  assumes c: "cfx s M X L Z" and o: "owns s b n" and Z: "n \<in> Z"
    and Q: "\<And>t. cfx t (M(n := f (M n))) (insert n X) L Z \<Longrightarrow> owns t b n \<Longrightarrow> stp s t [] \<Longrightarrow>
      (\<And>c. c \<noteq> b \<Longrightarrow> bufs t c = bufs s c) \<Longrightarrow> Q () t"
  shows "wp (set_data b f) Q s"
proof -
  have o1: "b < NBUF" "b_dev (bufs s b) = 1" "b_sector (bufs s b) = n" "fbusy (bufs s b)" "fvalid (bufs s b)"
    using o by (simp_all add: owns_def)
  let ?x = "(bufs s b)\<lparr>b_data := f (M n)\<rparr>"
  let ?t = "s\<lparr>bufs := (bufs s)(b := ?x)\<rparr>"
  have d: "b_data (bufs s b) = M n" by (rule cfx_data [OF c o])
  have "bcf ((bufs s)(b := ?x)) (lru s) (disk s) (M(n := f (M n))) (insert n X)"
    using set_data_spec [OF cfx_bc [OF c] o1(1,2,5,4), of "f (M n)"] o1(3) by simp
  then have "cfx ?t (M(n := f (M n))) (insert n X) L Z"
    by (rule cfx_upd [OF c o, rotated 2]) (use o1 c Z cfx_dirty [OF c o1(1)] in \<open>auto simp: cfx_def\<close>)
  moreover have "owns ?t b n" using o1 by (simp add: owns_def)
  moreover have "stp s ?t []"
    unfolding stp_def
    by (simp, rule bfrI [where p = "ptable s" and d = "disk s" and w = "dwrites s" and l = "lru s"]) simp_all
  ultimately show ?thesis by (simp add: wp_kmod upd_buf_def d Q)
qed

lemma wp_bwrite:
  assumes c: "cfx s M X L Z" and o: "owns s b n" and Z: "n \<in> Z" and n: "n < disksize s"
    and Q: "\<And>t. cfx t M (X - {n}) (L - {n}) Z \<Longrightarrow> owns t b n \<Longrightarrow> stp s t [(n, M n)] \<Longrightarrow>
      (\<And>c. c \<noteq> b \<Longrightarrow> bufs t c = bufs s c) \<Longrightarrow> Q () t"
  shows "wp (bwrite b) Q s"
proof -
  have o1: "b < NBUF" "b_dev (bufs s b) = 1" "b_sector (bufs s b) = n" "fbusy (bufs s b)" "fvalid (bufs s b)"
    using o by (simp_all add: owns_def)
  let ?x = "(bufs s b)\<lparr>b_flags := b_flags (bufs s b) - {B_DIRTY}\<rparr>"
  let ?t = "s\<lparr>disk := (disk s)(n := M n), dwrites := dwrites s @ [(n, M n)], bufs := (bufs s)(b := ?x)\<rparr>"
  from bwrite_spec [OF cfx_bc [OF c] o1(1,2,5,4,3) n] have r: "bwrite b s = Ok () ?t"
    and B: "bcf ((bufs s)(b := ?x)) (lru s) ((disk s)(n := M n)) M (X - {n})" by auto
  from B have "cfx ?t M (X - {n}) (L - {n}) Z"
    by (rule cfx_upd [OF c o, rotated 2]) (use o1 c Z in \<open>auto simp: cfx_def\<close>)
  moreover have "owns ?t b n" using o1 by (simp add: owns_def)
  moreover have "stp s ?t [(n, M n)]"
    unfolding stp_def by (simp, rule bfrI [where p = "ptable s" and l = "lru s"]) simp_all
  ultimately show ?thesis unfolding wp_def r by (simp add: Q)
qed

lemma wp_brelse:
  assumes c: "cfx s M X L Z" and o: "owns s b n" and X: "n \<in> X \<Longrightarrow> n \<in> L"
    and Q: "\<And>t. cfx t M X L (Z - {n}) \<Longrightarrow> stp s t [] \<Longrightarrow> (\<And>c. c \<noteq> b \<Longrightarrow> bufs t c = bufs s c) \<Longrightarrow> Q () t"
  shows "wp (brelse b) Q s"
proof -
  have o1: "b < NBUF" "b_dev (bufs s b) = 1" "b_sector (bufs s b) = n" "fbusy (bufs s b)" "fvalid (bufs s b)"
    using o by (simp_all add: owns_def)
  have dirty: "fdirty (bufs s b) \<longleftrightarrow> n \<in> L" using cfx_dirty [OF c o1(1)] o1 by simp
  let ?x = "(bufs s b)\<lparr>b_flags := b_flags (bufs s b) - {B_BUSY}\<rparr>"
  from brelse_spec [OF cfx_bc [OF c] o1(1,4)] cfx_locks [OF c] X dirty o1(3) obtain l
    where r: "brelse b s = Ok () (s\<lparr>bufs := (bufs s)(b := ?x), lru := l, ptable := woken (ChBuf b) (ptable s)\<rparr>)"
      (is "_ = Ok () ?t")
      and B: "bcf ((bufs s)(b := ?x)) l (disk s) M X" by auto
  from B have "cfx ?t M X L (Z - {n})"
    by (rule cfx_upd [OF c o, rotated 2]) (use o1 c dirty in \<open>auto simp: cfx_def\<close>)
  moreover have "stp s ?t []"
    unfolding stp_def
    by (simp, rule bfrI [where p = "woken (ChBuf b) (ptable s)" and d = "disk s" and w = "dwrites s" and l = l
        and B = "(bufs s)(b := ?x)"]) simp_all
  ultimately show ?thesis unfolding wp_def r by (simp add: Q)
qed

lemma wp_get_data:
  assumes "cfx s M X L Z" "owns s b n" "Q (M n) s"
  shows "wp (get_data b) Q s"
  using assms cfx_data [OF assms(1,2)] by (simp add: wp_kget)

end
