(* ===== verification/Crash.thy ===== *)
theory Crash
  imports CacheOps
begin

text \<open>
  Crash safety of the redo log.  \<open>commit\<close> writes the logged sectors to the log, then the header, then the
  sectors' home locations, then an empty header; a crash keeps a prefix of these writes.  Whatever the prefix,
  and however often recovery itself is cut short, a complete recovery leaves the disk with all updates of the
  transaction or with none.
\<close>

section \<open>Loops\<close>

lemma wp_kfor_from:
  assumes "k \<le> n" "P k s" and "\<And>i t. k \<le> i \<Longrightarrow> i < n \<Longrightarrow> P i t \<Longrightarrow> wp (f i) (\<lambda>_. P (Suc i)) t"
  shows "wp (kfor [k..<n] f) (\<lambda>_. P n) s"
  using assms
proof (induction "n - k" arbitrary: k s)
  case 0
  then show ?case by (simp add: wp_kret)
next
  case (Suc d)
  then have "[k..<n] = k # [Suc k..<n]" by (simp add: upt_conv_Cons)
  moreover have "wp (f k) (\<lambda>_. wp (kfor [Suc k..<n] f) (\<lambda>_. P n)) s"
  proof (rule wp_mono)
    show "wp (f k) (\<lambda>_. P (Suc k)) s" using Suc by auto
    fix t assume "P (Suc k) t"
    with Suc show "wp (kfor [Suc k..<n] f) (\<lambda>_. P n) t" by (intro Suc.hyps(1)) auto
  qed
  ultimately show ?case by (simp add: wp_kthen)
qed

lemma wp_kfor_upt:
  assumes "P 0 s" and "\<And>i t. i < n \<Longrightarrow> P i t \<Longrightarrow> wp (f i) (\<lambda>_. P (Suc i)) t"
  shows "wp (kfor [0..<n] f) (\<lambda>_. P n) s"
  using assms by (intro wp_kfor_from) auto

lemma stp_nilL: "stp s t [] \<Longrightarrow> stp t u ws \<Longrightarrow> stp s u ws"
  by (erule stp_trans, assumption) simp

lemma stp_nilR: "stp s t ws \<Longrightarrow> stp t u [] \<Longrightarrow> stp s u ws"
  by (erule stp_trans, assumption) simp

section \<open>The header\<close>

lemma put_head_0: "rd32 (put_head n sec d) 0 = rd32 d 0"
  by (induction n) auto

lemma put_head_sector: "i < n \<Longrightarrow> rd32 (put_head n sec d) (4 + 4 * i) = sec i mod W32"
proof (induction n)
  case (Suc n)
  then show ?case by (cases "i = n") auto
qed simp

definition head_bytes :: "nat \<Rightarrow> (nat \<Rightarrow> nat) \<Rightarrow> bytes \<Rightarrow> bytes" where
  "head_bytes n sec d = put_head n sec (wr32 d 0 n)"

lemma of_int32_nat: "n < W32 \<Longrightarrow> of_int32 (int n) = n"
proof -
  assume "n < W32"
  then have "int n mod 4294967296 = int n" by simp
  then show ?thesis by (simp add: of_int32_def)
qed

lemma head_bytes_n: "n < W32 \<Longrightarrow> rd32 (head_bytes n sec d) 0 = n"
  by (simp add: head_bytes_def put_head_0)

lemma head_bytes_sector: "i < n \<Longrightarrow> sec i < W32 \<Longrightarrow> rd32 (head_bytes n sec d) (4 + 4 * i) = sec i"
  by (simp add: head_bytes_def put_head_sector)

section \<open>One sector\<close>

lemma cfx_log [simp]: "cfx (s\<lparr>lh_n := v\<rparr>) M X L Z = cfx s M X L Z" "cfx (s\<lparr>lh_sector := h\<rparr>) M X L Z = cfx s M X L Z"
  by (simp_all add: cfx_def)

lemma owns_log [simp]: "owns (s\<lparr>lh_n := v\<rparr>) b n = owns s b n" "owns (s\<lparr>lh_sector := h\<rparr>) b n = owns s b n"
  by (simp_all add: owns_def)

lemma owns_other: "owns s c m \<Longrightarrow> owns s b n \<Longrightarrow> m \<noteq> n \<Longrightarrow> (\<And>x. x \<noteq> b \<Longrightarrow> bufs t x = bufs s x) \<Longrightarrow> owns t c m"
  by (cases "c = b") (auto simp: owns_def)

lemma wp_copy_block:
  assumes c: "cfx s M X L Z" and o: "owns s b n" "owns s b' m" and Z: "n \<in> Z"
    and Q: "\<And>t. cfx t (M(n := M m)) (insert n X) L Z \<Longrightarrow> owns t b n \<Longrightarrow> stp s t [] \<Longrightarrow>
      (\<And>c. c \<noteq> b \<Longrightarrow> bufs t c = bufs s c) \<Longrightarrow> Q () t"
  shows "wp (copy_block b b') Q s"
  unfolding copy_block_def wp_kbind
proof (rule wp_get_data [OF c o(2)])
  show "wp (set_data b (\<lambda>_. M m)) Q s" by (rule wp_set_data [OF c o(1) Z]) (rule Q)
qed

text \<open>\<open>bread a; bread m; copy; bwrite\<close> and two releases: the common shape of both loops.\<close>

lemma wp_write_log_one:
  fixes s :: "'z klog_scheme"
  assumes c: "cfx s M L L {}" and lg: "log_start s = st" "log_dev s = 1" "lh_sector s i = m"
    and m: "m \<in> L" "m < disksize s" and a: "st + i + 1 \<notin> L" "st + i + 1 < disksize s"
    and L: "finite L" "card L < NBUF"
    and Q: "\<And>t. cfx t (M(st + i + 1 := M m)) L L {} \<Longrightarrow> stp s t [(st + i + 1, M m)] \<Longrightarrow> Q () t"
  shows "wp (write_log_one i) Q s"
proof -
  let ?a = "st + i + 1"
  have ne: "m \<noteq> ?a" using m a by auto
  show ?thesis
    unfolding write_log_one_def wp_kbind wp_kget case_prod_conv lg
  proof (rule wp_bread [OF c])
    fix x t1 assume 1: "cfx t1 M L L {?a}" "owns t1 x ?a" "stp s t1 []"
    show "wp (bread 1 m) (\<lambda>from. wp (kthen (copy_block x from) (kthen (bwrite x) (kthen (brelse from) (brelse x)))) Q) t1"
    proof (rule wp_bread [OF 1(1)])
      fix y t2 assume 2: "cfx t2 M L L {m, ?a}" "owns t2 y m" "stp t1 t2 []" "kept t1 t2"
      have x2: "owns t2 x ?a" using kept_owns [OF 2(4) 1(2)] by simp
      show "wp (kthen (copy_block x y) (kthen (bwrite x) (kthen (brelse y) (brelse x)))) Q t2"
        unfolding wp_kthen
      proof (rule wp_copy_block [OF 2(1) x2 2(2)])
        fix t3 assume 3: "cfx t3 (M(?a := M m)) (insert ?a L) L {m, ?a}" "owns t3 x ?a" "stp t2 t3 []"
          "\<And>c. c \<noteq> x \<Longrightarrow> bufs t3 c = bufs t2 c"
        have y3: "owns t3 y m" using owns_other [OF 2(2) x2 ne 3(4)] .
        have ds: "?a < disksize t3" using a stp_eqs(3) [OF 1(3)] stp_eqs(3) [OF 2(3)] stp_eqs(3) [OF 3(3)] by simp
        show "wp (bwrite x) (\<lambda>_. wp (brelse y) (\<lambda>_. wp (brelse x) Q)) t3"
        proof (rule wp_bwrite [OF 3(1,2) _ ds])
          fix t4 assume "cfx t4 (M(?a := M m)) (insert ?a L - {?a}) (L - {?a}) {m, ?a}"
            and 4: "owns t4 x ?a" "stp t3 t4 [(?a, (M(?a := M m)) ?a)]" "\<And>c. c \<noteq> x \<Longrightarrow> bufs t4 c = bufs t3 c"
          then have c4: "cfx t4 (M(?a := M m)) L L {m, ?a}" using a(1) by simp
          have y4: "owns t4 y m" using owns_other [OF y3 3(2) ne 4(3)] .
          show "wp (brelse y) (\<lambda>_. wp (brelse x) Q) t4"
          proof (rule wp_brelse [OF c4 y4])
            fix t5 assume "cfx t5 (M(?a := M m)) L L ({m, ?a} - {m})" and 5: "stp t4 t5 []"
              "\<And>c. c \<noteq> y \<Longrightarrow> bufs t5 c = bufs t4 c"
            then have c5: "cfx t5 (M(?a := M m)) L L {?a}" using ne by (simp add: insert_Diff_if)
            have x5: "owns t5 x ?a" using owns_other [OF 4(1) y4 ne [symmetric] 5(2)] .
            show "wp (brelse x) Q t5"
            proof (rule wp_brelse [OF c5 x5])
              fix t6 assume c6: "cfx t6 (M(?a := M m)) L L ({?a} - {?a})" and 6: "stp t5 t6 []"
              have "stp t3 t6 [(?a, M m)]" using stp_nilR [OF stp_nilR [OF 4(2) 5(1)] 6] by simp
              then have "stp s t6 [(?a, M m)]" by (rule stp_nilL [OF 1(3) stp_nilL [OF 2(3) stp_nilL [OF 3(3)]]])
              with c6 show "Q () t6" by (intro Q) simp_all
            qed (use a in simp)
          qed simp
        qed simp
      qed simp
    qed (use m ne stp_eqs(3) [OF 1(3)] in auto)
  qed (use a L in auto)
qed

lemma wp_install_one:
  fixes s :: "'z klog_scheme"
  assumes c: "cfx s M L L {}" and lg: "log_start s = st" "log_dev s = 1" "lh_sector s i = m"
    and m: "m < disksize s" "m \<noteq> st + i + 1" and a: "st + i + 1 \<notin> L" "st + i + 1 < disksize s"
    and L: "finite L" "card L < NBUF" "m \<in> L \<or> card L + 1 < NBUF"
    and Q: "\<And>t. cfx t (M(m := M (st + i + 1))) (L - {m}) (L - {m}) {} \<Longrightarrow> stp s t [(m, M (st + i + 1))] \<Longrightarrow> Q () t"
  shows "wp (install_one i) Q s"
proof -
  let ?a = "st + i + 1"
  have room: "m \<in> L \<or> finite (L \<union> {?a}) \<and> card (L \<union> {?a}) < NBUF"
    using L a by (auto simp: card_insert_if)
  show ?thesis
    unfolding install_one_def wp_kbind wp_kget case_prod_conv lg
  proof (rule wp_bread [OF c])
    fix x t1 assume 1: "cfx t1 M L L {?a}" "owns t1 x ?a" "stp s t1 []"
    show "wp (bread 1 m) (\<lambda>dbuf. wp (kthen (copy_block dbuf x) (kthen (bwrite dbuf) (kthen (brelse x) (brelse dbuf)))) Q) t1"
    proof (rule wp_bread [OF 1(1)])
      fix y t2 assume 2: "cfx t2 M L L {m, ?a}" "owns t2 y m" "stp t1 t2 []" "kept t1 t2"
      have x2: "owns t2 x ?a" using kept_owns [OF 2(4) 1(2)] by simp
      show "wp (kthen (copy_block y x) (kthen (bwrite y) (kthen (brelse x) (brelse y)))) Q t2"
        unfolding wp_kthen
      proof (rule wp_copy_block [OF 2(1,2) x2])
        fix t3 assume 3: "cfx t3 (M(m := M ?a)) (insert m L) L {m, ?a}" "owns t3 y m" "stp t2 t3 []"
          "\<And>c. c \<noteq> y \<Longrightarrow> bufs t3 c = bufs t2 c"
        have x3: "owns t3 x ?a" using owns_other [OF x2 2(2) m(2) [symmetric] 3(4)] .
        have ds: "m < disksize t3" using m stp_eqs(3) [OF 1(3)] stp_eqs(3) [OF 2(3)] stp_eqs(3) [OF 3(3)] by simp
        show "wp (bwrite y) (\<lambda>_. wp (brelse x) (\<lambda>_. wp (brelse y) Q)) t3"
        proof (rule wp_bwrite [OF 3(1,2) _ ds])
          fix t4 assume "cfx t4 (M(m := M ?a)) (insert m L - {m}) (L - {m}) {m, ?a}"
            and 4: "owns t4 y m" "stp t3 t4 [(m, (M(m := M ?a)) m)]" "\<And>c. c \<noteq> y \<Longrightarrow> bufs t4 c = bufs t3 c"
          then have c4: "cfx t4 (M(m := M ?a)) (L - {m}) (L - {m}) {m, ?a}" by simp
          have x4: "owns t4 x ?a" using owns_other [OF x3 3(2) m(2) [symmetric] 4(3)] .
          show "wp (brelse x) (\<lambda>_. wp (brelse y) Q) t4"
          proof (rule wp_brelse [OF c4 x4])
            fix t5 assume "cfx t5 (M(m := M ?a)) (L - {m}) (L - {m}) ({m, ?a} - {?a})" and 5: "stp t4 t5 []"
              "\<And>c. c \<noteq> x \<Longrightarrow> bufs t5 c = bufs t4 c"
            then have c5: "cfx t5 (M(m := M ?a)) (L - {m}) (L - {m}) {m}" using m(2) by (simp add: insert_Diff_if)
            have y5: "owns t5 y m" using owns_other [OF 4(1) x4 m(2) 5(2)] .
            show "wp (brelse y) Q t5"
            proof (rule wp_brelse [OF c5 y5])
              fix t6 assume c6: "cfx t6 (M(m := M ?a)) (L - {m}) (L - {m}) ({m} - {m})" and 6: "stp t5 t6 []"
              have "stp t3 t6 [(m, M ?a)]" using stp_nilR [OF stp_nilR [OF 4(2) 5(1)] 6] by simp
              then have "stp s t6 [(m, M ?a)]" by (rule stp_nilL [OF 1(3) stp_nilL [OF 2(3) stp_nilL [OF 3(3)]]])
              with c6 show "Q () t6" by (intro Q) simp_all
            qed simp
          qed (use a in simp)
        qed simp
      qed simp
    qed (use m room stp_eqs(3) [OF 1(3)] in auto)
  qed (use a L in auto)
qed

lemma wp_write_head:
  fixes s :: "'z klog_scheme"
  assumes c: "cfx s M L L {}" and lg: "log_start s = st" "log_dev s = 1" "lh_n s = int n" "lh_sector s = sec"
    and n: "n < W32" and a: "st \<notin> L" "st < disksize s" and L: "finite L" "card L < NBUF"
    and Q: "\<And>t. cfx t (M(st := head_bytes n sec (M st))) L L {} \<Longrightarrow> stp s t [(st, head_bytes n sec (M st))] \<Longrightarrow> Q () t"
  shows "wp write_head Q s"
  unfolding write_head_def wp_kbind wp_kget case_prod_conv lg
proof (rule wp_bread [OF c])
  let ?h = "head_bytes n sec (M st)"
  fix x t1 assume 1: "cfx t1 M L L {st}" "owns t1 x st" "stp s t1 []"
  have lg1: "lh_n t1 = int n" "lh_sector t1 = sec" using stp_log_eqs [OF 1(3)] lg by simp_all
  show "wp (kthen (set_data x (\<lambda>d. put_head (nat (lh_n t1)) (lh_sector t1) (wr32 d 0 (of_int32 (lh_n t1)))))
      (kthen (bwrite x) (brelse x))) Q t1"
    unfolding wp_kthen lg1 nat_int of_int32_nat [OF n]
  proof (rule wp_set_data [OF 1(1,2)])
    fix t2 assume "cfx t2 (M(st := put_head n sec (wr32 (M st) 0 n))) (insert st L) L {st}" and 2: "owns t2 x st" "stp t1 t2 []"
    then have c2: "cfx t2 (M(st := ?h)) (insert st L) L {st}" by (simp add: head_bytes_def)
    have ds: "st < disksize t2" using a stp_eqs(3) [OF 1(3)] stp_eqs(3) [OF 2(2)] by simp
    show "wp (bwrite x) (\<lambda>_. wp (brelse x) Q) t2"
    proof (rule wp_bwrite [OF c2 2(1) _ ds])
      fix t3 assume "cfx t3 (M(st := ?h)) (insert st L - {st}) (L - {st}) {st}"
        and 3: "owns t3 x st" "stp t2 t3 [(st, (M(st := ?h)) st)]"
      then have c3: "cfx t3 (M(st := ?h)) L L {st}" using a by simp
      show "wp (brelse x) Q t3"
      proof (rule wp_brelse [OF c3 3(1)])
        fix t4 assume c4: "cfx t4 (M(st := ?h)) L L ({st} - {st})" and 4: "stp t3 t4 []"
        have "stp t2 t4 [(st, ?h)]" using stp_nilR [OF 3(2) 4] by simp
        then have "stp s t4 [(st, ?h)]" by (rule stp_nilL [OF 1(3) stp_nilL [OF 2(2)]])
        with c4 show "Q () t4" by (intro Q) simp_all
      qed (use a in simp)
    qed simp
  qed simp
qed (use a L in auto)

section \<open>The loops of commit and recovery\<close>

text \<open>The sectors written to the log, and those written home.\<close>

definition logw :: "(nat \<Rightarrow> bytes) \<Rightarrow> (nat \<Rightarrow> nat) \<Rightarrow> nat \<Rightarrow> nat \<Rightarrow> (nat \<times> bytes) list" where
  "logw M sec st n = map (\<lambda>i. (st + i + 1, M (sec i))) [0..<n]"

definition insw :: "(nat \<Rightarrow> bytes) \<Rightarrow> (nat \<Rightarrow> nat) \<Rightarrow> nat \<Rightarrow> nat \<Rightarrow> (nat \<times> bytes) list" where
  "insw M sec st n = map (\<lambda>i. (sec i, M (st + i + 1))) [0..<n]"

lemma replay_notin: "x \<notin> fst ` set ws \<Longrightarrow> replay d ws x = d x"
  by (induction ws arbitrary: d) (auto split: prod.splits)

lemma logw_Suc: "logw M sec st (Suc n) = logw M sec st n @ [(st + n + 1, M (sec n))]"
  by (simp add: logw_def)

lemma insw_Suc: "insw M sec st (Suc n) = insw M sec st n @ [(sec n, M (st + n + 1))]"
  by (simp add: insw_def)

lemma logw_sectors: "fst ` set (logw M sec st n) = (\<lambda>i. st + i + 1) ` {..<n}"
  by (simp add: logw_def image_image lessThan_atLeast0)

lemma insw_sectors: "fst ` set (insw M sec st n) = sec ` {..<n}"
  by (simp add: insw_def image_image lessThan_atLeast0)

text \<open>The sectors of the log, and home sectors outside it.\<close>

abbreviation (input) log_region :: "nat \<Rightarrow> nat set" where
  "log_region st \<equiv> {st..<st + LOGSIZE}"

definition homes :: "nat \<Rightarrow> nat \<Rightarrow> nat \<Rightarrow> (nat \<Rightarrow> nat) \<Rightarrow> bool" where
  "homes st dsz n sec \<longleftrightarrow> n < LOGSIZE \<and> st + LOGSIZE \<le> dsz \<and> dsz \<le> W32 \<and> inj_on sec {..<n} \<and>
     (\<forall>i<n. sec i < dsz \<and> sec i \<notin> log_region st)"

lemma homesD:
  assumes "homes st dsz n sec"
  shows "n < LOGSIZE" "st + LOGSIZE \<le> dsz" "i < n \<Longrightarrow> sec i < dsz" "i < n \<Longrightarrow> sec i \<notin> log_region st"
    "i < n \<Longrightarrow> sec i < W32" "i < n \<Longrightarrow> st + j + 1 \<in> log_region st \<Longrightarrow> sec i \<noteq> st + j + 1"
  using assms by (auto simp: homes_def)

lemma homes_card: "homes st dsz n sec \<Longrightarrow> card (sec ` {..<n} - K) < LOGSIZE"
proof -
  assume "homes st dsz n sec"
  then have "card (sec ` {..<n}) < LOGSIZE" by (simp add: homes_def card_image)
  then show ?thesis using card_mono [of "sec ` {..<n}" "sec ` {..<n} - K"] by (auto intro: le_less_trans)
qed

lemma homes_disjoint: "homes st dsz n sec \<Longrightarrow> x \<in> log_region st \<Longrightarrow> x \<notin> sec ` {..<n}"
  by (auto simp: homes_def)

lemma wp_write_log:
  fixes s :: "'z klog_scheme"
  assumes c: "cfx s M L L {}" and lg: "log_start s = st" "log_dev s = 1" "lh_n s = int n" "lh_sector s = sec"
    and h: "homes st (disksize s) n sec" and L: "L = sec ` {..<n}"
    and Q: "\<And>t. cfx t (replay M (logw M sec st n)) L L {} \<Longrightarrow> stp s t (logw M sec st n) \<Longrightarrow> Q () t"
  shows "wp write_log Q s"
proof -
  let ?P = "\<lambda>i t. cfx t (replay M (logw M sec st i)) L L {} \<and> stp s t (logw M sec st i)"
  have "wp (kfor [0..<n] write_log_one) (\<lambda>_. ?P n) s"
  proof (rule wp_kfor_upt [where P = ?P])
    show "?P 0 s" using c by (simp add: logw_def)
    fix i t assume i: "i < n" and P: "?P i t"
    let ?N = "replay M (logw M sec st i)"
    have st: "stp s t (logw M sec st i)" using P by simp
    have r: "st + i + 1 \<in> log_region st" using i homesD(1) [OF h] by simp
    have same: "?N (sec i) = M (sec i)"
    proof (rule replay_notin)
      show "sec i \<notin> fst ` set (logw M sec st i)"
        unfolding logw_sectors using homesD(4) [OF h i] homesD(1) [OF h] i by auto
    qed
    show "wp (write_log_one i) (\<lambda>_. ?P (Suc i)) t"
    proof (rule wp_write_log_one [of t ?N L st i "sec i"])
      fix u assume "cfx u (?N(st + i + 1 := ?N (sec i))) L L {}" "stp t u [(st + i + 1, ?N (sec i))]"
      then show "?P (Suc i) u" unfolding logw_Suc same using stp_trans [OF st] by simp
    next
      show "cfx t ?N L L {}" using P by simp
      show "log_start t = st" "log_dev t = 1" "lh_sector t i = sec i" using stp_log_eqs [OF st] lg by simp_all
      show "sec i \<in> L" "finite L" using i L by auto
      show "sec i < disksize t" "st + i + 1 < disksize t"
        using homesD(2) [OF h] homesD(3) [OF h i] stp_eqs(3) [OF st] r by simp_all
      show "st + i + 1 \<notin> L" using homes_disjoint [OF h r] L by simp
      show "card L < NBUF" using homes_card [OF h, of "{}"] L by simp
    qed
  qed
  then show ?thesis unfolding write_log_def wp_kbind wp_kget lg nat_int by (rule wp_mono) (auto intro: Q)
qed

lemma wp_install_trans:
  fixes s :: "'z klog_scheme"
  assumes c: "cfx s M L L {}" and lg: "log_start s = st" "log_dev s = 1" "lh_n s = int n" "lh_sector s = sec"
    and h: "homes st (disksize s) n sec" and L: "L = sec ` {..<n} \<or> L = {}"
    and Q: "\<And>t. cfx t (replay M (insw M sec st n)) {} {} {} \<Longrightarrow> stp s t (insw M sec st n) \<Longrightarrow> Q () t"
  shows "wp install_trans Q s"
proof -
  let ?K = "\<lambda>i. L - sec ` {..<i}"
  let ?P = "\<lambda>i t. cfx t (replay M (insw M sec st i)) (?K i) (?K i) {} \<and> stp s t (insw M sec st i)"
  have "wp (kfor [0..<n] install_one) (\<lambda>_. ?P n) s"
  proof (rule wp_kfor_upt [where P = ?P])
    show "?P 0 s" using c by (simp add: insw_def)
    fix i t assume i: "i < n" and P: "?P i t"
    let ?N = "replay M (insw M sec st i)"
    have st: "stp s t (insw M sec st i)" using P by simp
    have r: "st + i + 1 \<in> log_region st" using i homesD(1) [OF h] by simp
    have same: "?N (st + i + 1) = M (st + i + 1)"
    proof (rule replay_notin)
      have "sec ` {..<i} \<subseteq> sec ` {..<n}" using i by auto
      with homes_disjoint [OF h r] show "st + i + 1 \<notin> fst ` set (insw M sec st i)" unfolding insw_sectors by blast
    qed
    have K: "?K (Suc i) = ?K i - {sec i}" by (auto simp: lessThan_Suc)
    have card: "finite (?K i)" "card (?K i) < LOGSIZE" using L homes_card [OF h, of "sec ` {..<i}"] by auto
    have "sec i \<notin> sec ` {..<i}"
    proof
      assume "sec i \<in> sec ` {..<i}"
      then obtain x where "x < i" "sec i = sec x" by auto
      moreover from h have "inj_on sec {..<n}" by (simp add: homes_def)
      ultimately have "i = x" using i by (auto dest: inj_onD)
      with \<open>x < i\<close> show False by simp
    qed
    then have in_or: "sec i \<in> ?K i \<or> card (?K i) + 1 < LOGSIZE" using L i by auto
    show "wp (install_one i) (\<lambda>_. ?P (Suc i)) t"
    proof (rule wp_install_one [of t ?N "?K i" st i "sec i"])
      fix u assume "cfx u (?N(sec i := ?N (st + i + 1))) (?K i - {sec i}) (?K i - {sec i}) {}"
        "stp t u [(sec i, ?N (st + i + 1))]"
      then show "?P (Suc i) u" unfolding insw_Suc same K using stp_trans [OF st] by simp
    next
      show "cfx t ?N (?K i) (?K i) {}" using P by simp
      show "log_start t = st" "log_dev t = 1" "lh_sector t i = sec i" using stp_log_eqs [OF st] lg by simp_all
      show "sec i < disksize t" "st + i + 1 < disksize t"
        using homesD(2) [OF h] homesD(3) [OF h i] stp_eqs(3) [OF st] r by simp_all
      show "sec i \<noteq> st + i + 1" by (rule homesD(6) [OF h i r])
      show "st + i + 1 \<notin> ?K i" using homes_disjoint [OF h r] L by auto
    qed (rule card in_or)+
  qed
  then have "wp (kfor [0..<n] install_one) Q s"
  proof (rule wp_mono)
    fix u :: unit and t assume "?P n t"
    moreover have "?K n = {}" using L by auto
    ultimately show "Q u t" by (simp add: Q)
  qed
  then show ?thesis unfolding install_trans_def wp_kbind wp_kget lg nat_int .
qed

section \<open>Commit\<close>

text \<open>A step of the log code: it wrote the sectors \<open>ws\<close> and kept the geometry of the log.\<close>

definition lstp :: "'z klog_scheme \<Rightarrow> 'z klog_scheme \<Rightarrow> (nat \<times> bytes) list \<Rightarrow> bool" where
  "lstp s t ws \<longleftrightarrow> dwrites t = dwrites s @ ws \<and> disk t = replay (disk s) ws \<and> held t = held s \<and>
     disksize t = disksize s \<and> log_start t = log_start s \<and> log_dev t = log_dev s \<and> log_size t = log_size s \<and>
     log_outstanding t = log_outstanding s \<and> log_committing t = log_committing s \<and> curproc t = curproc s \<and>
     only_woken (ptable s) (ptable t)"

lemma lstp_stp: "stp s t ws \<Longrightarrow> lstp s t ws" for s :: "'z klog_scheme"
  using stp_eqs [of s t ws] stp_log_eqs [of s t ws] by (simp add: lstp_def stp_def)

lemma lstp_trans: "lstp s t us \<Longrightarrow> lstp t u vs \<Longrightarrow> ws = us @ vs \<Longrightarrow> lstp s u ws"
  unfolding lstp_def by (auto intro: only_woken_trans)

lemma lstp_refl [simp]: "lstp s s []"
  by (simp add: lstp_def)

lemma lstp_lh [simp]: "lstp s (t\<lparr>lh_n := v\<rparr>) ws = lstp s t ws" "lstp (s\<lparr>lh_n := v\<rparr>) t ws = lstp s t ws"
  "lstp s (t\<lparr>lh_sector := h\<rparr>) ws = lstp s t ws"
  by (simp_all add: lstp_def)

definition commit_writes :: "(nat \<Rightarrow> bytes) \<Rightarrow> (nat \<Rightarrow> nat) \<Rightarrow> nat \<Rightarrow> nat \<Rightarrow> (nat \<times> bytes) list" where
  "commit_writes M sec st n =
     (let h = head_bytes n sec (M st) in
      logw M sec st n @ [(st, h)] @ map (\<lambda>i. (sec i, M (sec i))) [0..<n] @ [(st, head_bytes 0 sec h)])"

text \<open>The log blocks after \<open>write_log\<close> and \<open>write_head\<close>.\<close>

lemma replay_logw:
  assumes "i < n"
  shows "replay d (logw M sec st n) (st + i + 1) = M (sec i)"
  using assms
proof (induction n)
  case (Suc n)
  then show ?case by (cases "i = n") (simp_all add: logw_Suc)
qed (simp add: logw_def)

lemma replay_logw_start: "replay d (logw M sec st n) st = d st"
  by (rule replay_notin) (auto simp: logw_sectors)

lemma commit_spec:
  fixes s :: "'z klog_scheme"
  assumes c: "cfx s M L L {}" and lg: "log_start s = st" "log_dev s = 1" "lh_n s = int n" "lh_sector s = sec"
    and h: "homes st (disksize s) n sec" and L: "L = sec ` {..<n}" and n: "0 < n"
  shows "wp commit (\<lambda>_ t. lstp s t (commit_writes M sec st n) \<and> lh_n t = 0 \<and> (\<exists>N. cfx t N {} {} {})) s"
proof -
  have n32: "n < W32" using homesD(1) [OF h] by simp
  have some: "0 < lh_n s" using lg n by simp
  have st: "st \<notin> L" "st < disksize s" using homes_disjoint [OF h, of st] homesD(2) [OF h] L by auto
  have fin: "finite L" "card L < NBUF" using L homes_card [OF h, of "{}"] by auto
  let ?N1 = "replay M (logw M sec st n)"
  have N1: "?N1 st = M st" by (rule replay_logw_start)
  let ?h = "head_bytes n sec (M st)"
  let ?N2 = "?N1(st := ?h)"
  have ins: "insw ?N2 sec st n = map (\<lambda>i. (sec i, M (sec i))) [0..<n]"
    by (auto simp: insw_def replay_logw)
  let ?N3 = "replay ?N2 (insw ?N2 sec st n)"
  have N3: "?N3 st = ?h"
    using st L by (subst replay_notin) (auto simp: insw_sectors)
  show ?thesis
    unfolding commit_def wp_kbind wp_kget if_P [OF some] wp_kthen
  proof (rule wp_write_log [OF c lg h L])
    fix t1 assume 1: "cfx t1 ?N1 L L {}" "stp s t1 (logw M sec st n)"
    note e1 = stp_log_eqs [OF 1(2)] stp_eqs(3) [OF 1(2)]
    show "wp write_head (\<lambda>_. wp install_trans (\<lambda>_. wp (kmod (\<lambda>s. s\<lparr>lh_n := 0\<rparr>)) (\<lambda>_. wp write_head
        (\<lambda>_ t. lstp s t (commit_writes M sec st n) \<and> lh_n t = 0 \<and> (\<exists>N. cfx t N {} {} {}))))) t1"
    proof (rule wp_write_head [OF 1(1) _ _ _ _ n32])
      fix t2 assume "cfx t2 (?N1(st := head_bytes n sec (?N1 st))) L L {}" "stp t1 t2 [(st, head_bytes n sec (?N1 st))]"
      then have 2: "cfx t2 ?N2 L L {}" "stp t1 t2 [(st, ?h)]" by (simp_all add: N1)
      note e2 = stp_log_eqs [OF 2(2)] stp_eqs(3) [OF 2(2)]
      show "wp install_trans (\<lambda>_. wp (kmod (\<lambda>s. s\<lparr>lh_n := 0\<rparr>)) (\<lambda>_. wp write_head
          (\<lambda>_ t. lstp s t (commit_writes M sec st n) \<and> lh_n t = 0 \<and> (\<exists>N. cfx t N {} {} {})))) t2"
      proof (rule wp_install_trans [OF 2(1)])
        fix t3 assume 3: "cfx t3 ?N3 {} {} {}" "stp t2 t3 (insw ?N2 sec st n)"
        note e3 = stp_log_eqs [OF 3(2)] stp_eqs(3) [OF 3(2)]
        let ?u = "t3\<lparr>lh_n := 0\<rparr>"
        show "wp (kmod (\<lambda>s. s\<lparr>lh_n := 0\<rparr>)) (\<lambda>_. wp write_head
            (\<lambda>_ t. lstp s t (commit_writes M sec st n) \<and> lh_n t = 0 \<and> (\<exists>N. cfx t N {} {} {}))) t3"
          unfolding wp_kmod
        proof (rule wp_write_head [of ?u ?N3 "{}" st 0 sec])
          fix t4 assume 4: "cfx t4 (?N3(st := head_bytes 0 sec (?N3 st))) {} {} {}" "stp ?u t4 [(st, head_bytes 0 sec (?N3 st))]"
          have "lstp s t2 (logw M sec st n @ [(st, ?h)])" by (rule lstp_trans [OF lstp_stp lstp_stp refl]) (fact 1 2)+
          from lstp_trans [OF this lstp_stp [OF 3(2)] refl]
          have "lstp s ?u (logw M sec st n @ [(st, ?h)] @ map (\<lambda>i. (sec i, M (sec i))) [0..<n])"
            by (simp add: ins)
          from lstp_trans [OF this lstp_stp [OF 4(2)] refl]
          have "lstp s t4 (commit_writes M sec st n)"
            by (simp add: N3 commit_writes_def Let_def)
          moreover have "lh_n t4 = 0" using stp_log_eqs(6) [OF 4(2)] by simp
          ultimately show "lstp s t4 (commit_writes M sec st n) \<and> lh_n t4 = 0 \<and> (\<exists>N. cfx t4 N {} {} {})"
            using 4(1) by blast
        qed (use 3(1) e1 e2 e3 lg st in simp_all)
      qed (use e1 e2 lg h L in simp_all)
    qed (use e1 lg st fin in simp_all)
  qed
qed

end
