(* ===== verification/Tx.thy ===== *)
theory Tx
  imports Crash
begin

text \<open>
  Inside a transaction.  Between \<open>begin_op\<close> and \<open>end_op\<close> the file system reads blocks with \<open>bread\<close>, changes them in the cache and
  registers them with \<open>log_write\<close>; nothing reaches the disk.  The rules here give each operation as a change of the contents
  \<open>M\<close> the file system sees and of the set \<open>L\<close> of logged blocks; \<open>Z\<close> are the blocks whose buffers the caller holds.
\<close>

section \<open>The log in memory\<close>

text \<open>The sectors of the log header are the logged blocks, each once, and a transaction is open.\<close>

definition logged :: "'z klog_scheme \<Rightarrow> nat set \<Rightarrow> bool" where
  "logged s L \<longleftrightarrow> 0 \<le> lh_n s \<and> L = lh_sector s ` {..<nat (lh_n s)} \<and> inj_on (lh_sector s) {..<nat (lh_n s)} \<and>
     1 \<le> log_outstanding s \<and> log_size s = int LOGSIZE \<and> log_dev s = 1 \<and> LLog \<notin> set (held s)"

lemma logged_card: "logged s L \<Longrightarrow> finite L \<and> int (card L) = lh_n s"
  by (auto simp: logged_def card_image)

definition tx :: "'z klog_scheme \<Rightarrow> (nat \<Rightarrow> bytes) \<Rightarrow> nat set \<Rightarrow> nat set \<Rightarrow> bool" where
  "tx s M L Z \<longleftrightarrow> cfx s M L L Z \<and> logged s L"

text \<open>What the operations of a transaction leave as it is: everything but the cache, the list of logged sectors and sleeping processes.\<close>

definition txf :: "'z klog_scheme \<Rightarrow> 'z klog_scheme \<Rightarrow> bool" where
  "txf s t \<longleftrightarrow> (\<exists>p B l n h. t = s\<lparr>ptable := p, bufs := B, lru := l, lh_n := n, lh_sector := h\<rparr> \<and> only_woken (ptable s) p)"

lemma txfI: "t = s\<lparr>ptable := p, bufs := B, lru := l, lh_n := n, lh_sector := h\<rparr> \<Longrightarrow> only_woken (ptable s) p \<Longrightarrow> txf s t"
  unfolding txf_def by blast

lemma txf_refl [simp]: "txf s s"
  by (rule txfI [where p = "ptable s" and B = "bufs s" and l = "lru s" and n = "lh_n s" and h = "lh_sector s"]) simp_all

lemma txf_trans: 
  assumes "txf s t" "txf t u"
  shows "txf s u"
proof -
  from assms(1) obtain p B l n h where t: "t = s\<lparr>ptable := p, bufs := B, lru := l, lh_n := n, lh_sector := h\<rparr>"
    and ow: "only_woken (ptable s) p" unfolding txf_def by (elim exE conjE)
  from assms(2) obtain p' B' l' n' h' where u: "u = t\<lparr>ptable := p', bufs := B', lru := l', lh_n := n', lh_sector := h'\<rparr>"
    and ow': "only_woken (ptable t) p'" unfolding txf_def by (elim exE conjE)
  from ow' have "only_woken p p'" by (simp add: t)
  with ow have "only_woken (ptable s) p'" by (rule only_woken_trans)
  moreover have "u = s\<lparr>ptable := p', bufs := B', lru := l', lh_n := n', lh_sector := h'\<rparr>" by (simp add: u t)
  ultimately show ?thesis by (intro txfI)
qed

lemma txf_eqs:
  assumes "txf s t"
  shows "held t = held s" "curproc t = curproc s" "disksize t = disksize s" "only_woken (ptable s) (ptable t)"
    "disk t = disk s" "dwrites t = dwrites s" "log_outstanding t = log_outstanding s" "log_size t = log_size s"
    "log_dev t = log_dev s" "log_start t = log_start s"
  using assms unfolding txf_def by (elim exE conjE; simp)+

lemma stp_txf:
  fixes s t :: "'z klog_scheme"
  assumes "stp s t []"
  shows "txf s t"
proof -
  from assms have "bfr s t" and d: "dwrites t = dwrites s" "disk t = disk s" by (simp_all add: stp_def)
  then obtain p d' w B l where t: "t = s\<lparr>ptable := p, disk := d', dwrites := w, bufs := B, lru := l\<rparr>" and ow: "only_woken (ptable s) p"
    unfolding bfr_def by (elim exE conjE)
  have "t = s\<lparr>ptable := p, bufs := B, lru := l, lh_n := lh_n s, lh_sector := lh_sector s\<rparr>"
    using d t by simp
  then show ?thesis using ow by (rule txfI)
qed

section \<open>Rules\<close>

lemma tx_cfx: "tx s M L Z \<Longrightarrow> cfx s M L L Z"
  by (simp add: tx_def)

lemma tx_logged: "tx s M L Z \<Longrightarrow> logged s L"
  by (simp add: tx_def)

lemma stp_logged:
  fixes s t :: "'z klog_scheme"
  shows "stp s t [] \<Longrightarrow> logged t L = logged s L"
  using stp_log_eqs [of s t "[]"] stp_eqs(1) [of s t "[]"] by (simp add: logged_def)

lemma wp_tx_bread:
  fixes s :: "'z klog_scheme"
  assumes x: "tx s M L Z" and n: "n \<notin> Z" "n < disksize s" and room: "finite Z" "card L + card Z < NBUF"
    and Q: "\<And>b t. tx t M L (insert n Z) \<Longrightarrow> owns t b n \<Longrightarrow> txf s t \<Longrightarrow> kept s t \<Longrightarrow> \<not> fbusy (bufs s b) \<Longrightarrow> Q b t"
  shows "wp (bread 1 n) Q s"
proof (rule wp_bread [OF tx_cfx [OF x] n])
  have "finite L" using logged_card [OF tx_logged [OF x]] by simp
  then show "n \<in> L \<or> finite (L \<union> Z) \<and> card (L \<union> Z) < NBUF"
    using room card_Un_le [of L Z] by auto
  fix b t assume "cfx t M L L (insert n Z)" "owns t b n" "stp s t []" "kept s t" "\<not> fbusy (bufs s b)"
  then show "Q b t" using x by (intro Q) (simp_all add: tx_def stp_logged stp_txf)
qed

lemma wp_tx_brelse:
  fixes s :: "'z klog_scheme"
  assumes x: "tx s M L Z" and o: "owns s b n"
    and Q: "\<And>t. tx t M L (Z - {n}) \<Longrightarrow> txf s t \<Longrightarrow> (\<And>c. c \<noteq> b \<Longrightarrow> bufs t c = bufs s c) \<Longrightarrow> Q () t"
  shows "wp (brelse b) Q s"
proof (rule wp_brelse [OF tx_cfx [OF x] o])
  fix t assume "cfx t M L L (Z - {n})" "stp s t []" and c: "\<And>c. c \<noteq> b \<Longrightarrow> bufs t c = bufs s c"
  then show "Q () t" using x by (intro Q) (simp_all add: tx_def stp_logged stp_txf)
qed

lemma owns_busy: "cfx s M X L Z \<Longrightarrow> owns s b n \<Longrightarrow> n \<in> Z"
  using cfx_busy [of s M X L Z b] by (auto simp: owns_def)

lemma log_slot_held [simp]: "log_slot (s\<lparr>held := h\<rparr>) n = log_slot s n"
  by (simp add: log_slot_def split: option.split)

lemma log_slot_cases:
  assumes "logged s L"
  obtains (old) i where "n \<in> L" "log_slot s n = i" "int i < lh_n s" "lh_sector s i = n"
  | (new) "n \<notin> L" "log_slot s n = nat (lh_n s)"
proof (cases "find (\<lambda>i. lh_sector s i = n) [0..<nat (lh_n s)]")
  case None
  then have "n \<notin> L" using assms by (auto simp: find_None_iff logged_def)
  then show ?thesis using None by (intro new) (simp_all add: log_slot_def)
next
  case (Some i)
  then have "i < nat (lh_n s)" "lh_sector s i = n" by (auto simp: find_Some_iff)
  moreover from this have "n \<in> L" using assms by (auto simp: logged_def)
  ultimately show ?thesis using Some by (intro old [of i]) (simp_all add: log_slot_def)
qed

text \<open>The header after a sector is registered: unchanged when it was there, longer by one otherwise.\<close>

lemma logged_register:
  fixes s t :: "'z klog_scheme"
  assumes l: "logged s L" and f: "lh_sector t = (lh_sector s)(log_slot s n := n)"
      "lh_n t = (if int (log_slot s n) = lh_n s then lh_n s + 1 else lh_n s)"
      "log_outstanding t = log_outstanding s" "log_size t = log_size s" "log_dev t = log_dev s" "held t = held s"
  shows "logged t (insert n L)"
  using l
proof (cases rule: log_slot_cases [where n = n])
  case (old i)
  then have "lh_sector t = lh_sector s" "lh_n t = lh_n s" by (auto simp: f)
  then show ?thesis using l old(1) by (simp add: logged_def f insert_absorb)
next
  case new
  from l have nn: "0 \<le> lh_n s" and L: "L = lh_sector s ` {..<nat (lh_n s)}" and inj: "inj_on (lh_sector s) {..<nat (lh_n s)}"
    by (simp_all add: logged_def)
  have n': "nat (lh_n t) = Suc (nat (lh_n s))" using new nn by (simp add: f)
  have same: "lh_sector t i = lh_sector s i" if "i < nat (lh_n s)" for i using that by (simp add: f new)
  have img: "lh_sector t ` {..<nat (lh_n s)} = L" using same by (auto simp: L)
  have last: "lh_sector t (nat (lh_n s)) = n" by (simp add: f new)
  have "inj_on (lh_sector t) {..<nat (lh_n s)}" using inj same by (simp add: inj_on_def)
  then have "inj_on (lh_sector t) {..<nat (lh_n t)}"
    using img last new(1) by (simp add: n' lessThan_Suc)
  moreover have "insert n L = lh_sector t ` {..<nat (lh_n t)}" by (simp add: n' lessThan_Suc img last)
  moreover have "0 \<le> lh_n t" using nn by (simp add: f)
  ultimately show ?thesis using l by (simp add: logged_def f)
qed

lemma wp_log_write:
  fixes s :: "'z klog_scheme"
  assumes c: "cfx s M (insert n L) L Z" and o: "owns s b n" and l: "logged s L" and room: "card L < 29"
    and Q: "\<And>t. tx t M (insert n L) Z \<Longrightarrow> owns t b n \<Longrightarrow> txf s t \<Longrightarrow> (\<And>c. c \<noteq> b \<Longrightarrow> bufs t c = bufs s c) \<Longrightarrow> Q () t"
  shows "wp (log_write b) Q s"
proof -
  have o1: "b < NBUF" "b_dev (bufs s b) = 1" "b_sector (bufs s b) = n" "fbusy (bufs s b)" "fvalid (bufs s b)"
    using o by (simp_all add: owns_def)
  let ?i = "log_slot s n" and ?x = "(bufs s b)\<lparr>b_flags := insert B_DIRTY (b_flags (bufs s b))\<rparr>"
  let ?t = "s\<lparr>lh_sector := (lh_sector s)(?i := n),
    lh_n := (if int ?i = lh_n s then lh_n s + 1 else lh_n s), bufs := (bufs s)(b := ?x)\<rparr>"
  from l have lg: "lh_n s < 29" "1 \<le> log_outstanding s" "log_size s = int LOGSIZE" "LLog \<notin> set (held s)"
    using logged_card [OF l] room by (simp_all add: logged_def)
  have "logged ?t (insert n L)" by (rule logged_register [OF l]) simp_all
  moreover have "bcf ((bufs s)(b := ?x)) (lru s) (disk s) M (insert n L)"
    using cfx_bc [OF c] o1(1) refl by (rule bcf_flags) (use o1 in auto)
  then have "cfx ?t M (insert n L) (insert n L) Z"
    by (rule cfx_upd [OF c o, rotated 2]) (use o1 owns_busy [OF c o] in auto)
  ultimately have "tx ?t M (insert n L) Z" by (simp add: tx_def)
  moreover have "owns ?t b n" using o1 by (simp add: owns_def)
  moreover have "txf s ?t"
    by (rule txfI [where p = "ptable s" and l = "lru s" and B = "bufs ?t" and n = "lh_n ?t" and h = "lh_sector ?t"]) simp_all
  ultimately have "Q () ?t" by (intro Q) simp_all
  then show ?thesis using lg o1(3)
    by (cases "int ?i = lh_n s") (simp_all add: log_write_def wp_simps upd_buf_def kacquire_def krelease_def)
qed

text \<open>The usual change of a block: its buffer is modified and registered.\<close>

lemma wp_tx_put:
  fixes s :: "'z klog_scheme"
  assumes x: "tx s M L Z" and o: "owns s b n" and room: "card L < 29"
    and Q: "\<And>t. tx t (M(n := f (M n))) (insert n L) Z \<Longrightarrow> owns t b n \<Longrightarrow> txf s t \<Longrightarrow>
      (\<And>c. c \<noteq> b \<Longrightarrow> bufs t c = bufs s c) \<Longrightarrow> wp c Q t"
  shows "wp (kthen (set_data b f) (kthen (log_write b) c)) Q s"
  unfolding wp_kthen
proof (rule wp_set_data [OF tx_cfx [OF x] o owns_busy [OF tx_cfx [OF x] o]])
  fix t assume t: "cfx t (M(n := f (M n))) (insert n L) L Z" "owns t b n" "stp s t []" "\<And>c. c \<noteq> b \<Longrightarrow> bufs t c = bufs s c"
  show "wp (log_write b) (\<lambda>_. wp c Q) t"
  proof (rule wp_log_write [OF t(1,2) _ room])
    show "logged t L" using tx_logged [OF x] t(3) by (simp add: stp_logged)
    fix u assume "tx u (M(n := f (M n))) (insert n L) Z" "owns u b n" "txf t u" "\<And>c. c \<noteq> b \<Longrightarrow> bufs u c = bufs t c"
    then show "wp c Q u" using t by (intro Q) (auto intro: txf_trans stp_txf)
  qed
qed

lemma wp_readsb:
  fixes s :: "'z klog_scheme"
  assumes x: "tx s M L Z" and d: "1 \<notin> Z" "1 < disksize s" and room: "finite Z" "card L + card Z < NBUF"
    and Q: "\<And>t. tx t M L Z \<Longrightarrow> txf s t \<Longrightarrow> kept s t \<Longrightarrow> Q (decode_sb (M 1)) t"
  shows "wp (readsb 1) Q s"
  unfolding readsb_def wp_kbind
proof (rule wp_tx_bread [OF x d room])
  fix b t assume t: "tx t M L (insert 1 Z)" "owns t b 1" "txf s t" "kept s t" "\<not> fbusy (bufs s b)"
  show "wp (kget (\<lambda>s. decode_sb (b_data (bufs s b)))) (\<lambda>sb. wp (kthen (brelse b) (kret sb)) Q) t"
    unfolding wp_kget wp_kthen cfx_data [OF tx_cfx [OF t(1)] t(2)]
  proof (rule wp_tx_brelse [OF t(1,2)])
    fix u assume u: "tx u M L (insert 1 Z - {1})" "txf t u" "\<And>c. c \<noteq> b \<Longrightarrow> bufs u c = bufs t c"
    have "tx u M L Z" using u(1) d by simp
    moreover have "kept s u"
      using t(4,5) u(3) unfolding kept_def by metis
    ultimately show "wp (kret (decode_sb (M 1))) Q u" using t u by (simp add: wp_kret Q txf_trans)
  qed
qed

end
