(* ===== verification/Inode.thy ===== *)
theory Inode
  imports Log
begin

text \<open>
  Blocks and inodes, the first part of \<^verbatim>\<open>src/fs.c\<close>, with the on-disk format of \<^verbatim>\<open>src/fs.h\<close>.  An
  \<open>inode*\<close> is the index of the entry in the inode cache.
\<close>

abbreviation (input) "ROOTINO \<equiv> (1 :: nat)"
abbreviation (input) "NDIRECT \<equiv> (12 :: nat)"
abbreviation (input) "NINDIRECT \<equiv> (128 :: nat)"
abbreviation (input) "MAXFILE \<equiv> (140 :: nat)"
abbreviation (input) "IPB \<equiv> (8 :: nat)"
abbreviation (input) "BPB \<equiv> (4096 :: nat)"
abbreviation (input) "NINODE \<equiv> (50 :: nat)"
abbreviation (input) "T_DIR \<equiv> (1 :: int)"
abbreviation (input) "T_FILE \<equiv> (2 :: int)"
abbreviation (input) "T_DEV \<equiv> (3 :: int)"

datatype inode_flag = I_BUSY | I_VALID

record inode =
  i_dev :: nat
  i_inum :: nat
  i_ref :: int
  i_flags :: "inode_flag set"
  i_type :: int
  i_major :: int
  i_minor :: int
  i_nlink :: int
  i_size :: nat
  i_addrs :: "nat \<Rightarrow> nat"

record kfs = klog +
  icache :: "nat \<Rightarrow> inode"

record dinode =
  d_type :: int
  d_major :: int
  d_minor :: int
  d_nlink :: int
  d_size :: nat
  d_addrs :: "nat \<Rightarrow> nat"

definition IBLOCK :: "nat \<Rightarrow> nat" where
  "IBLOCK i = i div IPB + 2"

definition BBLOCK :: "nat \<Rightarrow> nat \<Rightarrow> nat" where
  "BBLOCK b ninodes = b div BPB + ninodes div IPB + 3"

text \<open>The on-disk inode at byte \<open>k\<close> of its block.\<close>

definition decode_dinode :: "bytes \<Rightarrow> nat \<Rightarrow> dinode" where
  "decode_dinode d k = \<lparr>d_type = short_of (rd16 d k), d_major = short_of (rd16 d (k + 2)),
     d_minor = short_of (rd16 d (k + 4)), d_nlink = short_of (rd16 d (k + 6)),
     d_size = rd32 d (k + 8), d_addrs = (\<lambda>i. if i \<le> NDIRECT then rd32 d (k + 12 + 4 * i) else 0)\<rparr>"

fun put_addrs :: "nat \<Rightarrow> nat \<Rightarrow> (nat \<Rightarrow> nat) \<Rightarrow> bytes \<Rightarrow> bytes" where
  "put_addrs 0 k a d = d"
| "put_addrs (Suc i) k a d = wr32 (put_addrs i k a d) (k + 4 * i) (a i)"

definition encode_dinode :: "dinode \<Rightarrow> nat \<Rightarrow> bytes \<Rightarrow> bytes" where
  "encode_dinode x k d =
     put_addrs (NDIRECT + 1) (k + 12) (d_addrs x)
       (wr32 (wr16 (wr16 (wr16 (wr16 d k (of_short (d_type x))) (k + 2) (of_short (d_major x)))
          (k + 4) (of_short (d_minor x))) (k + 6) (of_short (d_nlink x))) (k + 8) (d_size x))"

definition upd_inode :: "nat \<Rightarrow> (inode \<Rightarrow> inode) \<Rightarrow> 'z kfs_scheme \<Rightarrow> 'z kfs_scheme" where
  "upd_inode i f s = s\<lparr>icache := (icache s)(i := f (icache s i))\<rparr>"

section \<open>Blocks\<close>

definition bzero :: "nat \<Rightarrow> nat \<Rightarrow> (unit, 'z klog_scheme) kop" where
  "bzero dev bno =
     kbind (bread dev bno) (\<lambda>bp.
     kthen (set_data bp (\<lambda>_ _. 0))
    (kthen (log_write bp)
           (brelse bp)))"

function balloc_loop :: "nat \<Rightarrow> superblock \<Rightarrow> nat \<Rightarrow> (nat, 'z klog_scheme) kop" where
  "balloc_loop dev sb b =
     (if b < sb_size sb
      then kbind (bread dev (BBLOCK b (sb_ninodes sb))) (\<lambda>bp.
           kbind (get_data bp) (\<lambda>d.
           case find (\<lambda>bi. \<not> bit (d (bi div 8)) (bi mod 8)) [0..<min BPB (sb_size sb - b)] of
             Some bi \<Rightarrow>
               kthen (set_data bp (\<lambda>d. d(bi div 8 := set_bit (bi mod 8) (d (bi div 8)))))
              (kthen (log_write bp)
              (kthen (brelse bp)
              (kthen (bzero dev (b + bi))
                     (kret (b + bi)))))
           | None \<Rightarrow> kthen (brelse bp) (balloc_loop dev sb (b + BPB))))
      else kpanic ''balloc: out of blocks'')"
  by pat_completeness auto
termination
  by (relation "measure (\<lambda>(_, sb, b). sb_size sb - b)") auto

declare balloc_loop.simps [simp del]

definition balloc :: "nat \<Rightarrow> (nat, 'z klog_scheme) kop" where
  "balloc dev = kbind (readsb dev) (\<lambda>sb. balloc_loop dev sb 0)"

definition bfree :: "nat \<Rightarrow> nat \<Rightarrow> (unit, 'z klog_scheme) kop" where
  "bfree dev b =
     kbind (readsb dev) (\<lambda>sb.
     kbind (bread dev (BBLOCK b (sb_ninodes sb))) (\<lambda>bp.
     let bi = b mod BPB in
     kthen (kassert (\<lambda>s. bit (b_data (bufs s bp) (bi div 8)) (bi mod 8)) ''freeing free block'')
    (kthen (set_data bp (\<lambda>d. d(bi div 8 := unset_bit (bi mod 8) (d (bi div 8)))))
    (kthen (log_write bp)
           (brelse bp)))))"

section \<open>Inodes\<close>

definition iget :: "nat \<Rightarrow> nat \<Rightarrow> (nat, 'z kfs_scheme) kop" where
  "iget dev inum =
     kthen (kacquire LIcache)
    (kbind (kget (\<lambda>s. find (\<lambda>i. i_ref (icache s i) > 0 \<and> i_dev (icache s i) = dev \<and> i_inum (icache s i) = inum) [0..<NINODE])) (\<lambda>r.
     case r of
       Some ip \<Rightarrow>
         kthen (kmod (upd_inode ip (\<lambda>x. x\<lparr>i_ref := i_ref x + 1\<rparr>)))
        (kthen (krelease LIcache) (kret ip))
     | None \<Rightarrow>
         kbind (kget (\<lambda>s. find (\<lambda>i. i_ref (icache s i) = 0) [0..<NINODE])) (\<lambda>e.
         case e of
           None \<Rightarrow> kpanic ''iget: no inodes''
         | Some ip \<Rightarrow>
             kthen (kmod (upd_inode ip (\<lambda>x. x\<lparr>i_dev := dev, i_inum := inum, i_ref := 1, i_flags := {}\<rparr>)))
            (kthen (krelease LIcache) (kret ip)))))"

function ialloc_loop :: "nat \<Rightarrow> int \<Rightarrow> superblock \<Rightarrow> nat \<Rightarrow> (nat, 'z kfs_scheme) kop" where
  "ialloc_loop dev type sb inum =
     (if inum < sb_ninodes sb
      then kbind (bread dev (IBLOCK inum)) (\<lambda>bp.
           kbind (get_data bp) (\<lambda>d.
           if d_type (decode_dinode d (inum mod IPB * 64)) = 0
           then kthen (set_data bp (\<lambda>d. wr16 (blit d (inum mod IPB * 64) (replicate 64 0)) (inum mod IPB * 64) (of_short type)))
               (kthen (log_write bp)
               (kthen (brelse bp)
                      (iget dev inum)))
           else kthen (brelse bp) (ialloc_loop dev type sb (inum + 1))))
      else kpanic ''ialloc: no inodes'')"
  by pat_completeness auto
termination
  by (relation "measure (\<lambda>(_, _, sb, inum). sb_ninodes sb - inum)") auto

declare ialloc_loop.simps [simp del]

definition ialloc :: "nat \<Rightarrow> int \<Rightarrow> (nat, 'z kfs_scheme) kop" where
  "ialloc dev type = kbind (readsb dev) (\<lambda>sb. ialloc_loop dev type sb 1)"

definition dinode_of :: "inode \<Rightarrow> dinode" where
  "dinode_of x = \<lparr>d_type = i_type x, d_major = i_major x, d_minor = i_minor x, d_nlink = i_nlink x,
     d_size = i_size x, d_addrs = i_addrs x\<rparr>"

definition iupdate :: "nat \<Rightarrow> (unit, 'z kfs_scheme) kop" where
  "iupdate ip =
     kbind (kget (\<lambda>s. icache s ip)) (\<lambda>x.
     kbind (bread (i_dev x) (IBLOCK (i_inum x))) (\<lambda>bp.
     kthen (set_data bp (encode_dinode (dinode_of x) (i_inum x mod IPB * 64)))
    (kthen (log_write bp)
           (brelse bp))))"

definition idup :: "nat \<Rightarrow> (nat, 'z kfs_scheme) kop" where
  "idup ip =
     kthen (kacquire LIcache)
    (kthen (kmod (upd_inode ip (\<lambda>x. x\<lparr>i_ref := i_ref x + 1\<rparr>)))
    (kthen (krelease LIcache) (kret ip)))"

definition ilock_load :: "nat \<Rightarrow> (unit, 'z kfs_scheme) kop" where
  "ilock_load ip =
     kbind (kget (\<lambda>s. icache s ip)) (\<lambda>x.
     kbind (bread (i_dev x) (IBLOCK (i_inum x))) (\<lambda>bp.
     kbind (kget (\<lambda>s. decode_dinode (b_data (bufs s bp)) (i_inum x mod IPB * 64))) (\<lambda>d.
     kthen (kmod (upd_inode ip (\<lambda>x. x\<lparr>i_type := d_type d, i_major := d_major d, i_minor := d_minor d,
              i_nlink := d_nlink d, i_size := d_size d, i_addrs := d_addrs d\<rparr>)))
    (kthen (brelse bp)
    (kthen (kmod (upd_inode ip (\<lambda>x. x\<lparr>i_flags := insert I_VALID (i_flags x)\<rparr>)))
           (kassert (\<lambda>s. i_type (icache s ip) \<noteq> 0) ''ilock: no type''))))))"

definition ilock :: "nat \<Rightarrow> (unit, 'z kfs_scheme) kop" where
  "ilock ip =
     kthen (kassert (\<lambda>s. \<not> i_ref (icache s ip) < 1) ''ilock'')
    (kthen (kacquire LIcache)
    (kbind (kget (\<lambda>s. I_BUSY \<in> i_flags (icache s ip))) (\<lambda>busy.
     if busy then sleep (ChInode ip) LIcache
     else
       kthen (kmod (upd_inode ip (\<lambda>x. x\<lparr>i_flags := insert I_BUSY (i_flags x)\<rparr>)))
      (kthen (krelease LIcache)
      (kbind (kget (\<lambda>s. I_VALID \<in> i_flags (icache s ip))) (\<lambda>valid.
       if \<not> valid then ilock_load ip else kret ()))))))"

definition iunlock :: "nat \<Rightarrow> (unit, 'z kfs_scheme) kop" where
  "iunlock ip =
     kthen (kassert (\<lambda>s. \<not> (I_BUSY \<notin> i_flags (icache s ip) \<or> i_ref (icache s ip) < 1)) ''iunlock'')
    (kthen (kacquire LIcache)
    (kthen (kmod (upd_inode ip (\<lambda>x. x\<lparr>i_flags := i_flags x - {I_BUSY}\<rparr>)))
    (kthen (wakeup (ChInode ip))
           (krelease LIcache))))"

section \<open>Inode content\<close>

definition bmap :: "nat \<Rightarrow> nat \<Rightarrow> (nat, 'z kfs_scheme) kop" where
  "bmap ip bn =
     kbind (kget (\<lambda>s. icache s ip)) (\<lambda>x.
     if bn < NDIRECT then
       if i_addrs x bn = 0 then
         kbind (balloc (i_dev x)) (\<lambda>addr.
         kthen (kmod (upd_inode ip (\<lambda>x. x\<lparr>i_addrs := (i_addrs x)(bn := addr)\<rparr>)))
               (kret addr))
       else kret (i_addrs x bn)
     else if bn - NDIRECT < NINDIRECT then
       kbind (if i_addrs x NDIRECT = 0 then
                kbind (balloc (i_dev x)) (\<lambda>addr.
                kthen (kmod (upd_inode ip (\<lambda>x. x\<lparr>i_addrs := (i_addrs x)(NDIRECT := addr)\<rparr>)))
                      (kret addr))
              else kret (i_addrs x NDIRECT)) (\<lambda>ind.
       kbind (bread (i_dev x) ind) (\<lambda>bp.
       kbind (kget (\<lambda>s. rd32 (b_data (bufs s bp)) (4 * (bn - NDIRECT)))) (\<lambda>addr.
       if addr = 0 then
         kbind (balloc (i_dev x)) (\<lambda>addr.
         kthen (set_data bp (\<lambda>d. wr32 d (4 * (bn - NDIRECT)) addr))
        (kthen (log_write bp)
        (kthen (brelse bp) (kret addr))))
       else kthen (brelse bp) (kret addr))))
     else kpanic ''bmap: out of range'')"

definition itrunc_direct :: "nat \<Rightarrow> nat \<Rightarrow> (unit, 'z kfs_scheme) kop" where
  "itrunc_direct ip i =
     kbind (kget (\<lambda>s. icache s ip)) (\<lambda>x.
     if i_addrs x i \<noteq> 0 then
       kthen (bfree (i_dev x) (i_addrs x i))
             (kmod (upd_inode ip (\<lambda>x. x\<lparr>i_addrs := (i_addrs x)(i := 0)\<rparr>)))
     else kret ())"

definition itrunc_indirect :: "nat \<Rightarrow> (unit, 'z kfs_scheme) kop" where
  "itrunc_indirect ip =
     kbind (kget (\<lambda>s. icache s ip)) (\<lambda>x.
     if i_addrs x NDIRECT \<noteq> 0 then
       kbind (bread (i_dev x) (i_addrs x NDIRECT)) (\<lambda>bp.
       kthen (kfor [0..<NINDIRECT] (\<lambda>j.
         kbind (kget (\<lambda>s. rd32 (b_data (bufs s bp)) (4 * j))) (\<lambda>a.
         if a \<noteq> 0 then bfree (i_dev x) a else kret ())))
      (kthen (brelse bp)
      (kthen (bfree (i_dev x) (i_addrs x NDIRECT))
             (kmod (upd_inode ip (\<lambda>x. x\<lparr>i_addrs := (i_addrs x)(NDIRECT := 0)\<rparr>))))))
     else kret ())"

definition itrunc :: "nat \<Rightarrow> (unit, 'z kfs_scheme) kop" where
  "itrunc ip =
     kthen (kfor [0..<NDIRECT] (itrunc_direct ip))
    (kthen (itrunc_indirect ip)
    (kthen (kmod (upd_inode ip (\<lambda>x. x\<lparr>i_size := 0\<rparr>)))
           (iupdate ip)))"

definition iput :: "nat \<Rightarrow> (unit, 'z kfs_scheme) kop" where
  "iput ip =
     kthen (kacquire LIcache)
    (kbind (kget (\<lambda>s. icache s ip)) (\<lambda>x.
     kthen (if i_ref x = 1 \<and> I_VALID \<in> i_flags x \<and> i_nlink x = 0 then
              kthen (kassert (\<lambda>s. I_BUSY \<notin> i_flags (icache s ip)) ''iput busy'')
             (kthen (kmod (upd_inode ip (\<lambda>x. x\<lparr>i_flags := insert I_BUSY (i_flags x)\<rparr>)))
             (kthen (krelease LIcache)
             (kthen (itrunc ip)
             (kthen (kmod (upd_inode ip (\<lambda>x. x\<lparr>i_type := 0\<rparr>)))
             (kthen (iupdate ip)
             (kthen (kacquire LIcache)
             (kthen (kmod (upd_inode ip (\<lambda>x. x\<lparr>i_flags := {}\<rparr>)))
                    (wakeup (ChInode ip)))))))))
            else kret ())
    (kthen (kmod (upd_inode ip (\<lambda>x. x\<lparr>i_ref := i_ref x - 1\<rparr>)))
           (krelease LIcache))))"

definition iunlockput :: "nat \<Rightarrow> (unit, 'z kfs_scheme) kop" where
  "iunlockput ip = kthen (iunlock ip) (iput ip)"

record stat =
  st_type :: int
  st_dev :: nat
  st_ino :: nat
  st_nlink :: int
  st_size :: nat

definition stati :: "nat \<Rightarrow> 'z kfs_scheme \<Rightarrow> stat" where
  "stati ip s = (let x = icache s ip in \<lparr>st_type = i_type x, st_dev = i_dev x, st_ino = i_inum x,
     st_nlink = i_nlink x, st_size = i_size x\<rparr>)"

end
