(* ===== verification/Extent.thy ===== *)
theory Extent
  imports Tx Inode
begin

text \<open>
  Files on disk.  \<open>M\<close> is the contents of the disk blocks as the file system sees them, \<open>bm\<close> the block of the free
  bitmap and \<open>sz\<close> the number of blocks; \<open>x\<close> is the in-memory inode of a file.  This theory says what the blocks of a file are,
  what it contains and what it means for one file to change while all others stay as they are; the theory \<open>FileData\<close> proves that the
  operations of \<^verbatim>\<open>src/fs.c\<close> keep to it.
\<close>

section \<open>The layout\<close>

definition usedb :: "(nat \<Rightarrow> bytes) \<Rightarrow> nat \<Rightarrow> nat \<Rightarrow> bool" where
  "usedb M bm b \<longleftrightarrow> bit (M bm (b div 8)) (b mod 8)"

definition free_blocks :: "(nat \<Rightarrow> bytes) \<Rightarrow> nat \<Rightarrow> nat \<Rightarrow> nat set" where
  "free_blocks M bm sz = {b. b < sz \<and> \<not> usedb M bm b}"

text \<open>
  The image has one bitmap block, as \<^verbatim>\<open>src/mkfs.c\<close> makes it (1024 blocks), and the blocks up to it are marked as used.
\<close>

definition layout :: "(nat \<Rightarrow> bytes) \<Rightarrow> nat \<Rightarrow> nat \<Rightarrow> bool" where
  "layout M bm sz \<longleftrightarrow> sb_size (decode_sb (M 1)) = sz \<and> sb_ninodes (decode_sb (M 1)) div IPB + 3 = bm \<and> bm < sz \<and> sz \<le> BPB \<and>
     (\<forall>b\<le>bm. usedb M bm b)"

lemma layoutD:
  assumes "layout M bm sz"
  shows "sb_size (decode_sb (M 1)) = sz" "bm < sz" "sz \<le> BPB" "3 \<le> bm" "b \<le> bm \<Longrightarrow> usedb M bm b"
    "b < BPB \<Longrightarrow> BBLOCK b (sb_ninodes (decode_sb (M 1))) = bm"
  using assms by (auto simp: layout_def BBLOCK_def)

lemma finite_free_blocks [simp]: "finite (free_blocks M bm sz)"
  by (simp add: free_blocks_def)

section \<open>The blocks of a file\<close>

definition blk :: "(nat \<Rightarrow> bytes) \<Rightarrow> inode \<Rightarrow> nat \<Rightarrow> nat" where
  "blk M x bn =
     (if bn < NDIRECT then i_addrs x bn
      else if i_addrs x NDIRECT = 0 then 0 else rd32 (M (i_addrs x NDIRECT)) (4 * (bn - NDIRECT)))"

text \<open>The references of a file: its data blocks, and the indirect block as the last one.\<close>

definition refs :: "(nat \<Rightarrow> bytes) \<Rightarrow> inode \<Rightarrow> nat \<Rightarrow> nat" where
  "refs M x k = (if k = MAXFILE then i_addrs x NDIRECT else blk M x k)"

definition blocks :: "(nat \<Rightarrow> bytes) \<Rightarrow> inode \<Rightarrow> nat set" where
  "blocks M x = refs M x ` {..MAXFILE} - {0}"

definition file_ok :: "(nat \<Rightarrow> bytes) \<Rightarrow> nat \<Rightarrow> nat \<Rightarrow> inode \<Rightarrow> bool" where
  "file_ok M bm sz x \<longleftrightarrow> i_dev x = 1 \<and> (\<forall>i>NDIRECT. i_addrs x i = 0) \<and> (\<forall>a\<in>blocks M x. bm < a \<and> a < sz \<and> usedb M bm a) \<and>
     (\<forall>j\<le>MAXFILE. \<forall>k\<le>MAXFILE. refs M x j = refs M x k \<and> refs M x j \<noteq> 0 \<longrightarrow> j = k)"

lemma in_blocks: "k \<le> MAXFILE \<Longrightarrow> refs M x k \<noteq> 0 \<Longrightarrow> refs M x k \<in> blocks M x"
  by (simp add: blocks_def)

lemma file_okD:
  assumes "file_ok M bm sz x"
  shows "i_dev x = 1" "a \<in> blocks M x \<Longrightarrow> bm < a \<and> a < sz \<and> usedb M bm a"
    "j \<le> MAXFILE \<Longrightarrow> k \<le> MAXFILE \<Longrightarrow> refs M x j = refs M x k \<Longrightarrow> refs M x j \<noteq> 0 \<Longrightarrow> j = k"
    "NDIRECT < i \<Longrightarrow> i_addrs x i = 0"
  using assms unfolding file_ok_def by blast+

lemma refs_range: "file_ok M bm sz x \<Longrightarrow> k \<le> MAXFILE \<Longrightarrow> refs M x k \<noteq> 0 \<Longrightarrow> bm < refs M x k \<and> refs M x k < sz \<and> usedb M bm (refs M x k)"
  using file_okD(2) in_blocks by blast

lemma blk_refs: "bn < MAXFILE \<Longrightarrow> blk M x bn = refs M x bn"
  by (simp add: refs_def)

text \<open>The bytes of a file; a block that is not there reads as zero.\<close>

definition fbyte :: "(nat \<Rightarrow> bytes) \<Rightarrow> inode \<Rightarrow> nat \<Rightarrow> u8" where
  "fbyte M x k = (if blk M x (k div BSIZE) = 0 then 0 else M (blk M x (k div BSIZE)) (k mod BSIZE))"

abbreviation same_bytes :: "(nat \<Rightarrow> bytes) \<Rightarrow> inode \<Rightarrow> (nat \<Rightarrow> bytes) \<Rightarrow> inode \<Rightarrow> bool" where
  "same_bytes M x M' x' \<equiv> \<forall>k<MAXFILE * BSIZE. fbyte M' x' k = fbyte M x k"

text \<open>No block below the size is missing, so that reading allocates nothing.\<close>

definition whole :: "(nat \<Rightarrow> bytes) \<Rightarrow> inode \<Rightarrow> bool" where
  "whole M x \<longleftrightarrow> (\<forall>k<MAXFILE. k * BSIZE < i_size x \<longrightarrow> blk M x k \<noteq> 0)"

section \<open>Changes of one file\<close>

text \<open>
  Only blocks of this file, blocks that were free, the bitmap and the file's 64 bytes in the inode block \<open>ib\<close> have changed.  What is
  in use stays in use and the file keeps its blocks.
\<close>

definition changes :: "nat \<Rightarrow> nat \<Rightarrow> (nat \<Rightarrow> bytes) \<Rightarrow> inode \<Rightarrow> (nat \<Rightarrow> bytes) \<Rightarrow> inode \<Rightarrow> bool" where
  "changes bm sz M x M' x' \<longleftrightarrow> file_ok M' bm sz x' \<and> layout M' bm sz \<and> (\<forall>b. usedb M bm b \<longrightarrow> usedb M' bm b) \<and>
     (\<forall>n. usedb M bm n \<and> n \<noteq> bm \<and> n \<noteq> IBLOCK (i_inum x) \<and> n \<notin> blocks M x \<longrightarrow> M' n = M n) \<and>
     (\<forall>k. k < i_inum x mod IPB * 64 \<or> i_inum x mod IPB * 64 + 64 \<le> k \<longrightarrow> M' (IBLOCK (i_inum x)) k = M (IBLOCK (i_inum x)) k) \<and>
     (\<forall>k\<le>MAXFILE. refs M x k \<noteq> 0 \<longrightarrow> refs M' x' k = refs M x k) \<and>
     (\<forall>a\<in>blocks M' x' - blocks M x. \<not> usedb M bm a) \<and>
     (\<exists>as n. x' = x\<lparr>i_addrs := as, i_size := n\<rparr>)"

lemma changesD:
  assumes "changes bm sz M x M' x'"
  shows "file_ok M' bm sz x'" "layout M' bm sz" "usedb M bm b \<Longrightarrow> usedb M' bm b"
    "usedb M bm n \<Longrightarrow> n \<noteq> bm \<Longrightarrow> n \<noteq> IBLOCK (i_inum x) \<Longrightarrow> n \<notin> blocks M x \<Longrightarrow> M' n = M n"
    "k < i_inum x mod IPB * 64 \<or> i_inum x mod IPB * 64 + 64 \<le> k \<Longrightarrow> M' (IBLOCK (i_inum x)) k = M (IBLOCK (i_inum x)) k"
    "j \<le> MAXFILE \<Longrightarrow> refs M x j \<noteq> 0 \<Longrightarrow> refs M' x' j = refs M x j"
    "a \<in> blocks M' x' \<Longrightarrow> a \<notin> blocks M x \<Longrightarrow> \<not> usedb M bm a"
    "i_inum x' = i_inum x" "i_dev x' = i_dev x" "i_type x' = i_type x" "i_major x' = i_major x" "i_minor x' = i_minor x"
    "i_nlink x' = i_nlink x" "i_flags x' = i_flags x" "i_ref x' = i_ref x"
  using assms unfolding changes_def by auto

lemma changes_refl: "file_ok M bm sz x \<Longrightarrow> layout M bm sz \<Longrightarrow> changes bm sz M x M x"
  unfolding changes_def by (auto intro!: exI [of _ "i_addrs x"] exI [of _ "i_size x"])

lemma changes_blocks:
  assumes "changes bm sz M x M' x'"
  shows "blocks M x \<subseteq> blocks M' x'"
proof
  fix a assume "a \<in> blocks M x"
  then obtain k where k: "k \<le> MAXFILE" "a = refs M x k" "refs M x k \<noteq> 0" by (auto simp: blocks_def)
  with changesD(6) [OF assms k(1,3)] in_blocks [of k M' x'] show "a \<in> blocks M' x'" by simp
qed

lemma changes_trans:
  assumes c: "changes bm sz M x M' x'" and d: "changes bm sz M' x' M'' x''"
  shows "changes bm sz M x M'' x''"
proof -
  note e = changesD(8) [OF c]
  have "M'' n = M n" if "usedb M bm n" "n \<noteq> bm" "n \<noteq> IBLOCK (i_inum x)" "n \<notin> blocks M x" for n
    using changesD(4) [OF c that] changesD(7) [OF c, of n] that changesD(4) [OF d changesD(3) [OF c that(1)], unfolded e]
    by metis
  moreover have "\<not> usedb M bm a" if "a \<in> blocks M'' x''" "a \<notin> blocks M x" for a
    using changesD(7) [OF c _ that(2)] changesD(7) [OF d that(1)] changesD(3) [OF c] by blast
  moreover have "\<exists>as n. x'' = x\<lparr>i_addrs := as, i_size := n\<rparr>"
  proof -
    obtain as n as' n' where "x' = x\<lparr>i_addrs := as, i_size := n\<rparr>" "x'' = x'\<lparr>i_addrs := as', i_size := n'\<rparr>"
      using c d unfolding changes_def by blast
    then have "x'' = x\<lparr>i_addrs := as', i_size := n'\<rparr>" by simp
    then show ?thesis by blast
  qed
  ultimately show ?thesis
    unfolding changes_def using changesD(1,2) [OF d] changesD(3,6) [OF c] changesD(3,6) [OF d] changesD(5) [OF c] changesD(5) [OF d, unfolded e]
    by simp
qed

text \<open>Another file is not affected: it keeps its bytes and its blocks, which stay disjoint.\<close>

lemma changes_other:
  assumes c: "changes bm sz M x M' x'" and x: "file_ok M bm sz x" and y: "file_ok M bm sz y" and ib: "IBLOCK (i_inum x) < bm"
    and dj: "blocks M x \<inter> blocks M y = {}"
  shows "file_ok M' bm sz y \<and> same_bytes M y M' y \<and> blocks M' y = blocks M y \<and> blocks M' x' \<inter> blocks M y = {}"
proof -
  have eq: "M' a = M a" if "a \<in> blocks M y" for a
    using that dj file_okD(2) [OF y that] ib by (intro changesD(4) [OF c]) auto
  have ind: "i_addrs y NDIRECT \<in> blocks M y" if "i_addrs y NDIRECT \<noteq> 0"
    using that in_blocks [of MAXFILE M y] by (simp add: refs_def)
  have blk: "blk M' y k = blk M y k" for k using eq [OF ind] by (simp add: blk_def)
  then have refs: "refs M' y k = refs M y k" for k by (simp add: refs_def)
  then have bl: "blocks M' y = blocks M y" by (simp add: blocks_def)
  have "file_ok M' bm sz y" using y changesD(3) [OF c] unfolding file_ok_def bl refs by blast
  moreover have "fbyte M' y k = fbyte M y k" if "k < MAXFILE * BSIZE" for k
  proof -
    have "k div BSIZE < MAXFILE" using that by (simp add: less_mult_imp_div_less)
    then have "blk M y (k div BSIZE) \<in> blocks M y" if "blk M y (k div BSIZE) \<noteq> 0"
      using that in_blocks [of "k div BSIZE" M y] by (simp add: blk_refs)
    then show ?thesis using eq by (simp add: fbyte_def blk)
  qed
  moreover have "blocks M' x' \<inter> blocks M y = {}"
    using dj changesD(7) [OF c] file_okD(2) [OF y] by blast
  ultimately show ?thesis using bl by simp
qed

section \<open>Taking a block\<close>

definition mark :: "bytes \<Rightarrow> nat \<Rightarrow> bytes" where
  "mark d a = d(a div 8 := set_bit (a mod 8) (d (a div 8)))"

text \<open>The contents after \<open>balloc\<close> returned \<open>a\<close>: the bit is set and the block is zero.\<close>

definition taken :: "nat \<Rightarrow> nat \<Rightarrow> (nat \<Rightarrow> bytes) \<Rightarrow> nat \<Rightarrow> bytes" where
  "taken bm a M = (M(bm := mark (M bm) a))(a := \<lambda>_. 0)"

lemma usedb_mark:
  assumes "M' bm = mark (M bm) a"
  shows "usedb M' bm b \<longleftrightarrow> b = a \<or> usedb M bm b"
proof -
  have "b = a \<longleftrightarrow> b div 8 = a div 8 \<and> b mod 8 = a mod 8" by (metis div_mult_mod_eq)
  then show ?thesis by (auto simp: usedb_def assms mark_def bit_set_bit_iff)
qed

lemma card_free_mark:
  assumes "M' bm = mark (M bm) a" "a < sz" "\<not> usedb M bm a"
  shows "card (free_blocks M' bm sz) + 1 = card (free_blocks M bm sz)"
proof -
  have "free_blocks M' bm sz = free_blocks M bm sz - {a}" "a \<in> free_blocks M bm sz"
    using assms by (auto simp: free_blocks_def usedb_mark [of M' bm M a, OF assms(1)])
  then show ?thesis using card_Suc_Diff1 [OF finite_free_blocks, of a M bm sz] by simp
qed

lemma layout_mark:
  assumes "layout M bm sz" "M' bm = mark (M bm) a" "M' 1 = M 1"
  shows "layout M' bm sz"
  using assms unfolding layout_def by (simp add: usedb_mark [of M' bm M a, OF assms(2)])

text \<open>
  A free block \<open>a\<close> has become the reference \<open>k\<close> of the file, where there was none; besides the block and the bitmap, only the
  indirect block may have changed.
\<close>

definition filled :: "nat \<Rightarrow> nat \<Rightarrow> nat \<Rightarrow> (nat \<Rightarrow> bytes) \<Rightarrow> inode \<Rightarrow> (nat \<Rightarrow> bytes) \<Rightarrow> inode \<Rightarrow> bool" where
  "filled bm k a M x M' x' \<longleftrightarrow> M' bm = mark (M bm) a \<and> M' a = (\<lambda>_. 0) \<and>
     (\<forall>n. n \<noteq> bm \<and> n \<noteq> a \<and> (i_addrs x NDIRECT = 0 \<or> n \<noteq> i_addrs x NDIRECT) \<longrightarrow> M' n = M n) \<and>
     (\<forall>j\<le>MAXFILE. refs M' x' j = (if j = k then a else refs M x j)) \<and> (\<exists>as. x' = x\<lparr>i_addrs := as\<rparr> \<and> (\<forall>i>NDIRECT. as i = i_addrs x i))"

lemma filled_low:
  assumes f: "filled bm k a M x M' x'" and a: "bm < a" and ok: "file_ok M bm sz x" and n: "n < bm"
  shows "M' n = M n"
  using assms refs_range [OF ok, of MAXFILE] by (cases "i_addrs x NDIRECT = 0") (auto simp: filled_def refs_def)

lemma filled_changes:
  assumes f: "filled bm k a M x M' x'" and k: "k \<le> MAXFILE" "refs M x k = 0" and a: "bm < a" "a < sz" "\<not> usedb M bm a"
    and ok: "file_ok M bm sz x" and l: "layout M bm sz" and ib: "IBLOCK (i_inum x) < bm"
  shows "changes bm sz M x M' x'"
proof -
  have bit: "M' bm = mark (M bm) a" and ind: "n \<noteq> bm \<Longrightarrow> n \<noteq> a \<Longrightarrow> i_addrs x NDIRECT = 0 \<or> n \<noteq> i_addrs x NDIRECT \<Longrightarrow> M' n = M n"
    and refs: "j \<le> MAXFILE \<Longrightarrow> refs M' x' j = (if j = k then a else refs M x j)" for n j
    using f by (simp_all add: filled_def)
  obtain as where x': "x' = x\<lparr>i_addrs := as\<rparr>" "\<And>i. NDIRECT < i \<Longrightarrow> as i = i_addrs x i" using f by (auto simp: filled_def)
  have bl: "blocks M' x' = insert a (blocks M x)"
  proof -
    have "refs M' x' ` {..MAXFILE} = insert a (refs M x ` ({..MAXFILE} - {k}))" using refs k by auto
    moreover have "refs M x ` ({..MAXFILE} - {k}) - {0} = blocks M x" using k unfolding blocks_def by auto
    ultimately show ?thesis using a unfolding blocks_def by auto
  qed
  have notin: "a \<notin> blocks M x" using file_okD(2) [OF ok] a(3) by blast
  have lo: "M' n = M n" if "n < bm" for n by (rule filled_low [OF f a(1) ok that])
  have other: "M' n = M n" if "n \<noteq> bm" "usedb M bm n" "n \<notin> blocks M x" for n
    using that ind [of n] a in_blocks [of MAXFILE M x] by (cases "i_addrs x NDIRECT = 0") (auto simp: refs_def)
  have range: "bm < b \<and> b < sz \<and> usedb M' bm b" if "b \<in> insert a (blocks M x)" for b
    using that file_okD(2) [OF ok] a by (auto simp: usedb_mark [of M' bm M a, OF bit])
  have inj: "i = j" if "i \<le> MAXFILE" "j \<le> MAXFILE" "refs M' x' i = refs M' x' j" "refs M' x' i \<noteq> 0" for i j
    using that notin in_blocks [of i M x] in_blocks [of j M x] file_okD(3) [OF ok that(1,2)]
    by (auto simp: refs split: if_splits)
  have "file_ok M' bm sz x'"
    unfolding file_ok_def bl using file_okD(1,4) [OF ok] x' range inj by simp
  moreover have "layout M' bm sz" using layoutD(4) [OF l] by (intro layout_mark [of M bm sz M' a, OF l bit]) (simp add: lo)
  moreover have "\<exists>as n. x' = x\<lparr>i_addrs := as, i_size := n\<rparr>"
    using x'(1) by (intro exI [of _ as] exI [of _ "i_size x"]) simp
  ultimately show ?thesis
    unfolding changes_def using other lo [OF ib] k a(3) by (auto simp: refs bl usedb_mark [of M' bm M a, OF bit])
qed

lemma filled_bytes:
  assumes f: "filled bm k a M x M' x'" and k: "k \<le> MAXFILE" "refs M x k = 0" and a: "bm < a" "\<not> usedb M bm a"
    and ok: "file_ok M bm sz x"
  shows "same_bytes M x M' x'"
proof (intro allI impI)
  fix i assume "i < MAXFILE * BSIZE"
  then have j: "i div BSIZE < MAXFILE" by (simp add: less_mult_imp_div_less)
  have refs: "blk M' x' (i div BSIZE) = (if i div BSIZE = k then a else refs M x (i div BSIZE))"
    using f j by (simp add: filled_def blk_refs)
  have eq: "M' (refs M x (i div BSIZE)) = M (refs M x (i div BSIZE))" if "refs M x (i div BSIZE) \<noteq> 0"
  proof -
    have "refs M x (i div BSIZE) \<noteq> i_addrs x NDIRECT"
      using file_okD(3) [OF ok, of "i div BSIZE" MAXFILE] j that by (auto simp: refs_def)
    then show ?thesis using f refs_range [OF ok, of "i div BSIZE"] j that a by (auto simp: filled_def)
  qed
  show "fbyte M' x' i = fbyte M x i"
    using f k j eq a unfolding fbyte_def refs by (auto simp: blk_refs filled_def)
qed

text \<open>The three places where \<open>bmap\<close> puts a new block.\<close>

lemma rd32_zero [simp]: "rd32 (\<lambda>_. 0) k = 0"
  by (simp add: rd32_def)

lemma filled_direct:
  assumes a: "\<not> usedb M bm a" "bm < a" and k: "k < NDIRECT" and ok: "file_ok M bm sz x"
  shows "filled bm k a M x (taken bm a M) (x\<lparr>i_addrs := (i_addrs x)(k := a)\<rparr>)"
proof -
  have "i_addrs x NDIRECT \<noteq> a" "i_addrs x NDIRECT \<noteq> bm" if "i_addrs x NDIRECT \<noteq> 0"
    using refs_range [OF ok, of MAXFILE] that a by (auto simp: refs_def)
  then show ?thesis using a k by (auto simp: filled_def taken_def refs_def blk_def)
qed

lemma filled_pointer:
  assumes a: "bm < a" and z: "i_addrs x NDIRECT = 0"
  shows "filled bm MAXFILE a M x (taken bm a M) (x\<lparr>i_addrs := (i_addrs x)(NDIRECT := a)\<rparr>)"
  using a z by (auto simp: filled_def taken_def refs_def blk_def)

lemma filled_indirect:
  assumes a: "\<not> usedb M bm a" "bm < a" "a < sz" and k: "NDIRECT \<le> k" "k < MAXFILE" and ok: "file_ok M bm sz x"
    and i: "i_addrs x NDIRECT \<noteq> 0" and sz: "sz \<le> BPB"
  shows "filled bm k a M x ((taken bm a M)(i_addrs x NDIRECT := wr32 (M (i_addrs x NDIRECT)) (4 * (k - NDIRECT)) a)) x"
proof -
  have ne: "i_addrs x NDIRECT \<noteq> a" "i_addrs x NDIRECT \<noteq> bm"
    using refs_range [OF ok, of MAXFILE] i a by (auto simp: refs_def)
  have "rd32 (wr32 (M (i_addrs x NDIRECT)) (4 * (k - NDIRECT)) a) (4 * (j - NDIRECT)) = rd32 (M (i_addrs x NDIRECT)) (4 * (j - NDIRECT))"
    if "j \<noteq> k" "NDIRECT \<le> j" for j
    using that k by (intro rd32_wr32_other) linarith
  moreover have "a mod 4294967296 = a" using a(3) sz by simp
  ultimately show ?thesis using a k i ne
    by (auto simp: filled_def taken_def refs_def blk_def not_less intro!: exI [of _ "i_addrs x"])
qed

section \<open>Writing into a block\<close>

lemma overwrite_refs:
  assumes ok: "file_ok M bm sz x" and bn: "bn < MAXFILE" "blk M x bn \<noteq> 0"
  shows "j \<le> MAXFILE \<Longrightarrow> refs (M(blk M x bn := d)) x j = refs M x j"
proof -
  have "i_addrs x NDIRECT \<noteq> blk M x bn" if "i_addrs x NDIRECT \<noteq> 0"
    using file_okD(3) [OF ok, of bn MAXFILE] bn that by (auto simp: refs_def)
  then show "refs (M(blk M x bn := d)) x j = refs M x j" by (auto simp: refs_def blk_def)
qed

lemma overwrite_changes:
  assumes ok: "file_ok M bm sz x" and l: "layout M bm sz" and bn: "bn < MAXFILE" "blk M x bn \<noteq> 0" and ib: "IBLOCK (i_inum x) < bm"
  shows "changes bm sz M x (M(blk M x bn := d)) x"
proof -
  let ?M = "M(blk M x bn := d)"
  have refs: "j \<le> MAXFILE \<Longrightarrow> refs ?M x j = refs M x j" for j by (rule overwrite_refs [OF ok bn])
  have mem: "blk M x bn \<in> blocks M x" using in_blocks [of bn M x] bn by (simp add: blk_refs)
  then have r: "bm < blk M x bn" using file_okD(2) [OF ok] by blast
  have bl: "blocks ?M x = blocks M x" unfolding blocks_def using refs by auto
  have u: "usedb ?M bm b \<longleftrightarrow> usedb M bm b" for b using r by (simp add: usedb_def)
  have "file_ok ?M bm sz x" using ok unfolding file_ok_def bl by (simp add: u refs)
  moreover have "layout ?M bm sz" using l layoutD(4) [OF l] r by (simp add: layout_def u)
  moreover have "\<exists>as n. x = x\<lparr>i_addrs := as, i_size := n\<rparr>"
    by (intro exI [of _ "i_addrs x"] exI [of _ "i_size x"]) simp
  ultimately show ?thesis unfolding changes_def using mem ib r by (auto simp: bl u refs)
qed

lemma overwrite_bytes:
  assumes ok: "file_ok M bm sz x" and bn: "off div BSIZE < MAXFILE" "blk M x (off div BSIZE) \<noteq> 0"
    and len: "off mod BSIZE + length bs \<le> BSIZE" and k: "k < MAXFILE * BSIZE"
  shows "fbyte (M(blk M x (off div BSIZE) := blit (M (blk M x (off div BSIZE))) (off mod BSIZE) bs)) x k =
    (if off \<le> k \<and> k < off + length bs then bs ! (k - off) else fbyte M x k)"
proof -
  let ?a = "blk M x (off div BSIZE)" and ?M = "M(blk M x (off div BSIZE) := blit (M (blk M x (off div BSIZE))) (off mod BSIZE) bs)"
  have j: "k div BSIZE < MAXFILE" using k by (simp add: less_mult_imp_div_less)
  have blk: "blk ?M x (k div BSIZE) = blk M x (k div BSIZE)"
    using overwrite_refs [OF ok bn, of "k div BSIZE"] j by (simp add: blk_refs)
  have eq: "blk M x (k div BSIZE) = ?a \<longleftrightarrow> k div BSIZE = off div BSIZE" if "blk M x (k div BSIZE) \<noteq> 0"
    using file_okD(3) [OF ok, of "k div BSIZE" "off div BSIZE"] j bn that by (auto simp: blk_refs)
  show ?thesis
  proof (cases "k div BSIZE = off div BSIZE")
    case True
    have o: "off = off div BSIZE * BSIZE + off mod BSIZE" by simp
    have kk: "k = off div BSIZE * BSIZE + k mod BSIZE" using True by (metis div_mult_mod_eq)
    have "off \<le> k \<and> k < off + length bs \<longleftrightarrow> off mod BSIZE \<le> k mod BSIZE \<and> k mod BSIZE < off mod BSIZE + length bs"
      and "k - off = k mod BSIZE - off mod BSIZE"
      using o kk by linarith+
    then show ?thesis using bn True unfolding fbyte_def blk by (simp add: blit_def)
  next
    case False
    have "\<not> (off \<le> k \<and> k < off + length bs)"
    proof
      assume k: "off \<le> k \<and> k < off + length bs"
      have "k < off div BSIZE * BSIZE + BSIZE"
        using k len div_mult_mod_eq [of off BSIZE] by linarith
      then have "k div BSIZE \<le> off div BSIZE" by (simp add: less_mult_imp_div_less less_Suc_eq_le [symmetric])
      moreover have "off div BSIZE \<le> k div BSIZE" using k by (simp add: div_le_mono)
      ultimately show False using False by simp
    qed
    then show ?thesis using False eq unfolding fbyte_def blk by auto
  qed
qed

end
