(* ===== verification/Dinode.thy ===== *)
theory Dinode
  imports Inode
begin

text \<open>
  The on-disk inode.  Eight inodes share a block; \<open>encode_dinode\<close> stores one at its byte offset and \<open>decode_dinode\<close> reads it back.
\<close>

text \<open>The values the fields of \<open>struct dinode\<close> can hold.\<close>

definition short_range :: "int \<Rightarrow> bool" where
  "short_range i \<longleftrightarrow> -32768 \<le> i \<and> i < 32768"

definition dinode_ok :: "dinode \<Rightarrow> bool" where
  "dinode_ok x \<longleftrightarrow> short_range (d_type x) \<and> short_range (d_major x) \<and> short_range (d_minor x) \<and> short_range (d_nlink x) \<and>
     d_size x < W32 \<and> (\<forall>i. d_addrs x i < W32) \<and> (\<forall>i>NDIRECT. d_addrs x i = 0)"

lemma put_addrs_outside: "j < k \<or> k + 4 * n \<le> j \<Longrightarrow> put_addrs n k a d j = d j"
  by (induction n) (auto simp: wr32_outside)

lemma rd32_put_addrs: "i < n \<Longrightarrow> rd32 (put_addrs n k a d) (k + 4 * i) = a i mod 4294967296"
proof (induction n)
  case (Suc n)
  show ?case
  proof (cases "i = n")
    case False
    with Suc have "i < n" by simp
    then have "rd32 (wr32 (put_addrs n k a d) (k + 4 * n) (a n)) (k + 4 * i) = rd32 (put_addrs n k a d) (k + 4 * i)"
      by (intro rd32_wr32_other) simp
    with Suc.IH \<open>i < n\<close> show ?thesis by simp
  qed simp
qed simp

lemma rd32_put_addrs_other: "j + 4 \<le> k \<Longrightarrow> rd32 (put_addrs n k a d) j = rd32 d j"
  by (rule rd32_cong) (simp add: put_addrs_outside)

lemma rd16_put_addrs_other: "j + 2 \<le> k \<Longrightarrow> rd16 (put_addrs n k a d) j = rd16 d j"
  by (simp add: rd16_def put_addrs_outside)

lemma encode_dinode_outside: "j < k \<or> k + 64 \<le> j \<Longrightarrow> encode_dinode x k d j = d j"
  unfolding encode_dinode_def by (elim disjE) (simp_all add: put_addrs_outside wr32_outside wr16_outside)

lemma decode_dinode_cong:
  assumes "\<And>j. k \<le> j \<Longrightarrow> j < k + 64 \<Longrightarrow> b j = c j"
  shows "decode_dinode b k = decode_dinode c k"
proof -
  have "rd32 b (k + 12 + 4 * i) = rd32 c (k + 12 + 4 * i)" if "i \<le> NDIRECT" for i
    using that by (intro rd32_cong assms) simp_all
  moreover have "rd32 b (k + 8) = rd32 c (k + 8)" by (intro rd32_cong assms) simp_all
  moreover have "rd16 b k = rd16 c k" "rd16 b (k + 2) = rd16 c (k + 2)" "rd16 b (k + 4) = rd16 c (k + 4)" "rd16 b (k + 6) = rd16 c (k + 6)"
    by (simp_all add: rd16_def assms)
  ultimately show ?thesis unfolding decode_dinode_def by (simp add: fun_eq_iff)
qed

lemma decode_encode:
  assumes "dinode_ok x"
  shows "decode_dinode (encode_dinode x k d) k = x"
proof -
  have "d_addrs x i mod 4294967296 = d_addrs x i" for i using assms by (simp add: dinode_ok_def)
  moreover have "(if i \<le> NDIRECT then d_addrs x i else 0) = d_addrs x i" for i using assms by (auto simp: dinode_ok_def)
  moreover have "rd32 (put_addrs 13 (k + 12) a b) (k + 12 + 4 * i) = a i mod 4294967296" if "i \<le> NDIRECT" for a b i
    using that by (intro rd32_put_addrs) simp
  moreover have "of_short i mod 65536 = of_short i" for i using of_short_less [of i] by simp
  ultimately show ?thesis using assms
    unfolding decode_dinode_def encode_dinode_def dinode_ok_def short_range_def
    by (simp add: rd16_put_addrs_other rd32_put_addrs_other cong: if_cong)
qed

text \<open>
  C18.  An inode stored on disk is read back unchanged, and storing it leaves the other inodes of the block as they are.
\<close>

theorem dinode_roundtrip:
  assumes "dinode_ok x" and "j \<noteq> i"
  shows "decode_dinode (encode_dinode x (i * 64) d) (i * 64) = x \<and>
    decode_dinode (encode_dinode x (i * 64) d) (j * 64) = decode_dinode d (j * 64)"
proof
  show "decode_dinode (encode_dinode x (i * 64) d) (j * 64) = decode_dinode d (j * 64)"
  proof (rule decode_dinode_cong, rule encode_dinode_outside)
    fix m assume "j * 64 \<le> m" "m < j * 64 + 64"
    with \<open>j \<noteq> i\<close> show "m < i * 64 \<or> i * 64 + 64 \<le> m" by linarith
  qed
qed (rule decode_encode [OF assms(1)])

theorem dinode_roundtrip_witness:
  "decode_dinode (encode_dinode \<lparr>d_type = 2, d_major = 0, d_minor = -1, d_nlink = 3, d_size = 4097, d_addrs = (\<lambda>i. if i < 9 then 600 + i else 0)\<rparr>
      (5 * 64) (\<lambda>_. 7)) (5 * 64) =
    \<lparr>d_type = 2, d_major = 0, d_minor = -1, d_nlink = 3, d_size = 4097, d_addrs = (\<lambda>i. if i < 9 then 600 + i else 0)\<rparr>"
  by (rule dinode_roundtrip [where j = 0, THEN conjunct1]) (simp_all add: dinode_ok_def short_range_def)

end
