(* ===== verification/Devices.thy ===== *)
theory Devices
  imports Inode
begin

text \<open>
  The simple devices: the interrupt controllers (\<^verbatim>\<open>src/picirq.c\<close>, \<^verbatim>\<open>src/ioapic.c\<close>, \<^verbatim>\<open>src/lapic.c\<close>), the
  interval timer (\<^verbatim>\<open>src/timer.c\<close>) and the serial port (\<^verbatim>\<open>src/uart.c\<close>).  Port output is recorded in
  order; what a port or a memory-mapped register reads as is part of the state, and the bytes that
  wait in the serial receiver and in the keyboard controller are lists.
\<close>

abbreviation (input) "IO_PIC1 \<equiv> (0x20 :: nat)"
abbreviation (input) "IO_PIC2 \<equiv> (0xA0 :: nat)"
abbreviation (input) "T_IRQ0 \<equiv> (32 :: nat)"
abbreviation (input) "IRQ_TIMER \<equiv> (0 :: nat)"
abbreviation (input) "IRQ_KBD \<equiv> (1 :: nat)"
abbreviation (input) "IRQ_COM1 \<equiv> (4 :: nat)"
abbreviation (input) "IRQ_IDE \<equiv> (14 :: nat)"
abbreviation (input) "IRQ_ERROR \<equiv> (19 :: nat)"
abbreviation (input) "IRQ_SPURIOUS \<equiv> (31 :: nat)"
abbreviation (input) "COM1 \<equiv> (0x3f8 :: nat)"

record kdev = kfs +
  outs :: "(nat \<times> nat) list"
  inp :: "nat \<Rightarrow> nat"
  irqmask :: nat
  ismp :: bool
  ioapicid :: nat
  ioapic_regs :: "nat \<Rightarrow> nat"
  lapic_mapped :: bool
  lapic_regs :: "nat \<Rightarrow> nat"
  uart :: bool
  uart_in :: "nat list"
  kbd_in :: "nat list"
  kbd_shift :: nat

definition outb :: "nat \<Rightarrow> nat \<Rightarrow> (unit, 'z kdev_scheme) kop" where
  "outb port data = kmod (\<lambda>s. s\<lparr>outs := outs s @ [(port, data mod 256)]\<rparr>)"

definition inb :: "nat \<Rightarrow> (nat, 'z kdev_scheme) kop" where
  "inb port = kget (\<lambda>s. inp s port mod 256)"

section \<open>The interrupt controllers\<close>

definition picsetmask :: "nat \<Rightarrow> (unit, 'z kdev_scheme) kop" where
  "picsetmask msk =
     kthen (kmod (\<lambda>s. s\<lparr>irqmask := msk\<rparr>))
    (kthen (outb (IO_PIC1 + 1) msk)
           (outb (IO_PIC2 + 1) (msk div 256)))"

definition picenable :: "nat \<Rightarrow> (unit, 'z kdev_scheme) kop" where
  "picenable irq = kbind (kget (\<lambda>s. unset_bit irq (irqmask s))) picsetmask"

definition picinit :: "(unit, 'z kdev_scheme) kop" where
  "picinit =
     kthen (kfor [(IO_PIC1 + 1, 0xFF), (IO_PIC2 + 1, 0xFF),
         (IO_PIC1, 0x11), (IO_PIC1 + 1, T_IRQ0), (IO_PIC1 + 1, 4), (IO_PIC1 + 1, 0x3),
         (IO_PIC2, 0x11), (IO_PIC2 + 1, T_IRQ0 + 8), (IO_PIC2 + 1, 2), (IO_PIC2 + 1, 0x3),
         (IO_PIC1, 0x68), (IO_PIC1, 0x0a), (IO_PIC2, 0x68), (IO_PIC2, 0x0a)] (\<lambda>(p, d). outb p d))
    (kbind (kget irqmask) (\<lambda>m. if m \<noteq> 0xFFFF then picsetmask m else kret ()))"

text \<open>The registers behind the index and data words of the I/O APIC.\<close>

definition ioapicread :: "nat \<Rightarrow> (nat, 'z kdev_scheme) kop" where
  "ioapicread reg = kget (\<lambda>s. ioapic_regs s reg)"

definition ioapicwrite :: "nat \<Rightarrow> nat \<Rightarrow> (unit, 'z kdev_scheme) kop" where
  "ioapicwrite reg data = kmod (\<lambda>s. s\<lparr>ioapic_regs := (ioapic_regs s)(reg := data)\<rparr>)"

definition ioapicenable :: "nat \<Rightarrow> nat \<Rightarrow> (unit, 'z kdev_scheme) kop" where
  "ioapicenable irq cpunum =
     kbind (kget ismp) (\<lambda>mp.
     if \<not> mp then kret ()
     else kthen (ioapicwrite (0x10 + 2 * irq) (T_IRQ0 + irq))
                (ioapicwrite (0x10 + 2 * irq + 1) (push_bit 24 cpunum)))"

text \<open>The local APIC: the word index of a register, as in the source.\<close>

definition lapicw :: "nat \<Rightarrow> nat \<Rightarrow> (unit, 'z kdev_scheme) kop" where
  "lapicw index val = kmod (\<lambda>s. s\<lparr>lapic_regs := (lapic_regs s)(index := val)\<rparr>)"

text \<open>
  \<open>lapicinit\<close> waits for the delivery bit of the command register to clear; the model waits no
  time: a register the hardware never clears would keep the CPU in the loop.
\<close>

definition lapicinit :: "(unit, 'z kdev_scheme) kop" where
  "lapicinit =
     kbind (kget lapic_mapped) (\<lambda>l.
     if \<not> l then kret ()
     else kthen (kfor [(0xF0 div 4, 0x100 OR (T_IRQ0 + IRQ_SPURIOUS)), (0x3E0 div 4, 0xB),
              (0x320 div 4, 0x20000 OR (T_IRQ0 + IRQ_TIMER)), (0x380 div 4, 10000000),
              (0x350 div 4, 0x10000), (0x360 div 4, 0x10000)] (\<lambda>(i, v). lapicw i v))
         (kbind (kget (\<lambda>s. drop_bit 16 (lapic_regs s (0x30 div 4)) AND 0xFF)) (\<lambda>ver.
          kthen (if ver \<ge> 4 then lapicw (0x340 div 4) 0x10000 else kret ())
                (kfor [(0x370 div 4, T_IRQ0 + IRQ_ERROR), (0x280 div 4, 0), (0x280 div 4, 0), (0xB0 div 4, 0),
                   (0x310 div 4, 0), (0x300 div 4, 0x80000 OR 0x500 OR 0x8000), (0x80 div 4, 0)]
                   (\<lambda>(i, v). lapicw i v)))))"

definition lapiceoi :: "(unit, 'z kdev_scheme) kop" where
  "lapiceoi = kbind (kget lapic_mapped) (\<lambda>l. if l then lapicw (0xB0 div 4) 0 else kret ())"

section \<open>The timer\<close>

definition TIMER_DIV :: "nat \<Rightarrow> nat" where
  "TIMER_DIV x = (1193182 + x div 2) div x"

definition timerinit :: "(unit, 'z kdev_scheme) kop" where
  "timerinit =
     kthen (outb 0x43 (0 OR 4 OR 0x30))
    (kthen (outb 0x40 (TIMER_DIV 100 mod 256))
    (kthen (outb 0x40 (TIMER_DIV 100 div 256))
           (picenable IRQ_TIMER)))"

section \<open>The serial port\<close>

text \<open>The wait of at most 128 empty delays for the transmitter has no effect.\<close>

definition uartputc :: "nat \<Rightarrow> (unit, 'z kdev_scheme) kop" where
  "uartputc c = kbind (kget uart) (\<lambda>u. if \<not> u then kret () else outb COM1 c)"

definition uartinit :: "(unit, 'z kdev_scheme) kop" where
  "uartinit =
     kthen (kfor [(COM1 + 2, 0), (COM1 + 3, 0x80), (COM1, 115200 div 9600), (COM1 + 1, 0), (COM1 + 3, 0x03),
        (COM1 + 4, 0), (COM1 + 1, 0x01)] (\<lambda>(p, d). outb p d))
    (kbind (inb (COM1 + 5)) (\<lambda>st.
     if st = 0xFF then kret ()
     else kthen (kmod (\<lambda>s. s\<lparr>uart := True\<rparr>))
         (kthen (picenable IRQ_COM1)
         (kthen (ioapicenable IRQ_COM1 0)
                (kfor (''xv6...'' @ [CHR 0x0A]) (\<lambda>c. uartputc (of_char c)))))))"

text \<open>\<open>uartgetc\<close>: the next byte waiting in the receiver, or -1.\<close>

definition uartgetc :: "(int, 'z kdev_scheme) kop" where
  "uartgetc =
     kbind (kget uart) (\<lambda>u.
     if \<not> u then kret (-1)
     else kbind (kget uart_in) (\<lambda>q.
       case q of
         [] \<Rightarrow> kret (-1)
       | c # q' \<Rightarrow> kthen (kmod (\<lambda>s. s\<lparr>uart_in := q'\<rparr>)) (kret (int (c mod 256)))))"

text \<open>The characters a \<open>getc\<close> returns before its first negative result, asked at most \<open>n\<close> times.\<close>

fun drain :: "nat \<Rightarrow> (int, 's) kop \<Rightarrow> (nat list, 's) kop" where
  "drain 0 getc = kret []"
| "drain (Suc n) getc =
     kbind getc (\<lambda>c. if c < 0 then kret [] else kbind (drain n getc) (\<lambda>cs. kret (nat c # cs)))"

end
