(* ===== verification/Console.thy ===== *)
theory Console
  imports Devices
begin

text \<open>
  The console, \<^verbatim>\<open>src/console.c\<close>: formatted output to the serial port and the screen, the line
  editor that fills the input ring, and the device read and write; and \<open>procdump\<close> of \<^verbatim>\<open>src/proc.c\<close>,
  which the line editor calls.  Output characters are their codes, with \<open>BACKSPACE\<close> above them.
\<close>

abbreviation (input) "BACKSPACE \<equiv> (0x100 :: nat)"
abbreviation (input) "INPUT_BUF \<equiv> (128 :: nat)"
abbreviation (input) "CONSOLE \<equiv> (1 :: int)"

text \<open>The devices a \<open>devsw\<close> entry can point to.\<close>

datatype device = DevConsole

record kcons = kdev +
  crt :: "nat \<Rightarrow> nat"
  crt_pos :: nat
  panicked :: bool
  cons_locking :: bool
  in_buf :: "nat \<Rightarrow> u8"
  in_r :: nat
  in_w :: nat
  in_e :: nat
  devsw_read :: "int \<Rightarrow> device option"
  devsw_write :: "int \<Rightarrow> device option"

section \<open>Output\<close>

definition digits :: string where
  "digits = ''0123456789abcdef''"

text \<open>
  The digits of \<open>x\<close>, least significant first: the \<open>do ... while\<close> loop.  The callers pass 10 and 16;
  the guard \<open>base < 2\<close> keeps the recursion total.
\<close>

function printint_loop :: "nat \<Rightarrow> nat \<Rightarrow> string" where
  "printint_loop base x =
     digits ! (x mod base) # (if x div base = 0 \<or> base < 2 then [] else printint_loop base (x div base))"
  by pat_completeness auto
termination
  by (relation "measure (\<lambda>(base, x). x)") (auto simp: div_eq_0_iff)

declare printint_loop.simps [simp del]

definition printint :: "u32 \<Rightarrow> nat \<Rightarrow> bool \<Rightarrow> string" where
  "printint xx base sign =
     (let neg = sign \<and> sint xx < 0;
          x = (if neg then - xx else xx)
      in rev (printint_loop base (unat x) @ (if neg then [CHR ''-''] else [])))"

text \<open>
  The arguments of \<open>cprintf\<close>: a word or a string.  A format that reads an argument of the other
  kind, or one that is not there, is undefined in C; its text is \<open>None\<close>.
\<close>

datatype carg = AInt u32 | AStr string | ANull

fun cfmt :: "string \<Rightarrow> carg list \<Rightarrow> string option" where
  "cfmt [] args = Some []"
| "cfmt (c # fmt) args =
     (if c = CHR 0x00 then Some []
      else if c \<noteq> CHR ''%'' then map_option ((#) c) (cfmt fmt args)
      else case fmt of
        [] \<Rightarrow> Some []
      | d # fmt' \<Rightarrow>
          if d = CHR 0x00 then Some []
          else if d = CHR ''d'' then
            (case args of AInt x # as \<Rightarrow> map_option ((@) (printint x 10 True)) (cfmt fmt' as) | _ \<Rightarrow> None)
          else if d = CHR ''x'' \<or> d = CHR ''p'' then
            (case args of AInt x # as \<Rightarrow> map_option ((@) (printint x 16 False)) (cfmt fmt' as) | _ \<Rightarrow> None)
          else if d = CHR ''s'' then
            (case args of
               AStr t # as \<Rightarrow> map_option ((@) (takeWhile (\<lambda>c. c \<noteq> CHR 0x00) t)) (cfmt fmt' as)
             | ANull # as \<Rightarrow> map_option ((@) ''(null)'') (cfmt fmt' as)
             | _ \<Rightarrow> None)
          else if d = CHR ''%'' then map_option ((#) (CHR ''%'')) (cfmt fmt' args)
          else map_option (\<lambda>r. CHR ''%'' # d # r) (cfmt fmt' args))"

text \<open>
  \<open>cgaputc\<close> on the screen memory and the cursor register: \<open>memmove\<close> and \<open>memset\<close> of whole 16-bit cells,
  the byte count of \<open>memset\<close> taken modulo \<open>2 ^ 32\<close> as the C expression is.
\<close>

definition cga_scroll :: "nat \<Rightarrow> (nat \<Rightarrow> nat) \<Rightarrow> nat \<Rightarrow> nat" where
  "cga_scroll pos m =
     (let moved = (\<lambda>i. if i < 23 * 80 then m (i + 80) else m i);
          count = nat ((2 * (24 * 80 - int pos)) mod 4294967296)
      in (\<lambda>i. if pos \<le> i \<and> i < pos + count div 2 then 0 else moved i))"

definition cgaputc :: "nat \<Rightarrow> (nat \<Rightarrow> nat) \<times> nat \<Rightarrow> (nat \<Rightarrow> nat) \<times> nat" where
  "cgaputc c = (\<lambda>(m, pos).
     let (m1, pos1) =
           (if c = 10 then (m, pos + (80 - pos mod 80))
            else if c = BACKSPACE then (m, if pos > 0 then pos - 1 else pos)
            else (m(pos := (c mod 256) OR 0x0700), pos + 1));
         (m2, pos2) =
           (if pos1 div 80 \<ge> 24 then (cga_scroll (pos1 - 80) m1, pos1 - 80) else (m1, pos1))
     in (m2(pos2 := 32 OR 0x0700), pos2 mod 65536))"

definition consputc :: "nat \<Rightarrow> (unit, 'z kcons_scheme) kop" where
  "consputc c =
     kbind (kget panicked) (\<lambda>p.
     if p then Switch Frozen
     else kthen (if c = BACKSPACE then kthen (uartputc 8) (kthen (uartputc 32) (uartputc 8)) else uartputc c)
                (kmod (\<lambda>s. let (m, pos) = cgaputc c (crt s, crt_pos s) in s\<lparr>crt := m, crt_pos := pos\<rparr>)))"

definition cprintf :: "string \<Rightarrow> carg list \<Rightarrow> (unit, 'z kcons_scheme) kop" where
  "cprintf fmt args =
     kbind (kget cons_locking) (\<lambda>locking.
     kthen (if locking then kacquire LCons else kret ())
    (kthen (case cfmt fmt args of
              Some out \<Rightarrow> kfor out (\<lambda>c. consputc (of_char c))
            | None \<Rightarrow> kpanic ''cprintf: undefined argument'')
           (if locking then krelease LCons else kret ())))"

text \<open>What \<open>panic\<close> itself prints, before it stops the machine; \<open>c\<close> is the CPU, \<open>ra\<close> its return addresses.\<close>

definition panic :: "nat \<Rightarrow> u32 list \<Rightarrow> string \<Rightarrow> (unit, 'z kcons_scheme) kop" where
  "panic c ra m =
     kthen (kmod (\<lambda>s. s\<lparr>iflag := False, cons_locking := False\<rparr>))
    (kthen (cprintf ''cpu%d: panic: '' [AInt (of_nat c)])
    (kthen (cprintf m [])
    (kthen (cprintf [CHR 0x0A] [])
    (kthen (kfor (take 10 ra) (\<lambda>pc. cprintf '' %p'' [AInt pc]))
    (kthen (kmod (\<lambda>s. s\<lparr>panicked := True\<rparr>))
           (Switch Frozen))))))"

section \<open>Process listing\<close>

definition state_name :: "procstate \<Rightarrow> string" where
  "state_name st = (case st of UNUSED \<Rightarrow> ''unused'' | EMBRYO \<Rightarrow> ''embryo'' | SLEEPING \<Rightarrow> ''sleep ''
     | RUNNABLE \<Rightarrow> ''runble'' | RUNNING \<Rightarrow> ''run   '' | ZOMBIE \<Rightarrow> ''zombie'')"

text \<open>A word of kernel memory.\<close>

definition kword :: "'z kmem_scheme \<Rightarrow> u32 \<Rightarrow> u32" where
  "kword s a = of_nat (rd32 (mem s (PGROUNDDOWN (unat a))) (unat a mod PGSIZE))"

definition procdump_one :: "nat \<Rightarrow> (unit, 'z kcons_scheme) kop" where
  "procdump_one i =
     kbind (kget (\<lambda>s. ptable s i)) (\<lambda>p.
     if p_state p = UNUSED then kret ()
     else kthen (cprintf ''%d %s %s'' [AInt (of_int (p_pid p)), AStr (state_name (p_state p)), AStr (p_name p)])
         (kthen (if p_state p = SLEEPING then
                   kbind (kget (\<lambda>s. getcallerpcs (kword s) (cx_ebp (p_context p) + 8))) (\<lambda>pc.
                   kfor (takeWhile (\<lambda>x. x \<noteq> 0) pc) (\<lambda>x. cprintf '' %p'' [AInt x]))
                 else kret ())
                (cprintf [CHR 0x0A] [])))"

definition procdump :: "(unit, 'z kcons_scheme) kop" where
  "procdump = kfor [0..<NPROC] procdump_one"

section \<open>Input\<close>

text \<open>Control-\<open>x\<close> is \<open>x - '@'\<close>.\<close>

abbreviation (input) "CtlD \<equiv> (4 :: nat)"
abbreviation (input) "CtlH \<equiv> (8 :: nat)"
abbreviation (input) "CtlP \<equiv> (16 :: nat)"
abbreviation (input) "CtlU \<equiv> (21 :: nat)"

text \<open>\<open>input.e--; consputc(BACKSPACE);\<close>\<close>

definition erase_one :: "(unit, 'z kcons_scheme) kop" where
  "erase_one = kthen (kmod (\<lambda>s. s\<lparr>in_e := sub32 (in_e s) 1\<rparr>)) (consputc BACKSPACE)"

text \<open>The kill-line loop runs at most \<open>input.e - input.w\<close> times, its first argument.\<close>

fun kill_line :: "nat \<Rightarrow> (unit, 'z kcons_scheme) kop" where
  "kill_line 0 = kret ()"
| "kill_line (Suc n) =
     kbind (kget (\<lambda>s. in_e s \<noteq> in_w s \<and> in_buf s (sub32 (in_e s) 1 mod INPUT_BUF) \<noteq> 10)) (\<lambda>more.
     if more then kthen erase_one (kill_line n) else kret ())"

definition input_char :: "nat \<Rightarrow> (unit, 'z kcons_scheme) kop" where
  "input_char c0 =
     kbind (kget (\<lambda>s. c0 \<noteq> 0 \<and> sub32 (in_e s) (in_r s) < INPUT_BUF)) (\<lambda>room.
     if room then
       let c = (if c0 = 13 then 10 else c0) in
       kthen (kmod (\<lambda>s. s\<lparr>in_buf := (in_buf s)(in_e s mod INPUT_BUF := of_nat c), in_e := (in_e s + 1) mod W32\<rparr>))
      (kthen (consputc c)
      (kbind (kget (\<lambda>s. c = 10 \<or> c = CtlD \<or> in_e s = (in_r s + INPUT_BUF) mod W32)) (\<lambda>line.
       if line then kthen (kmod (\<lambda>s. s\<lparr>in_w := in_e s\<rparr>)) (wakeup ChInput) else kret ())))
     else kret ())"

definition consoleintr_char :: "nat \<Rightarrow> (unit, 'z kcons_scheme) kop" where
  "consoleintr_char c =
     (if c = CtlP then procdump
      else if c = CtlU then kbind (kget (\<lambda>s. sub32 (in_e s) (in_w s))) kill_line
      else if c = CtlH \<or> c = 0x7f then
        kbind (kget (\<lambda>s. in_e s \<noteq> in_w s)) (\<lambda>some. if some then erase_one else kret ())
      else input_char c)"

text \<open>\<open>cs\<close>: the characters \<open>getc\<close> returns before its first negative result.\<close>

definition consoleintr :: "nat list \<Rightarrow> (unit, 'z kcons_scheme) kop" where
  "consoleintr cs =
     kthen (kacquire LInput)
    (kthen (kfor cs consoleintr_char)
           (krelease LInput))"

section \<open>The device\<close>

text \<open>
  The loop of \<open>consoleread\<close> with \<open>n\<close> bytes still wanted of \<open>target\<close>; \<open>acc\<close> holds the bytes stored at
  \<open>dst\<close> so far.  When the process sleeps it resumes in this loop, with the same arguments.
\<close>

fun consoleread_loop :: "nat \<Rightarrow> nat \<Rightarrow> nat \<Rightarrow> u8 list \<Rightarrow> (int \<times> u8 list, 'z kcons_scheme) kop" where
  "consoleread_loop ip target 0 acc =
     kthen (krelease LInput) (kthen (ilock ip) (kret (int target, acc)))"
| "consoleread_loop ip target (Suc n) acc =
     kbind (kget (\<lambda>s. in_r s = in_w s)) (\<lambda>empty.
     if empty then
       kbind (kget (\<lambda>s. p_killed (cur s))) (\<lambda>killed.
       if killed then kthen (krelease LInput) (kthen (ilock ip) (kret (-1, acc)))
       else sleep ChInput LInput)
     else
       kbind (kget (\<lambda>s. in_buf s (in_r s mod INPUT_BUF))) (\<lambda>c.
       kthen (kmod (\<lambda>s. s\<lparr>in_r := (in_r s + 1) mod W32\<rparr>))
       (if c = 4 then
          kthen (if Suc n < target then kmod (\<lambda>s. s\<lparr>in_r := sub32 (in_r s) 1\<rparr>) else kret ())
         (kthen (krelease LInput) (kthen (ilock ip) (kret (int target - int (Suc n), acc))))
        else if c = 10 then
          kthen (krelease LInput) (kthen (ilock ip) (kret (int target - int n, acc @ [c])))
        else consoleread_loop ip target n (acc @ [c]))))"

definition consoleread :: "nat \<Rightarrow> int \<Rightarrow> (int \<times> u8 list, 'z kcons_scheme) kop" where
  "consoleread ip n =
     kthen (iunlock ip)
    (kthen (kacquire LInput)
           (consoleread_loop ip (nat n) (nat n) []))"

definition consolewrite :: "nat \<Rightarrow> u8 list \<Rightarrow> (int, 'z kcons_scheme) kop" where
  "consolewrite ip buf =
     kthen (iunlock ip)
    (kthen (kacquire LCons)
    (kthen (kfor buf (\<lambda>c. consputc (unat c)))
    (kthen (krelease LCons)
    (kthen (ilock ip)
           (kret (int (length buf)))))))"

definition consoleinit :: "(unit, 'z kcons_scheme) kop" where
  "consoleinit =
     kthen (kmod (\<lambda>s. s\<lparr>devsw_write := (devsw_write s)(CONSOLE \<mapsto> DevConsole),
              devsw_read := (devsw_read s)(CONSOLE \<mapsto> DevConsole), cons_locking := True\<rparr>))
    (kthen (picenable IRQ_KBD)
           (ioapicenable IRQ_KBD 0))"

definition ioapicinit :: "(unit, 'z kcons_scheme) kop" where
  "ioapicinit =
     kbind (kget ismp) (\<lambda>mp.
     if \<not> mp then kret ()
     else
       kbind (ioapicread 1) (\<lambda>ver.
       kbind (ioapicread 0) (\<lambda>idreg.
       kbind (kget ioapicid) (\<lambda>ident.
       kthen (if drop_bit 24 idreg \<noteq> ident
              then cprintf (''ioapicinit: id isn'' @ [CHR 0x27] @ ''t equal to ioapicid; not a MP'' @ [CHR 0x0A]) []
              else kret ())
             (kfor [0..<(drop_bit 16 ver AND 0xFF) + 1] (\<lambda>i.
                kthen (ioapicwrite (0x10 + 2 * i) (0x10000 OR (T_IRQ0 + i)))
                      (ioapicwrite (0x10 + 2 * i + 1) 0)))))))"

end
