(* ===== verification/Cstring.thy ===== *)
theory Cstring
  imports Prelude
begin

text \<open>
  The byte and string routines of \<^verbatim>\<open>src/string.c\<close>, on a flat byte memory addressed by naturals.
  The loops of the source are recursions on their counter; \<open>strlen\<close>, whose loop ends only at a
  zero byte, is a partial function.
\<close>

type_synonym cmem = "nat \<Rightarrow> u8"

section \<open>Filling\<close>

text \<open>\<open>rep stosb\<close> and \<open>rep stosl\<close> of \<^verbatim>\<open>src/x86.h\<close>: \<open>cnt\<close> bytes, or \<open>cnt\<close> little-endian words.\<close>

fun stosb :: "cmem \<Rightarrow> nat \<Rightarrow> u8 \<Rightarrow> nat \<Rightarrow> cmem" where
  "stosb m addr data 0 = m"
| "stosb m addr data (Suc cnt) = stosb (m(addr := data)) (addr + 1) data cnt"

fun stosl :: "cmem \<Rightarrow> nat \<Rightarrow> u32 \<Rightarrow> nat \<Rightarrow> cmem" where
  "stosl m addr data 0 = m"
| "stosl m addr data (Suc cnt) = stosl (wr32 m addr (unat data)) (addr + 4) data cnt"

definition memset :: "cmem \<Rightarrow> nat \<Rightarrow> int \<Rightarrow> nat \<Rightarrow> cmem" where
  "memset m dst c n =
     (if dst mod 4 = 0 \<and> n mod 4 = 0
      then let c = (of_int c :: u32) AND 0xFF
           in stosl m dst (push_bit 24 c OR push_bit 16 c OR push_bit 8 c OR c) (n div 4)
      else stosb m dst (of_int c) n)"

section \<open>Comparing and moving\<close>

fun memcmp :: "cmem \<Rightarrow> nat \<Rightarrow> nat \<Rightarrow> nat \<Rightarrow> int" where
  "memcmp m s1 s2 0 = 0"
| "memcmp m s1 s2 (Suc n) =
     (if m s1 \<noteq> m s2 then int (unat (m s1)) - int (unat (m s2)) else memcmp m (s1 + 1) (s2 + 1) n)"

text \<open>The two loops of \<open>memmove\<close>: \<open>*--d = *--s\<close> from the end, and \<open>*d++ = *s++\<close>.\<close>

fun move_down :: "cmem \<Rightarrow> nat \<Rightarrow> nat \<Rightarrow> nat \<Rightarrow> cmem" where
  "move_down m d s 0 = m"
| "move_down m d s (Suc n) = move_down (m(d + n := m (s + n))) d s n"

fun move_up :: "cmem \<Rightarrow> nat \<Rightarrow> nat \<Rightarrow> nat \<Rightarrow> cmem" where
  "move_up m d s 0 = m"
| "move_up m d s (Suc n) = move_up (m(d := m s)) (d + 1) (s + 1) n"

definition memmove :: "cmem \<Rightarrow> nat \<Rightarrow> nat \<Rightarrow> nat \<Rightarrow> cmem" where
  "memmove m dst src n =
     (if src < dst \<and> src + n > dst then move_down m dst src n else move_up m dst src n)"

definition memcpy :: "cmem \<Rightarrow> nat \<Rightarrow> nat \<Rightarrow> nat \<Rightarrow> cmem" where
  "memcpy m dst src n = memmove m dst src n"

section \<open>Strings\<close>

text \<open>The two strings as functions from the offset.\<close>

fun strncmp_at :: "cmem \<Rightarrow> cmem \<Rightarrow> nat \<Rightarrow> nat \<Rightarrow> int" where
  "strncmp_at p q i 0 = 0"
| "strncmp_at p q i (Suc n) =
     (if p i \<noteq> 0 \<and> p i = q i then strncmp_at p q (i + 1) n else int (unat (p i)) - int (unat (q i)))"

definition strncmp :: "cmem \<Rightarrow> cmem \<Rightarrow> nat \<Rightarrow> int" where
  "strncmp p q n = strncmp_at p q 0 n"

text \<open>\<open>while(n-- > 0 && (*s++ = *t++) != 0);\<close> then zero the rest.\<close>

fun zero_fill :: "cmem \<Rightarrow> nat \<Rightarrow> nat \<Rightarrow> cmem" where
  "zero_fill m s 0 = m"
| "zero_fill m s (Suc n) = zero_fill (m(s := 0)) (s + 1) n"

fun strncpy_nat :: "cmem \<Rightarrow> nat \<Rightarrow> nat \<Rightarrow> nat \<Rightarrow> cmem" where
  "strncpy_nat m s t 0 = m"
| "strncpy_nat m s t (Suc n) =
     (if m t \<noteq> 0 then strncpy_nat (m(s := m t)) (s + 1) (t + 1) n else zero_fill (m(s := 0)) (s + 1) n)"

definition strncpy :: "cmem \<Rightarrow> nat \<Rightarrow> nat \<Rightarrow> int \<Rightarrow> cmem" where
  "strncpy m s t n = strncpy_nat m s t (nat n)"

fun safestrcpy_nat :: "cmem \<Rightarrow> nat \<Rightarrow> nat \<Rightarrow> nat \<Rightarrow> cmem" where
  "safestrcpy_nat m s t 0 = m(s := 0)"
| "safestrcpy_nat m s t (Suc n) =
     (if m t \<noteq> 0 then safestrcpy_nat (m(s := m t)) (s + 1) (t + 1) n else m(s := 0, s + 1 := 0))"

definition safestrcpy :: "cmem \<Rightarrow> nat \<Rightarrow> nat \<Rightarrow> int \<Rightarrow> cmem" where
  "safestrcpy m s t n = (if n \<le> 0 then m else safestrcpy_nat m s t (nat n - 1))"

partial_function (option) strlen_from :: "cmem \<Rightarrow> nat \<Rightarrow> nat \<Rightarrow> nat option" where
  "strlen_from m s n = (if m (s + n) = 0 then Some n else strlen_from m s (n + 1))"

definition strlen :: "cmem \<Rightarrow> nat \<Rightarrow> nat option" where
  "strlen m s = strlen_from m s 0"

section \<open>Correctness\<close>

text \<open>The reference: \<open>n\<close> bytes from \<open>src\<close>, as they were, now at \<open>dst\<close>.\<close>

definition copied_bytes :: "cmem \<Rightarrow> nat \<Rightarrow> nat \<Rightarrow> nat \<Rightarrow> cmem" where
  "copied_bytes m dst src n = (\<lambda>a. if dst \<le> a \<and> a < dst + n then m (src + (a - dst)) else m a)"

lemma move_down_copies: "src \<le> dst \<Longrightarrow> move_down m dst src n = copied_bytes m dst src n"
proof (induction n arbitrary: m)
  case 0
  then show ?case by (auto simp: copied_bytes_def fun_eq_iff)
next
  case (Suc n)
  then show ?case by (auto simp: copied_bytes_def fun_eq_iff less_Suc_eq)
qed

lemma move_up_copies: "dst \<le> src \<or> src + n \<le> dst \<Longrightarrow> move_up m dst src n = copied_bytes m dst src n"
proof (induction n arbitrary: m dst src)
  case 0
  then show ?case by (auto simp: copied_bytes_def fun_eq_iff)
next
  case (Suc n)
  have "move_up m dst src (Suc n) = copied_bytes (m(dst := m src)) (dst + 1) (src + 1) n"
    by (simp only: move_up.simps) (rule Suc.IH, use Suc.prems in linarith)
  also have "\<dots> = copied_bytes m dst src (Suc n)"
  proof
    fix a
    consider "a < dst" | "a = dst" | "dst < a" "a < dst + Suc n" | "dst + Suc n \<le> a" by linarith
    then show "copied_bytes (m(dst := m src)) (dst + 1) (src + 1) n a = copied_bytes m dst src (Suc n) a"
      using Suc.prems by cases (auto simp: copied_bytes_def Suc_diff_Suc)
  qed
  finally show ?case .
qed

text \<open>
  C32. \<open>memmove\<close> is correct for overlapping regions too: whatever the two addresses, the bytes
  of the destination are the bytes the source had before the call, and no other byte changes.
\<close>

theorem memmove_copies: "memmove m dst src n = copied_bytes m dst src n"
  unfolding memmove_def by (auto intro: move_down_copies move_up_copies)

lemma stosb_fills: "stosb m dst c n = (\<lambda>a. if dst \<le> a \<and> a < dst + n then c else m a)"
proof (induction n arbitrary: m dst)
  case 0
  then show ?case by (auto simp: fun_eq_iff)
next
  case (Suc n)
  then show ?case by (auto simp: fun_eq_iff)
qed

text \<open>The four bytes of the word \<open>memset\<close> stores are all the byte \<open>c\<close>.\<close>

lemma byte_of_word: "(of_nat (unat w div 2 ^ k) :: u8) = ucast (drop_bit k w)" for w :: u32
proof -
  have "(ucast (drop_bit k w) :: u8) = of_nat (unat (drop_bit k w))" by (rule of_nat_unat [symmetric])
  also have "unat (drop_bit k w) = unat w div 2 ^ k" 
    unfolding unat_drop_bit_eq by (rule drop_bit_eq_div)
  finally show ?thesis by (rule sym)
qed

lemma bit_shifted_byte:
  fixes x :: u32
  shows "n < 32 \<Longrightarrow> bit (push_bit k (x AND mask 8)) n \<longleftrightarrow> k \<le> n \<and> n - k < 8 \<and> bit x (n - k)"
  by (auto simp: bit_simps)

lemma fill_word_bytes:
  fixes x :: u32
  assumes "c = x AND 0xFF" and "k \<in> {0, 8, 16, 24}"
  shows "(ucast (drop_bit k (push_bit 24 c OR push_bit 16 c OR push_bit 8 c OR c)) :: u8) = ucast x"
proof -
  have m: "(0xFF :: u32) = mask 8" by (simp add: mask_eq_exp_minus_1)
  let ?w = "push_bit 24 (x AND mask 8) OR push_bit 16 (x AND mask 8) OR push_bit 8 (x AND mask 8)
    OR push_bit 0 (x AND mask 8)"
  have "bit ?w (k + j) \<longleftrightarrow> bit x j" if "j < 8" for j
  proof -
    from assms(2) that have "k + j < 32" by auto
    from assms(2) that show ?thesis
      by (simp only: bit_or_iff bit_shifted_byte [OF \<open>k + j < 32\<close>]) auto
  qed
  then have "(ucast (drop_bit k ?w) :: u8) = ucast x"
    by (intro bit_word_eqI) (simp only: bit_unsigned_iff bit_drop_bit_eq comp_def, simp)
  then show ?thesis unfolding assms(1) m by (simp only: push_bit_0_id id_apply)
qed

lemma wr32_const:
  assumes "of_nat v = c" "of_nat (v div 256) = c" "of_nat (v div 65536) = c" "of_nat (v div 16777216) = c"
  shows "wr32 m a v = (\<lambda>i. if a \<le> i \<and> i < a + 4 then c else m i)"
  unfolding wr32_def assms by (auto simp: fun_eq_iff)

lemma wr32_fill_word:
  fixes x :: u32
  assumes "c = x AND 0xFF"
  shows "wr32 m a (unat (push_bit 24 c OR push_bit 16 c OR push_bit 8 c OR c)) =
    (\<lambda>i. if a \<le> i \<and> i < a + 4 then ucast x else m i)"
proof -
  let ?w = "push_bit 24 c OR push_bit 16 c OR push_bit 8 c OR c"
  have b: "k \<in> {0, 8, 16, 24} \<Longrightarrow> (of_nat (unat ?w div 2 ^ k) :: u8) = ucast x" for k
    by (simp only: byte_of_word fill_word_bytes [OF assms])
  show ?thesis
  proof (rule wr32_const)
    show "(of_nat (unat ?w) :: u8) = ucast x" using b [of 0] by simp
    show "(of_nat (unat ?w div 256) :: u8) = ucast x" using b [of 8] by simp
    show "(of_nat (unat ?w div 65536) :: u8) = ucast x" using b [of 16] by simp
    show "(of_nat (unat ?w div 16777216) :: u8) = ucast x" using b [of 24] by simp
  qed
qed

lemma stosl_fills:
  fixes x :: u32
  assumes "c = x AND 0xFF"
  shows "stosl m dst (push_bit 24 c OR push_bit 16 c OR push_bit 8 c OR c) n =
    (\<lambda>a. if dst \<le> a \<and> a < dst + 4 * n then ucast x else m a)"
proof (induction n arbitrary: m dst)
  case 0
  then show ?case by (auto simp: fun_eq_iff)
next
  case (Suc n)
  then show ?case
    by (simp only: stosl.simps wr32_fill_word [OF assms]) (auto simp: fun_eq_iff)
qed

text \<open>
  C33. \<open>memset\<close> stores the low byte of \<open>c\<close> in exactly the \<open>n\<close> bytes from \<open>dst\<close>: the word-wise loop it
  takes for aligned regions and the byte-wise loop agree.
\<close>

theorem memset_fills:
  "memset m dst c n = (\<lambda>a. if dst \<le> a \<and> a < dst + n then of_int c else m a)"
proof (cases "dst mod 4 = 0 \<and> n mod 4 = 0")
  case True
  then have n: "4 * (n div 4) = n" by (simp add: mod_eq_0_iff_dvd)
  have "ucast (of_int c :: u32) = (of_int c :: u8)" 
    by (rule bit_word_eqI) (auto simp: bit_simps unsigned_of_int)
  with True show ?thesis
    by (simp only: memset_def Let_def stosl_fills [OF refl] n if_True simp_thms)
next
  case False
  then show ?thesis by (simp only: memset_def stosb_fills if_False)
qed

lemma strncmp_at_zero:
  "strncmp_at p q i n = 0 \<longleftrightarrow> (\<forall>k<n. (\<forall>j<k. p (i + j) \<noteq> 0) \<longrightarrow> p (i + k) = q (i + k))"
  (is "_ = ?A i n")
proof (induction n arbitrary: i)
  case 0
  then show ?case by simp
next
  case (Suc n)
  have A: "?A i (Suc n) \<longleftrightarrow> p i = q i \<and> (p i \<noteq> 0 \<longrightarrow> ?A (i + 1) n)"
    by (auto simp: All_less_Suc2)
  have "(int (unat (p i)) - int (unat (q i)) = 0) = (p i = q i)"
    using word_unat_eq_iff [of "p i" "q i"] by linarith
  then show ?case unfolding A strncmp_at.simps Suc.IH [of "i + 1", symmetric] by (cases "p i \<noteq> 0 \<and> p i = q i") metis+
qed

text \<open>
  C34. \<open>strncmp(p, q, n)\<close> is 0 exactly when the strings agree in the first \<open>n\<close> bytes, or up to and
  including a common terminating zero.
\<close>

theorem strncmp_zero_iff:
  "strncmp p q n = 0 \<longleftrightarrow> (\<forall>k<n. (\<forall>j<k. p j \<noteq> 0) \<longrightarrow> p k = q k)"
  unfolding strncmp_def strncmp_at_zero by simp

theorem strncmp_zero_iff_witness: "strncmp (\<lambda>i. if i = 0 then 65 else 0) (\<lambda>i. if i = 0 then 65 else of_bool (i = 2)) 4 = 0"
  unfolding strncmp_zero_iff by auto

end
