(* ===== verification/Fs.thy ===== *)
theory Fs
  imports Console Cstring
begin

text \<open>
  File content, directories and paths: the second part of \<^verbatim>\<open>src/fs.c\<close>.  \<open>readi\<close> returns the bytes it
  stores at \<open>dst\<close> together with its result, and \<open>writei\<close> takes the bytes at \<open>src\<close>.  A C string is the
  list of its bytes before the terminating zero.
\<close>

abbreviation (input) "NDEV \<equiv> (10 :: int)"
abbreviation (input) "DIRSIZ \<equiv> (14 :: nat)"
abbreviation (input) "slash \<equiv> (0x2F :: u8)"

type_synonym cstring = "u8 list"

definition cstr :: "cstring \<Rightarrow> cmem" where
  "cstr xs = (\<lambda>i. if i < length xs then xs ! i else 0)"

section \<open>Reading and writing\<close>

function readi_loop :: "nat \<Rightarrow> nat \<Rightarrow> nat \<Rightarrow> u8 list \<Rightarrow> (u8 list, 'z kcons_scheme) kop" where
  "readi_loop ip off n acc =
     (if n > 0 then
        kbind (bmap ip (off div BSIZE)) (\<lambda>bn.
        kbind (kget (\<lambda>s. i_dev (icache s ip))) (\<lambda>dev.
        kbind (bread dev bn) (\<lambda>bp.
        let m = min n (BSIZE - off mod BSIZE) in
        kbind (get_data bp) (\<lambda>d.
        kthen (brelse bp)
              (readi_loop ip (off + m) (n - m) (acc @ slice d (off mod BSIZE) m))))))
      else kret acc)"
  by pat_completeness auto
termination
  by (relation "measure (\<lambda>(_, _, n, _). n)") auto

declare readi_loop.simps [simp del]

definition readi :: "nat \<Rightarrow> nat \<Rightarrow> nat \<Rightarrow> (int \<times> u8 list, 'z kcons_scheme) kop" where
  "readi ip off n =
     kbind (kget (\<lambda>s. icache s ip)) (\<lambda>x.
     if i_type x = T_DEV then
       kbind (kget (\<lambda>s. devsw_read s (i_major x))) (\<lambda>dv.
       if i_major x < 0 \<or> i_major x \<ge> NDEV then kret (-1, [])
       else case dv of None \<Rightarrow> kret (-1, []) | Some DevConsole \<Rightarrow> consoleread ip (int_of32 n))
     else if off > i_size x \<or> (off + n) mod W32 < off then kret (-1, [])
     else
       let n1 = (if off + n > i_size x then i_size x - off else n) in
       kbind (readi_loop ip off n1 []) (\<lambda>bs. kret (int_of32 n1, bs)))"

function writei_loop :: "nat \<Rightarrow> u8 list \<Rightarrow> nat \<Rightarrow> (nat, 'z kcons_scheme) kop" where
  "writei_loop ip src off =
     (if src \<noteq> [] then
        kbind (bmap ip (off div BSIZE)) (\<lambda>bn.
        kbind (kget (\<lambda>s. i_dev (icache s ip))) (\<lambda>dev.
        kbind (bread dev bn) (\<lambda>bp.
        let m = min (length src) (BSIZE - off mod BSIZE) in
        kthen (set_data bp (\<lambda>d. blit d (off mod BSIZE) (take m src)))
       (kthen (log_write bp)
       (kthen (brelse bp)
              (writei_loop ip (drop m src) (off + m)))))))
      else kret off)"
  by pat_completeness auto
termination
  by (relation "measure (\<lambda>(_, src, _). length src)") auto

declare writei_loop.simps [simp del]

definition writei :: "nat \<Rightarrow> u8 list \<Rightarrow> nat \<Rightarrow> (int, 'z kcons_scheme) kop" where
  "writei ip src off =
     kbind (kget (\<lambda>s. icache s ip)) (\<lambda>x.
     let n = length src in
     if i_type x = T_DEV then
       kbind (kget (\<lambda>s. devsw_write s (i_major x))) (\<lambda>dv.
       if i_major x < 0 \<or> i_major x \<ge> NDEV then kret (-1)
       else case dv of None \<Rightarrow> kret (-1) | Some DevConsole \<Rightarrow> consolewrite ip src)
     else if off > i_size x \<or> (off + n) mod W32 < off then kret (-1)
     else if off + n > MAXFILE * BSIZE then kret (-1)
     else
       kbind (writei_loop ip src off) (\<lambda>off1.
       kbind (kget (\<lambda>s. n > 0 \<and> off1 > i_size (icache s ip))) (\<lambda>grow.
       kthen (if grow then kthen (kmod (upd_inode ip (\<lambda>x. x\<lparr>i_size := off1\<rparr>))) (iupdate ip) else kret ())
             (kret (int n)))))"

section \<open>Directories\<close>

definition namecmp :: "cstring \<Rightarrow> cstring \<Rightarrow> int" where
  "namecmp s t = strncmp (cstr s) (cstr t) DIRSIZ"

text \<open>The 16 bytes of a \<open>struct dirent\<close>: the inode number and the name.\<close>

definition de_inum :: "u8 list \<Rightarrow> nat" where
  "de_inum de = rd16 (cstr de) 0"

definition de_name :: "u8 list \<Rightarrow> cstring" where
  "de_name de = take DIRSIZ (drop 2 de)"

definition make_dirent :: "cstring \<Rightarrow> nat \<Rightarrow> u8 list" where
  "make_dirent name inum = [of_nat inum, of_nat (inum div 256)] @ take DIRSIZ (name @ replicate DIRSIZ 0)"

text \<open>
  The scan of \<open>dirlookup\<close> from \<open>off\<close>.  The caller holds the lock of \<open>dp\<close>, so its size \<open>sz\<close> stays as it is.
  The result is the inode and the offset of its entry.
\<close>

function dirlookup_loop :: "nat \<Rightarrow> cstring \<Rightarrow> nat \<Rightarrow> nat \<Rightarrow> ((nat \<times> nat) option, 'z kcons_scheme) kop" where
  "dirlookup_loop dp name sz off =
     (if off < sz then
        kbind (readi dp off 16) (\<lambda>(r, de).
        if r \<noteq> 16 then kpanic ''dirlink read''
        else if de_inum de = 0 then dirlookup_loop dp name sz (off + 16)
        else if namecmp name (de_name de) = 0 then
          kbind (kget (\<lambda>s. i_dev (icache s dp))) (\<lambda>dev.
          kbind (iget dev (de_inum de)) (\<lambda>ip. kret (Some (ip, off))))
        else dirlookup_loop dp name sz (off + 16))
      else kret None)"
  by pat_completeness auto
termination
  by (relation "measure (\<lambda>(_, _, sz, off). sz - off)") auto

declare dirlookup_loop.simps [simp del]

definition dirlookup :: "nat \<Rightarrow> cstring \<Rightarrow> ((nat \<times> nat) option, 'z kcons_scheme) kop" where
  "dirlookup dp name =
     kthen (kassert (\<lambda>s. i_type (icache s dp) = T_DIR) ''dirlookup not DIR'')
    (kbind (kget (\<lambda>s. i_size (icache s dp))) (\<lambda>sz. dirlookup_loop dp name sz 0))"

function dirlink_slot :: "nat \<Rightarrow> nat \<Rightarrow> nat \<Rightarrow> (nat, 'z kcons_scheme) kop" where
  "dirlink_slot dp sz off =
     (if off < sz then
        kbind (readi dp off 16) (\<lambda>(r, de).
        if r \<noteq> 16 then kpanic ''dirlink read''
        else if de_inum de = 0 then kret off
        else dirlink_slot dp sz (off + 16))
      else kret off)"
  by pat_completeness auto
termination
  by (relation "measure (\<lambda>(_, sz, off). sz - off)") auto

declare dirlink_slot.simps [simp del]

definition dirlink :: "nat \<Rightarrow> cstring \<Rightarrow> nat \<Rightarrow> (int, 'z kcons_scheme) kop" where
  "dirlink dp name inum =
     kbind (dirlookup dp name) (\<lambda>r.
     case r of
       Some (ip, _) \<Rightarrow> kthen (iput ip) (kret (-1))
     | None \<Rightarrow>
         kbind (kget (\<lambda>s. i_size (icache s dp))) (\<lambda>sz.
         kbind (dirlink_slot dp sz 0) (\<lambda>off.
         kbind (writei dp (make_dirent name inum) off) (\<lambda>w.
         if w \<noteq> 16 then kpanic ''dirlink'' else kret 0))))"

section \<open>Paths\<close>

text \<open>The rest of the path and the name, or \<open>None\<close> where the C function returns 0.\<close>

definition skipelem :: "cstring \<Rightarrow> (cstring \<times> cstring) option" where
  "skipelem path =
     (let p = dropWhile (\<lambda>c. c = slash) path in
      if p = [] then None
      else Some (dropWhile (\<lambda>c. c = slash) (dropWhile (\<lambda>c. c \<noteq> slash) p),
                 take DIRSIZ (takeWhile (\<lambda>c. c \<noteq> slash) p)))"

lemma dropWhile_length: "length (dropWhile P xs) \<le> length xs"
  by (induction xs) auto

lemma skipelem_shorter: "skipelem path = Some (rest, name) \<Longrightarrow> length rest < length path"
proof -
  assume "skipelem path = Some (rest, name)"
  then obtain p where p: "p = dropWhile (\<lambda>c. c = slash) path" "p \<noteq> []"
    and rest: "rest = dropWhile (\<lambda>c. c = slash) (dropWhile (\<lambda>c. c \<noteq> slash) p)"
    by (auto simp: skipelem_def Let_def split: if_splits)
  from p have "hd p \<noteq> slash" using hd_dropWhile [of "\<lambda>c. c = slash" path] by simp
  with p(2) have "length (dropWhile (\<lambda>c. c \<noteq> slash) p) < length p"
    by (cases p) (simp_all add: less_Suc_eq_le dropWhile_length)
  moreover have "length p \<le> length path" unfolding p(1) by (rule dropWhile_length)
  moreover have "length rest \<le> length (dropWhile (\<lambda>c. c \<noteq> slash) p)" unfolding rest by (rule dropWhile_length)
  ultimately show "length rest < length path" by linarith
qed

function namex_loop :: "nat \<Rightarrow> cstring \<Rightarrow> bool \<Rightarrow> ((nat \<times> cstring) option, 'z kcons_scheme) kop" where
  "namex_loop ip path nameiparent =
     (case skipelem path of
        None \<Rightarrow> if nameiparent then kthen (iput ip) (kret None) else kret (Some (ip, []))
      | Some (rest, name) \<Rightarrow>
          kthen (ilock ip)
         (kbind (kget (\<lambda>s. i_type (icache s ip))) (\<lambda>ty.
          if ty \<noteq> T_DIR then kthen (iunlockput ip) (kret None)
          else if nameiparent \<and> rest = [] then kthen (iunlock ip) (kret (Some (ip, name)))
          else kbind (dirlookup ip name) (\<lambda>r.
            case r of
              None \<Rightarrow> kthen (iunlockput ip) (kret None)
            | Some (nxt, _) \<Rightarrow> kthen (iunlockput ip) (namex_loop nxt rest nameiparent)))))"
  by pat_completeness auto
termination
  by (relation "measure (\<lambda>(_, path, _). length path)") (auto dest: skipelem_shorter)

declare namex_loop.simps [simp del]

definition namex :: "cstring \<Rightarrow> bool \<Rightarrow> ((nat \<times> cstring) option, 'z kcons_scheme) kop" where
  "namex path nameiparent =
     kbind (if path \<noteq> [] \<and> hd path = slash then iget ROOTDEV ROOTINO
            else kbind (kget (\<lambda>s. p_cwd (cur s))) (\<lambda>c.
              case c of Some ip \<Rightarrow> idup ip | None \<Rightarrow> kpanic ''idup: null inode'')) (\<lambda>ip.
     namex_loop ip path nameiparent)"

definition namei :: "cstring \<Rightarrow> (nat option, 'z kcons_scheme) kop" where
  "namei path = kbind (namex path False) (\<lambda>r. kret (map_option fst r))"

definition nameiparent :: "cstring \<Rightarrow> ((nat \<times> cstring) option, 'z kcons_scheme) kop" where
  "nameiparent path = namex path True"

end
