(* ===== verification/FileData.thy ===== *)
theory FileData
  imports Extent Dinode Fs
begin

text \<open>
  The content of files: what \<open>balloc\<close>, \<open>bmap\<close>, \<open>readi\<close>, \<open>iupdate\<close> and \<open>writei\<close> do to the blocks of a file inside a transaction.
\<close>

section \<open>Allocating a block\<close>

lemma kept_step:
  "kept s t \<Longrightarrow> \<not> fbusy (bufs s b) \<Longrightarrow> (\<And>c. c \<noteq> b \<Longrightarrow> bufs u c = bufs t c) \<Longrightarrow> kept s u"
  unfolding kept_def by metis

lemma wp_put_release:
  fixes s :: "'z klog_scheme"
  assumes x: "tx t M L (insert n Z)" and o: "owns t b n" and f: "txf s t" "kept s t" "\<not> fbusy (bufs s b)" and n: "n \<notin> Z" and room: "card L < 29"
    and Q: "\<And>u. tx u (M(n := f (M n))) (insert n L) Z \<Longrightarrow> txf s u \<Longrightarrow> kept s u \<Longrightarrow> wp c Q u"
  shows "wp (kthen (set_data b f) (kthen (log_write b) (kthen (brelse b) c))) Q t"
proof (rule wp_tx_put [OF x o room], unfold wp_kthen)
  fix u assume u: "tx u (M(n := f (M n))) (insert n L) (insert n Z)" "owns u b n" "txf t u" "\<And>c. c \<noteq> b \<Longrightarrow> bufs u c = bufs t c"
  show "wp (brelse b) (\<lambda>_. wp c Q) u"
  proof (rule wp_tx_brelse [OF u(1,2)])
    fix v assume v: "tx v (M(n := f (M n))) (insert n L) (insert n Z - {n})" "txf u v" "\<And>c. c \<noteq> b \<Longrightarrow> bufs v c = bufs u c"
    have "kept s v" by (rule kept_step [OF f(2,3)]) (simp add: u(4) v(3))
    then show "wp c Q v" using v(1) n txf_trans [OF txf_trans [OF f(1) u(3)] v(2)] by (intro Q) simp_all
  qed
qed

lemma kthen_kret_unit: "kthen f (kret ()) = f"
  by (rule ext) (simp add: kthen_def kbind_def kret_def split: res.split)

lemma wp_bzero:
  fixes s :: "'z klog_scheme"
  assumes x: "tx s M L Z" and n: "n \<notin> Z" "n < disksize s" and fin: "finite Z" and room: "card L + card Z < 29"
    and Q: "\<And>t. tx t (M(n := \<lambda>_. 0)) (insert n L) Z \<Longrightarrow> txf s t \<Longrightarrow> kept s t \<Longrightarrow> Q () t"
  shows "wp (bzero 1 n) Q s"
  unfolding bzero_def wp_kbind
proof (rule wp_tx_bread [OF x n fin])
  show "card L + card Z < NBUF" using room by simp
  fix b t assume t: "tx t M L (insert n Z)" "owns t b n" "txf s t" "kept s t" "\<not> fbusy (bufs s b)"
  have "wp (kthen (set_data b (\<lambda>_ _. 0)) (kthen (log_write b) (kthen (brelse b) (kret ())))) Q t"
    by (rule wp_put_release [OF t n(1)]) (use room Q in \<open>auto simp: wp_kret\<close>)
  then show "wp (kthen (set_data b (\<lambda>_ _. 0)) (kthen (log_write b) (brelse b))) Q t" by (simp add: kthen_kret_unit)
qed

lemma wp_balloc:
  fixes s :: "'z klog_scheme"
  assumes x: "tx s M L Z" and l: "layout M bm sz" and d: "sz \<le> disksize s" and free: "free_blocks M bm sz \<noteq> {}"
    and Z: "finite Z" "\<And>z. z \<in> Z \<Longrightarrow> bm < z \<and> usedb M bm z" and room: "card L + card Z < 27"
    and Q: "\<And>a t. a < sz \<Longrightarrow> bm < a \<Longrightarrow> \<not> usedb M bm a \<Longrightarrow> tx t (taken bm a M) (insert a (insert bm L)) Z \<Longrightarrow>
      txf s t \<Longrightarrow> kept s t \<Longrightarrow> Q a t"
  shows "wp (balloc 1) Q s"
  unfolding balloc_def wp_kbind
proof (rule wp_readsb [OF x])
  note ld = layoutD [OF l]
  show "1 \<notin> Z" "1 < disksize s" "finite Z" "card L + card Z < NBUF" using Z ld d room by force+
  fix t assume t: "tx t M L Z" "txf s t" "kept s t"
  let ?sb = "decode_sb (M 1)"
  have bm: "BBLOCK 0 (sb_ninodes ?sb) = bm" "bm \<notin> Z" "bm < disksize t" using ld(6) [of 0] Z d ld(2) txf_eqs(3) [OF t(2)] by auto
  have len: "min BPB (sb_size ?sb - 0) = sz" "0 < sb_size ?sb" using ld by auto
  show "wp (balloc_loop 1 ?sb 0) Q t"
    unfolding balloc_loop.simps [of 1 ?sb 0] if_P [OF len(2)] wp_kbind bm(1) len(1)
  proof (rule wp_tx_bread [OF t(1) bm(2,3) Z(1)])
    show "card L + card Z < NBUF" using room by simp
    fix b u assume u: "tx u M L (insert bm Z)" "owns u b bm" "txf t u" "kept t u" "\<not> fbusy (bufs t b)"
    let ?P = "\<lambda>bi. \<not> bit (M bm (bi div 8)) (bi mod 8)"
    from free obtain a where a: "find ?P [0..<sz] = Some a"
      by (cases "find ?P [0..<sz]") (auto simp: find_None_iff free_blocks_def usedb_def)
    then have a1: "a < sz" "\<not> usedb M bm a" by (auto simp: find_Some_iff usedb_def)
    have a2: "bm < a" using a1(2) ld(5) [of a] by (meson not_less)
    have fin: "finite L" using logged_card [OF tx_logged [OF x]] by simp
    show "wp (get_data b) (\<lambda>d. wp (case find (\<lambda>bi. \<not> bit (d (bi div 8)) (bi mod 8)) [0..<sz] of
        Some bi \<Rightarrow> kthen (set_data b (\<lambda>d. d(bi div 8 := set_bit (bi mod 8) (d (bi div 8)))))
              (kthen (log_write b) (kthen (brelse b) (kthen (bzero 1 (0 + bi)) (kret (0 + bi)))))
      | None \<Rightarrow> kthen (brelse b) (balloc_loop 1 ?sb (0 + BPB))) Q) u"
      unfolding wp_kget cfx_data [OF tx_cfx [OF u(1)] u(2)] a option.case add_0
    proof (rule wp_put_release [OF u bm(2)], unfold wp_kthen mark_def [symmetric])
      show "card L < 29" using room by simp
      fix v assume v: "tx v (M(bm := mark (M bm) a)) (insert bm L) Z" "txf t v" "kept t v"
      show "wp (bzero 1 a) (\<lambda>_. wp (kret a) Q) v"
      proof (rule wp_bzero [OF v(1)])
        show "a \<notin> Z" "finite Z" "a < disksize v" using Z a1 d txf_eqs(3) [OF t(2)] txf_eqs(3) [OF v(2)] by auto
        show "card (insert bm L) + card Z < 29" using room card_insert_le_m1 [of "card L + 1" L bm] fin by (simp add: card_insert_if)
        fix w assume w: "tx w ((M(bm := mark (M bm) a))(a := \<lambda>_. 0)) (insert a (insert bm L)) Z" "txf v w" "kept v w"
        then show "wp (kret a) Q w" unfolding wp_kret
          using t v a1 a2 by (intro Q) (auto simp: taken_def intro: txf_trans kept_trans)
      qed
    qed
  qed
qed

section \<open>Mapping a block of a file\<close>

lemma tx_icache [simp]: "tx (s\<lparr>icache := A\<rparr>) M L Z \<longleftrightarrow> tx s M L Z"
  by (simp add: tx_def cfx_def logged_def)

lemma txf_icache_eq: "txf s t \<Longrightarrow> icache t = icache s"
  unfolding txf_def by (elim exE conjE) simp

lemma txf_icache: 
  assumes "txf s t"
  shows "txf (s\<lparr>icache := A\<rparr>) (t\<lparr>icache := A\<rparr>)"
proof -
  from assms obtain p B l n h where "t = s\<lparr>ptable := p, bufs := B, lru := l, lh_n := n, lh_sector := h\<rparr>" and "only_woken (ptable s) p"
    unfolding txf_def by (elim exE conjE)
  then show ?thesis by (intro txfI [where p = p and B = B and l = l and n = n and h = h]) simp_all
qed

lemma stp_icache_eq: "stp s t ws \<Longrightarrow> icache t = icache s"
  unfolding stp_def bfr_def by (elim exE conjE) simp

text \<open>
  The room a file operation has taken in the log, with the bitmap block, the inode block and the indirect block counted in advance, and
  the free blocks it still needs besides the data blocks.
\<close>

definition spent :: "nat \<Rightarrow> inode \<Rightarrow> nat set \<Rightarrow> nat" where
  "spent bm x L = card (insert bm (insert (IBLOCK (i_inum x)) L)) + (if i_addrs x NDIRECT \<noteq> 0 \<and> i_addrs x NDIRECT \<in> L then 0 else 1)"

definition wanted :: "inode \<Rightarrow> nat" where
  "wanted x = (if i_addrs x NDIRECT = 0 then 1 else 0)"

lemma spent_card: "finite L \<Longrightarrow> card L \<le> spent bm x L"
  unfolding spent_def using card_mono [of "insert bm (insert (IBLOCK (i_inum x)) L)" L] by (simp add: subset_insertI2 trans_le_add1)

lemma card_insert_max: "finite A \<Longrightarrow> card (insert a A) \<le> card A + 1"
  by (simp add: card_insert_if)

lemma spent_insert: "finite L \<Longrightarrow> spent bm x (insert a L) \<le> spent bm x L + (if a \<in> L then 0 else 1)"
  using card_insert_max [of "insert bm (insert (IBLOCK (i_inum x)) L)" a]
  by (auto simp: spent_def insert_commute [of _ a] insert_absorb)

lemma spent_bm [simp]: "finite L \<Longrightarrow> bm \<noteq> i_addrs x NDIRECT \<Longrightarrow> spent bm x (insert bm L) = spent bm x L"
  by (simp add: spent_def insert_commute [of _ bm])

definition mapped :: "nat \<Rightarrow> nat \<Rightarrow> nat \<Rightarrow> nat \<Rightarrow> (nat \<Rightarrow> bytes) \<times> inode \<times> nat set \<Rightarrow> (nat \<Rightarrow> bytes) \<times> inode \<times> nat set \<Rightarrow> bool" where
  "mapped bm sz bn a = (\<lambda>(M, x, L) (M', x', L'). changes bm sz M x M' x' \<and> same_bytes M x M' x' \<and> blk M' x' bn = a \<and> a \<noteq> 0 \<and> i_size x' = i_size x \<and>
     (\<forall>n<bm. M' n = M n) \<and>
     spent bm x' L' + (if a \<in> L' then 0 else 1) \<le> spent bm x L + 1 \<and>
     card (free_blocks M bm sz) + wanted x' \<le> card (free_blocks M' bm sz) + wanted x + 1 \<and>
     (blk M x bn \<noteq> 0 \<longrightarrow> M' = M \<and> x' = x \<and> L' = L))"

text \<open>A block that is there is found without any change, inside or outside of a transaction.\<close>

lemma wp_bmap_there:
  fixes s :: "'z kfs_scheme"
  assumes x: "cfx s M L L {}" "finite L" "card L < NBUF" and ok: "file_ok M bm sz (icache s ip)" and d: "sz \<le> disksize s"
    and bn: "bn < MAXFILE" "blk M (icache s ip) bn \<noteq> 0"
    and Q: "\<And>t. cfx t M L L {} \<Longrightarrow> stp s t [] \<Longrightarrow> Q (blk M (icache s ip) bn) t"
  shows "wp (bmap ip bn) Q s"
proof (cases "bn < NDIRECT")
  case True
  then show ?thesis using bn(2) Q [OF x(1)] by (simp add: bmap_def wp_simps blk_def)
next
  case False
  let ?x = "icache s ip"
  have i: "i_addrs ?x NDIRECT \<noteq> 0" using bn(2) False unfolding blk_def by metis
  have r: "i_addrs ?x NDIRECT < disksize s" using refs_range [OF ok, of MAXFILE] i d by (auto simp: refs_def)
  have e: "rd32 (M (i_addrs ?x NDIRECT)) (4 * (bn - NDIRECT)) = blk M ?x bn" using False i by (simp add: blk_def)
  have n: "bn - NDIRECT < NINDIRECT" using bn(1) by simp
  show ?thesis
    unfolding bmap_def wp_kbind wp_kget if_not_P [OF False] if_P [OF n] if_not_P [OF i] wp_kret file_okD(1) [OF ok]
  proof (rule wp_bread [OF x(1) _ r])
    show "i_addrs ?x NDIRECT \<in> L \<or> finite (L \<union> {}) \<and> card (L \<union> {}) < NBUF" using x by simp
    fix b t assume t: "cfx t M L L (insert (i_addrs ?x NDIRECT) {})" "owns t b (i_addrs ?x NDIRECT)" "stp s t []"
    have v: "rd32 (b_data (bufs t b)) (4 * (bn - NDIRECT)) = blk M ?x bn" using cfx_data [OF t(1,2)] e by simp
    show "wp (if rd32 (b_data (bufs t b)) (4 * (bn - NDIRECT)) = 0
        then kbind (balloc 1) (\<lambda>addr. kthen (set_data b (\<lambda>d. wr32 d (4 * (bn - NDIRECT)) addr)) (kthen (log_write b) (kthen (brelse b) (kret addr))))
        else kthen (brelse b) (kret (rd32 (b_data (bufs t b)) (4 * (bn - NDIRECT))))) Q t"
      unfolding v if_not_P [OF bn(2)] wp_kthen
    proof (rule wp_brelse [OF t(1,2)])
      fix u assume "cfx u M L L ({i_addrs ?x NDIRECT} - {i_addrs ?x NDIRECT})" "stp t u []"
      then show "wp (kret (blk M ?x bn)) Q u" unfolding wp_kret using t(3) by (intro Q) (auto intro: stp_trans)
    qed
  qed simp
qed

lemma kthen_upd_inode: "wp (kthen (kmod (upd_inode ip f)) c) Q s \<longleftrightarrow> wp c Q (s\<lparr>icache := (icache s)(ip := f (icache s ip))\<rparr>)"
  by (simp add: wp_simps upd_inode_def)

lemma wp_bmap_direct:
  fixes s :: "'z kfs_scheme"
  assumes x: "tx s M L {}" and l: "layout M bm sz" and d: "sz \<le> disksize s" and ok: "file_ok M bm sz x"
    and ib: "IBLOCK (i_inum x) < bm" and ip: "icache s ip = x" and bn: "bn < NDIRECT" "i_addrs x bn = 0"
    and room: "spent bm x L \<le> 25" and free: "wanted x + 1 \<le> card (free_blocks M bm sz)"
    and Q: "\<And>a t M' x' L'. tx t M' L' {} \<Longrightarrow> txf (s\<lparr>icache := (icache s)(ip := x')\<rparr>) t \<Longrightarrow> mapped bm sz bn a (M, x, L) (M', x', L') \<Longrightarrow> Q a t"
  shows "wp (bmap ip bn) Q s"
  unfolding bmap_def wp_kbind wp_kget ip if_P [OF bn(1)] if_P [OF bn(2)] file_okD(1) [OF ok] kthen_upd_inode
proof (rule wp_balloc [OF x l d])
  have fin: "finite L" using logged_card [OF tx_logged [OF x]] by simp
  show "free_blocks M bm sz \<noteq> {}" using free by auto
  show "card L + card {} < 27" using room spent_card [OF fin, of bm x] by simp
  fix a t assume a: "a < sz" "bm < a" "\<not> usedb M bm a" and t: "tx t (taken bm a M) (insert a (insert bm L)) {}" "txf s t"
  let ?M = "taken bm a M" and ?x = "x\<lparr>i_addrs := (i_addrs x)(bn := a)\<rparr>" and ?L = "insert a (insert bm L)"
  have f: "filled bm bn a M x ?M ?x" by (rule filled_direct [OF a(3,2) bn(1) ok])
  have k: "bn \<le> MAXFILE" "refs M x bn = 0" using bn by (simp_all add: refs_def blk_def)
  have bmi: "bm \<noteq> i_addrs x NDIRECT" using refs_range [OF ok, of MAXFILE] layoutD(4) [OF l] by (auto simp: refs_def)
  have sp: "spent bm ?x A = spent bm x A" for A using bn(1) by (simp add: spent_def)
  have "spent bm ?x ?L \<le> spent bm x L + 1"
    using spent_insert [of "insert bm L" bm x a] fin bmi unfolding sp by (simp split: if_splits)
  moreover have "card (free_blocks ?M bm sz) + 1 = card (free_blocks M bm sz)"
    using a by (intro card_free_mark [where M = M and a = a]) (auto simp: taken_def)
  moreover have "wanted ?x = wanted x" "blk ?M ?x bn = a" "blk M x bn = 0" using bn by (simp_all add: wanted_def blk_def)
  ultimately have "mapped bm sz bn a (M, x, L) (?M, ?x, ?L)"
    using filled_changes [OF f k a(2,1,3) ok l ib] filled_bytes [OF f k a(2,3) ok] filled_low [OF f a(2) ok] a(2) by (simp add: mapped_def)
  then show "wp (kret a) Q (t\<lparr>icache := (icache t)(ip := (icache t ip)\<lparr>i_addrs := (i_addrs (icache t ip))(bn := a)\<rparr>)\<rparr>)"
    unfolding wp_kret txf_icache_eq [OF t(2)] ip using t by (intro Q [where M' = ?M and L' = ?L and x' = ?x]) (simp_all add: txf_icache)
qed simp_all

text \<open>The part of \<open>bmap\<close> that looks up an entry of the indirect block.\<close>

abbreviation (input) bmap_entry :: "nat \<Rightarrow> nat \<Rightarrow> (nat, 'z kfs_scheme) kop" where
  "bmap_entry ind j \<equiv>
     kbind (bread 1 ind) (\<lambda>bp.
     kbind (kget (\<lambda>s. rd32 (b_data (bufs s bp)) (4 * j))) (\<lambda>addr.
     if addr = 0 then
       kbind (balloc 1) (\<lambda>addr.
       kthen (set_data bp (\<lambda>d. wr32 d (4 * j) addr))
      (kthen (log_write bp)
      (kthen (brelse bp) (kret addr))))
     else kthen (brelse bp) (kret addr)))"

lemma wp_bmap_entry:
  fixes s :: "'z kfs_scheme"
  assumes x: "tx s M L {}" and l: "layout M bm sz" and d: "sz \<le> disksize s" and ok: "file_ok M bm sz x"
    and ib: "IBLOCK (i_inum x) < bm" and ip: "icache s ip = x" and bn: "NDIRECT \<le> bn" "bn < MAXFILE" "blk M x bn = 0"
    and i: "i_addrs x NDIRECT \<noteq> 0" and room: "spent bm x L \<le> 25" and free: "1 \<le> card (free_blocks M bm sz)"
    and Q: "\<And>a t M' L'. tx t M' L' {} \<Longrightarrow> txf s t \<Longrightarrow> mapped bm sz bn a (M, x, L) (M', x, L') \<Longrightarrow> Q a t"
  shows "wp (bmap_entry (i_addrs x NDIRECT) (bn - NDIRECT)) Q s"
proof (unfold wp_kbind, rule wp_tx_bread [OF x])
  let ?i = "i_addrs x NDIRECT"
  have fin: "finite L" using logged_card [OF tx_logged [OF x]] by simp
  have L: "card L \<le> 25" using room spent_card [OF fin, of bm x] by simp
  have r: "bm < ?i" "?i < sz" "usedb M bm ?i" using refs_range [OF ok, of MAXFILE] i by (auto simp: refs_def)
  show "?i \<notin> {}" "?i < disksize s" "finite {}" "card L + card {} < NBUF" using r d L by simp_all
  fix b t assume t: "tx t M L (insert ?i {})" "owns t b ?i" "txf s t" "kept s t" "\<not> fbusy (bufs s b)"
  have v: "rd32 (b_data (bufs t b)) (4 * (bn - NDIRECT)) = 0"
    using cfx_data [OF tx_cfx [OF t(1)] t(2)] bn i by (simp add: blk_def)
  show "wp (kget (\<lambda>s. rd32 (b_data (bufs s b)) (4 * (bn - NDIRECT)))) (\<lambda>addr.
      wp (if addr = 0 then kbind (balloc 1) (\<lambda>addr. kthen (set_data b (\<lambda>d. wr32 d (4 * (bn - NDIRECT)) addr))
           (kthen (log_write b) (kthen (brelse b) (kret addr)))) else kthen (brelse b) (kret addr)) Q) t"
    unfolding wp_kget v if_P [OF refl] wp_kbind
  proof (rule wp_balloc [OF t(1) l])
    show "sz \<le> disksize t" using d txf_eqs(3) [OF t(3)] by simp
    show "free_blocks M bm sz \<noteq> {}" using free by auto
    show "finite {?i}" "card L + card {?i} < 27" using L by simp_all
    show "bm < z \<and> usedb M bm z" if "z \<in> {?i}" for z using that r by simp
    fix a u assume a: "a < sz" "bm < a" "\<not> usedb M bm a" and u: "tx u (taken bm a M) (insert a (insert bm L)) {?i}" "txf t u" "kept t u"
    let ?M = "(taken bm a M)(?i := wr32 (M ?i) (4 * (bn - NDIRECT)) a)" and ?L = "insert ?i (insert a (insert bm L))"
    have ne: "?i \<noteq> a" "?i \<noteq> bm" using r a by auto
    have f: "filled bm bn a M x ?M x" by (rule filled_indirect [OF a(3,2,1) bn(1,2) ok i layoutD(3) [OF l]])
    have k: "bn \<le> MAXFILE" "refs M x bn = 0" using bn by (simp_all add: refs_def)
    have o: "owns u b ?i" using kept_owns [OF u(3) t(2)] by simp
    have cL: "card (insert a (insert bm L)) \<le> 27"
      using L fin card_insert_max [of L bm] card_insert_max [of "insert bm L" a] by simp
    have sp: "spent bm x ?L \<le> spent bm x L + 1"
    proof -
      let ?A = "insert bm (insert (IBLOCK (i_inum x)) L)"
      have "card (insert bm (insert (IBLOCK (i_inum x)) ?L)) = card (insert ?i (insert a ?A))" by (simp add: insert_commute)
      also have "\<dots> \<le> card ?A + 1 + (if ?i \<in> L then 0 else 1)"
        using fin card_insert_max [of ?A a] card_insert_max [of "insert a ?A" ?i] by (simp add: insert_absorb)
      finally show ?thesis using i by (simp add: spent_def)
    qed
    have "blk ?M x bn = a"
      using f k(1) bn(2) by (simp add: filled_def blk_refs)
    moreover have "card (free_blocks ?M bm sz) + 1 = card (free_blocks M bm sz)"
      using a ne by (intro card_free_mark [where M = M and a = a]) (auto simp: taken_def)
    ultimately have m: "mapped bm sz bn a (M, x, L) (?M, x, ?L)"
      using filled_changes [OF f k a(2,1,3) ok l ib] filled_bytes [OF f k a(2,3) ok] filled_low [OF f a(2) ok] a(2) bn(3) sp by (simp add: mapped_def)
    have e: "(taken bm a M)(?i := wr32 (taken bm a M ?i) (4 * (bn - NDIRECT)) a) = ?M" using ne by (simp add: taken_def)
    show "wp (kthen (set_data b (\<lambda>d. wr32 d (4 * (bn - NDIRECT)) a)) (kthen (log_write b) (kthen (brelse b) (kret a)))) Q u"
    proof (rule wp_put_release [where s = s, OF u(1) o])
      show "txf s u" by (rule txf_trans [OF t(3) u(2)])
      show "kept s u" by (rule kept_trans [OF t(4) u(3)])
      show "\<not> fbusy (bufs s b)" "?i \<notin> {}" "card (insert a (insert bm L)) < 29" using t(5) cL by simp_all
      fix w assume "tx w ((taken bm a M)(?i := wr32 (taken bm a M ?i) (4 * (bn - NDIRECT)) a)) ?L {}" "txf s w"
      then show "wp (kret a) Q w" unfolding wp_kret e using m by (intro Q)
    qed
  qed
qed

text \<open>The indirect block is allocated first when the file has none.\<close>

lemma wp_bmap_pointer:
  fixes s :: "'z kfs_scheme"
  assumes x: "tx s M L {}" and l: "layout M bm sz" and d: "sz \<le> disksize s" and ok: "file_ok M bm sz x"
    and ib: "IBLOCK (i_inum x) < bm" and ip: "icache s ip = x" and i: "i_addrs x NDIRECT = 0"
    and room: "spent bm x L \<le> 25" and free: "1 \<le> card (free_blocks M bm sz)"
    and Q: "\<And>t M' x' L'. tx t M' L' {} \<Longrightarrow> txf (s\<lparr>icache := (icache s)(ip := x')\<rparr>) t \<Longrightarrow> changes bm sz M x M' x' \<Longrightarrow>
      same_bytes M x M' x' \<Longrightarrow> spent bm x' L' \<le> spent bm x L \<Longrightarrow> card (free_blocks M' bm sz) + 1 = card (free_blocks M bm sz) \<Longrightarrow>
      i_addrs x' NDIRECT \<noteq> 0 \<Longrightarrow> i_size x' = i_size x \<Longrightarrow> \<forall>n<bm. M' n = M n \<Longrightarrow>
      \<forall>bn<MAXFILE. blk M' x' bn = blk M x bn \<Longrightarrow> Q (i_addrs x' NDIRECT) t"
  shows "wp (kbind (balloc 1) (\<lambda>addr. kthen (kmod (upd_inode ip (\<lambda>x. x\<lparr>i_addrs := (i_addrs x)(NDIRECT := addr)\<rparr>))) (kret addr))) Q s"
  unfolding wp_kbind kthen_upd_inode
proof (rule wp_balloc [OF x l d])
  have fin: "finite L" using logged_card [OF tx_logged [OF x]] by simp
  show "free_blocks M bm sz \<noteq> {}" using free by auto
  show "card L + card {} < 27" using room spent_card [OF fin, of bm x] by simp
  fix a t assume a: "a < sz" "bm < a" "\<not> usedb M bm a" and t: "tx t (taken bm a M) (insert a (insert bm L)) {}" "txf s t"
  let ?M = "taken bm a M" and ?x = "x\<lparr>i_addrs := (i_addrs x)(NDIRECT := a)\<rparr>" and ?L = "insert a (insert bm L)"
  have f: "filled bm MAXFILE a M x ?M ?x" by (rule filled_pointer [OF a(2) i])
  have k: "MAXFILE \<le> MAXFILE" "refs M x MAXFILE = 0" using i by (simp_all add: refs_def)
  have "insert bm (insert (IBLOCK (i_inum x)) ?L) = insert a (insert bm (insert (IBLOCK (i_inum x)) L))" by auto
  then have "spent bm ?x ?L \<le> spent bm x L"
    using a(2) i fin card_insert_max [of "insert bm (insert (IBLOCK (i_inum x)) L)" a] by (simp add: spent_def)
  moreover have "card (free_blocks ?M bm sz) + 1 = card (free_blocks M bm sz)"
    using a by (intro card_free_mark [where M = M and a = a]) (auto simp: taken_def)
  moreover have "\<forall>bn<MAXFILE. blk ?M ?x bn = blk M x bn" using f by (simp add: filled_def blk_refs)
  ultimately have "Q (i_addrs ?x NDIRECT) (t\<lparr>icache := (icache s)(ip := ?x)\<rparr>)"
    using filled_changes [OF f k a(2,1,3) ok l ib] filled_bytes [OF f k a(2,3) ok] filled_low [OF f a(2) ok] t a(2)
    by (intro Q [where M' = ?M and L' = ?L and x' = ?x]) (simp_all add: txf_icache)
  then show "wp (kret a) Q (t\<lparr>icache := (icache t)(ip := (icache t ip)\<lparr>i_addrs := (i_addrs (icache t ip))(NDIRECT := a)\<rparr>)\<rparr>)"
    unfolding wp_kret txf_icache_eq [OF t(2)] ip by simp
qed simp_all

lemma mapped_trans:
  assumes "changes bm sz M x M' x'" "same_bytes M x M' x'" "spent bm x' L' \<le> spent bm x L"
    and "card (free_blocks M' bm sz) + 1 = card (free_blocks M bm sz)" "i_addrs x NDIRECT = 0" "i_addrs x' NDIRECT \<noteq> 0"
    and "i_size x' = i_size x" "\<forall>n<bm. M' n = M n" "blk M x bn = 0" "mapped bm sz bn a (M', x', L') (M'', x', L'')"
  shows "mapped bm sz bn a (M, x, L) (M'', x', L'')"
proof -
  have "changes bm sz M x M'' x'" using assms(1,10) by (auto simp: mapped_def intro: changes_trans)
  then show ?thesis using assms by (simp add: mapped_def wanted_def)
qed

lemma wp_bmap:
  fixes s :: "'z kfs_scheme"
  assumes x: "tx s M L {}" and l: "layout M bm sz" and d: "sz \<le> disksize s" and ok: "file_ok M bm sz x"
    and ib: "IBLOCK (i_inum x) < bm" and ip: "icache s ip = x" and bn: "bn < MAXFILE"
    and room: "spent bm x L \<le> 25" and free: "blk M x bn = 0 \<Longrightarrow> wanted x + 1 \<le> card (free_blocks M bm sz)"
    and Q: "\<And>a t M' x' L'. tx t M' L' {} \<Longrightarrow> txf (s\<lparr>icache := (icache s)(ip := x')\<rparr>) t \<Longrightarrow> mapped bm sz bn a (M, x, L) (M', x', L') \<Longrightarrow> Q a t"
  shows "wp (bmap ip bn) Q s"
proof (cases "blk M x bn = 0")
  case False
  have fin: "finite L" using logged_card [OF tx_logged [OF x]] by simp
  show ?thesis
  proof (rule wp_bmap_there [OF tx_cfx [OF x] fin _ _ d bn])
    show "card L < NBUF" using room spent_card [OF fin, of bm x] by simp
    show "file_ok M bm sz (icache s ip)" "blk M (icache s ip) bn \<noteq> 0" using ok False by (simp_all add: ip)
    fix t assume t: "cfx t M L L {}" "stp s t []"
    have "s\<lparr>icache := (icache s)(ip := x)\<rparr> = s" by (simp add: ip [symmetric])
    then have "txf (s\<lparr>icache := (icache s)(ip := x)\<rparr>) t" using stp_txf [OF t(2)] by simp
    moreover have "mapped bm sz bn (blk M x bn) (M, x, L) (M, x, L)"
      using False changes_refl [OF ok l] by (simp add: mapped_def)
    moreover have "tx t M L {}" using t tx_logged [OF x] by (simp add: tx_def stp_logged)
    ultimately show "Q (blk M (icache s ip) bn) t" unfolding ip by (intro Q)
  qed
next
  case True
  note fr = free [OF True]
  show ?thesis
  proof (cases "bn < NDIRECT")
    case direct: True
    then have "i_addrs x bn = 0" using True by (simp add: blk_def)
    then show ?thesis by (rule wp_bmap_direct [OF x l d ok ib ip direct _ room fr]) (fact Q)
  next
    case False
    then have b: "NDIRECT \<le> bn" "bn - NDIRECT < NINDIRECT" using bn by simp_all
    show ?thesis
    proof (cases "i_addrs x NDIRECT = 0")
      case i: False
      have same: "s\<lparr>icache := (icache s)(ip := x)\<rparr> = s" by (simp add: ip [symmetric])
      have "wp (bmap_entry (i_addrs x NDIRECT) (bn - NDIRECT)) Q s"
        by (rule wp_bmap_entry [OF x l d ok ib ip b(1) bn True i room]) (use fr same in \<open>auto intro: Q [where x' = x]\<close>)
      then show ?thesis
        unfolding bmap_def wp_kbind wp_kget ip if_not_P [OF False] if_P [OF b(2)] if_not_P [OF i] wp_kret file_okD(1) [OF ok] .
    next
      case i: True
      have "wp (kbind (balloc 1) (\<lambda>addr. kthen (kmod (upd_inode ip (\<lambda>x. x\<lparr>i_addrs := (i_addrs x)(NDIRECT := addr)\<rparr>))) (kret addr)))
          (\<lambda>ind. wp (bmap_entry ind (bn - NDIRECT)) Q) s"
      proof (rule wp_bmap_pointer [OF x l d ok ib ip i room])
        show "1 \<le> card (free_blocks M bm sz)" using fr by simp
        fix t M' x' L'
        assume t: "tx t M' L' {}" "txf (s\<lparr>icache := (icache s)(ip := x')\<rparr>) t" and c: "changes bm sz M x M' x'" "same_bytes M x M' x'"
          "spent bm x' L' \<le> spent bm x L" "card (free_blocks M' bm sz) + 1 = card (free_blocks M bm sz)"
          and i': "i_addrs x' NDIRECT \<noteq> 0" "i_size x' = i_size x" "\<forall>n<bm. M' n = M n" and bl: "\<forall>bn<MAXFILE. blk M' x' bn = blk M x bn"
        show "wp (bmap_entry (i_addrs x' NDIRECT) (bn - NDIRECT)) Q t"
        proof (rule wp_bmap_entry [OF t(1) changesD(2) [OF c(1)] _ changesD(1) [OF c(1)] _ _ b(1) bn _ i'(1)])
          show "sz \<le> disksize t" "icache t ip = x'" using d txf_eqs(3) [OF t(2)] txf_icache_eq [OF t(2)] by simp_all
          show "IBLOCK (i_inum x') < bm" "blk M' x' bn = 0" "spent bm x' L' \<le> 25" using ib changesD(8) [OF c(1)] bl True bn c(3) room by simp_all
          show "1 \<le> card (free_blocks M' bm sz)" using fr c(4) i by (simp add: wanted_def)
          fix a u M'' L'' assume u: "tx u M'' L'' {}" "txf t u" "mapped bm sz bn a (M', x', L') (M'', x', L'')"
          show "Q a u" by (rule Q [OF u(1) txf_trans [OF t(2) u(2)] mapped_trans [OF c i i' True u(3)]])
        qed
      qed
      then show ?thesis
        unfolding bmap_def wp_kbind wp_kget ip if_not_P [OF False] if_P [OF b(2)] if_P [OF i] wp_kret file_okD(1) [OF ok] .
    qed
  qed
qed

section \<open>Reading\<close>

text \<open>The blocks that hold the bytes from \<open>off\<close> to \<open>off + n\<close>.\<close>

definition present :: "(nat \<Rightarrow> bytes) \<Rightarrow> inode \<Rightarrow> nat \<Rightarrow> nat \<Rightarrow> bool" where
  "present M x off n \<longleftrightarrow> (\<forall>k<MAXFILE. 0 < n \<and> off div BSIZE \<le> k \<and> k * BSIZE < off + n \<longrightarrow> blk M x k \<noteq> 0)"

lemma presentI:
  "(\<And>k. k < MAXFILE \<Longrightarrow> 0 < n \<Longrightarrow> off div BSIZE \<le> k \<Longrightarrow> k * BSIZE < off + n \<Longrightarrow> blk M x k \<noteq> 0) \<Longrightarrow> present M x off n"
  unfolding present_def by blast

lemma presentD: "present M x off n \<Longrightarrow> k < MAXFILE \<Longrightarrow> 0 < n \<Longrightarrow> off div BSIZE \<le> k \<Longrightarrow> k * BSIZE < off + n \<Longrightarrow> blk M x k \<noteq> 0"
  unfolding present_def by blast

lemma present_mono:
  assumes "present M x off n" "off \<le> off'" "off' + n' \<le> off + n"
  shows "present M x off' n'"
proof (rule presentI)
  fix k assume k: "k < MAXFILE" "0 < n'" "off' div BSIZE \<le> k" "k * BSIZE < off' + n'"
  have "0 < n" "k * BSIZE < off + n" using k assms(2,3) by linarith+
  moreover have "off div BSIZE \<le> k" using k(3) div_le_mono [OF assms(2), of BSIZE] by simp
  ultimately show "blk M x k \<noteq> 0" using presentD [OF assms(1) k(1)] by simp
qed

lemma present_first: "0 < n \<Longrightarrow> off + n \<le> MAXFILE * BSIZE \<Longrightarrow> present M x off n \<Longrightarrow> off div BSIZE < MAXFILE \<and> blk M x (off div BSIZE) \<noteq> 0"
proof -
  assume n: "0 < n" "off + n \<le> MAXFILE * BSIZE" and p: "present M x off n"
  have "off < MAXFILE * BSIZE" using n by simp
  then have "off div BSIZE < MAXFILE" by (simp add: less_mult_imp_div_less)
  moreover have "off div BSIZE * BSIZE < off + n" using n(1) div_times_less_eq_dividend [of off BSIZE] by linarith
  ultimately show ?thesis using presentD [OF p _ n(1)] by simp
qed

lemma slice_fbyte:
  assumes "off mod BSIZE + m \<le> BSIZE" "blk M x (off div BSIZE) \<noteq> 0"
  shows "slice (M (blk M x (off div BSIZE))) (off mod BSIZE) m = slice (fbyte M x) off m"
proof (rule nth_equalityI)
  fix i assume "i < length (slice (M (blk M x (off div BSIZE))) (off mod BSIZE) m)"
  then have i: "i < m" by simp
  have e: "off + i = off div BSIZE * BSIZE + (off mod BSIZE + i)" by simp
  have l: "off mod BSIZE + i < BSIZE" using assms(1) i by linarith
  have "(off + i) div BSIZE = off div BSIZE" "(off + i) mod BSIZE = off mod BSIZE + i"
    unfolding e using l by (simp_all only: div_mult_self3 mod_mult_self3 div_less mod_less)
  then show "slice (M (blk M x (off div BSIZE))) (off mod BSIZE) m ! i = slice (fbyte M x) off m ! i"
    using i assms(2) by (simp add: fbyte_def)
qed simp

lemma wp_readi_loop:
  fixes s :: "'z kcons_scheme"
  assumes "cfx s M L L {}" and fin: "finite L" "card L < NBUF" and "file_ok M bm sz x" and "icache s ip = x" and "sz \<le> disksize s"
    and "off + n \<le> MAXFILE * BSIZE" and "present M x off n"
    and "\<And>t. cfx t M L L {} \<Longrightarrow> stp s t [] \<Longrightarrow> Q (acc @ slice (fbyte M x) off n) t"
  shows "wp (readi_loop ip off n acc) Q s"
  using assms(1,4-)
proof (induction n arbitrary: off acc s rule: less_induct)
  case (less n)
  note c = less.prems(1) and ok = less.prems(2) and ip = less.prems(3) and d = less.prems(4) and len = less.prems(5) and pr = less.prems(6)
    and Q = less.prems(7)
  show ?case
  proof (cases "n = 0")
    case True
    then show ?thesis using Q [OF c] by (subst readi_loop.simps) (simp add: wp_kret)
  next
    case False
    let ?a = "blk M x (off div BSIZE)" and ?m = "min n (BSIZE - off mod BSIZE)"
    from False have n: "0 < n" by simp
    have a: "off div BSIZE < MAXFILE" "?a \<noteq> 0" using present_first [OF n len pr] by simp_all
    have r: "?a < disksize s" using refs_range [OF ok, of "off div BSIZE"] a d by (simp add: blk_refs)
    have m: "?m \<le> n" "0 < ?m" "off mod BSIZE + ?m \<le> BSIZE" using n by auto
    have sl: "acc @ slice (M ?a) (off mod BSIZE) ?m @ slice (fbyte M x) (off + ?m) (n - ?m) = acc @ slice (fbyte M x) off n"
      using slice_add [of "fbyte M x" off ?m "n - ?m"] m slice_fbyte [OF m(3) a(2)] by simp
    show ?thesis
      unfolding readi_loop.simps [of ip off n acc] if_P [OF n] Let_def wp_kbind
    proof (rule wp_bmap_there [OF c fin _ d a(1)], unfold ip)
      show "file_ok M bm sz x" "?a \<noteq> 0" by (fact ok, fact a(2))
      fix t assume t: "cfx t M L L {}" "stp s t []"
      have ipt: "icache t ip = x" using stp_icache_eq [OF t(2)] ip by simp
      show "wp (kget (\<lambda>s. i_dev (icache s ip))) (\<lambda>dev. wp (bread dev ?a) (\<lambda>bp. wp (get_data bp) (\<lambda>d.
          wp (kthen (brelse bp) (readi_loop ip (off + ?m) (n - ?m) (acc @ slice d (off mod BSIZE) ?m))) Q))) t"
        unfolding wp_kget ipt file_okD(1) [OF ok]
      proof (rule wp_bread [OF t(1)])
        show "?a \<notin> {}" "?a < disksize t" using r stp_eqs(3) [OF t(2)] by simp_all
        show "?a \<in> L \<or> finite (L \<union> {}) \<and> card (L \<union> {}) < NBUF" using fin by simp
        fix b u assume u: "cfx u M L L {?a}" "owns u b ?a" "stp t u []"
        show "wp (kthen (brelse b) (readi_loop ip (off + ?m) (n - ?m) (acc @ slice (b_data (bufs u b)) (off mod BSIZE) ?m))) Q u"
          unfolding cfx_data [OF u(1,2)] wp_kthen
        proof (rule wp_brelse [OF u(1,2)])
          fix v assume v: "cfx v M L L ({?a} - {?a})" "stp u v []"
          have sv: "stp s v []" using t(2) u(3) v(2) by (auto intro: stp_trans)
          show "wp (readi_loop ip (off + ?m) (n - ?m) (acc @ slice (M ?a) (off mod BSIZE) ?m)) Q v"
          proof (rule less.IH)
            show "n - ?m < n" using m n by simp
            show "cfx v M L L {}" using v(1) by simp
            show "file_ok M bm sz x" by (rule ok)
            show "icache v ip = x" "sz \<le> disksize v" using stp_icache_eq [OF sv] ip stp_eqs(3) [OF sv] d by simp_all
            show "off + ?m + (n - ?m) \<le> MAXFILE * BSIZE" using len m by simp
            show "present M x (off + ?m) (n - ?m)"
              by (rule present_mono [OF pr]) (use m in simp_all)
            fix w assume "cfx w M L L {}" "stp v w []"
            then show "Q ((acc @ slice (M ?a) (off mod BSIZE) ?m) @ slice (fbyte M x) (off + ?m) (n - ?m)) w"
              unfolding append_assoc sl using sv by (intro Q) (auto intro: stp_trans)
          qed
        qed simp
      qed
    qed
  qed
qed

end
