(* ===== verification/FileIO.thy ===== *)
theory FileIO
  imports FileData
begin

text \<open>
  Writing files, and what was written is read back.
\<close>

section \<open>The loop of writei\<close>

text \<open>The number of blocks a write of \<open>n\<close> bytes at \<open>off\<close> touches.\<close>

definition touched :: "nat \<Rightarrow> nat \<Rightarrow> nat" where
  "touched off n = (if n = 0 then 0 else (off mod BSIZE + n + (BSIZE - 1)) div BSIZE)"

lemma touched_step:
  assumes "0 < n" "m = min n (BSIZE - off mod BSIZE)"
  shows "touched off n = touched (off + m) (n - m) + 1"
proof (cases "n \<le> BSIZE - off mod BSIZE")
  case True
  have "off mod BSIZE < BSIZE" by simp
  then have "off mod BSIZE + n + 511 < 512 * 2" "512 \<le> off mod BSIZE + n + 511" using True assms(1) by linarith+
  then have "(off mod BSIZE + n + 511) div 512 = 1" by (intro div_nat_eqI) simp_all
  then show ?thesis using True assms by (simp add: touched_def)
next
  case False
  then have m: "m = BSIZE - off mod BSIZE" "m < n" using assms by auto
  have "off + m = off div BSIZE * BSIZE + BSIZE" using m(1) div_mult_mod_eq [of off BSIZE] mod_less_divisor [of BSIZE off] by linarith
  then have "(off + m) mod BSIZE = 0" by simp
  moreover have "off mod BSIZE + n + 511 = (n - m + 511) + 512"
    using m mod_less_divisor [of BSIZE off] by linarith
  then have "(off mod BSIZE + n + 511) div 512 = (n - m + 511) div 512 + 1" by simp
  moreover have "n - m \<noteq> 0" using m(2) by simp
  ultimately show ?thesis using assms(1) by (simp add: touched_def)
qed

definition wrote :: "nat \<Rightarrow> nat \<Rightarrow> nat \<Rightarrow> u8 list \<Rightarrow> (nat \<Rightarrow> bytes) \<times> inode \<times> nat set \<Rightarrow> (nat \<Rightarrow> bytes) \<times> inode \<times> nat set \<Rightarrow> bool" where
  "wrote bm sz off bs = (\<lambda>(M, x, L) (M', x', L'). changes bm sz M x M' x' \<and> i_size x' = i_size x \<and> (\<forall>n<bm. M' n = M n) \<and>
     (\<forall>k<MAXFILE * BSIZE. fbyte M' x' k = (if off \<le> k \<and> k < off + length bs then bs ! (k - off) else fbyte M x k)) \<and>
     present M' x' off (length bs) \<and> spent bm x' L' \<le> spent bm x L + touched off (length bs) \<and>
     (present M x off (length bs) \<longrightarrow> x' = x))"

lemma wrote_Nil: "file_ok M bm sz x \<Longrightarrow> layout M bm sz \<Longrightarrow> wrote bm sz off [] (M, x, L) (M, x, L)"
  by (auto simp add: wrote_def changes_refl touched_def present_def)

lemma changes_present: "changes bm sz M x M' x' \<Longrightarrow> present M x off n \<Longrightarrow> present M' x' off n"
  using changesD(6) [of bm sz M x M' x'] by (simp add: blk_refs present_def)

text \<open>One block and then the rest.\<close>

lemma wrote_Cons:
  assumes ok: "file_ok M bm sz x" and ib: "IBLOCK (i_inum x) < bm" and fin: "finite L1"
    and m: "m = min (length bs) (BSIZE - off mod BSIZE)" and bs: "bs \<noteq> []" "off + length bs \<le> MAXFILE * BSIZE"
    and map: "mapped bm sz (off div BSIZE) a (M, x, L) (M1, x1, L1)"
    and M2: "M2 = M1(a := blit (M1 a) (off mod BSIZE) (take m bs))"
    and rest: "wrote bm sz (off + m) (drop m bs) (M2, x1, insert a L1) (M', x', L')"
  shows "wrote bm sz off bs (M, x, L) (M', x', L')"
proof -
  have mm: "m \<le> length bs" "0 < m" "off mod BSIZE + m \<le> BSIZE" using m bs by auto
  have "off < MAXFILE * BSIZE" using bs by (cases bs) simp_all
  then have bn: "off div BSIZE < MAXFILE" by (simp add: less_mult_imp_div_less)
  from map have c1: "changes bm sz M x M1 x1" and b1: "same_bytes M x M1 x1" and a: "blk M1 x1 (off div BSIZE) = a" "a \<noteq> 0"
    and s1: "i_size x1 = i_size x" and lo1: "\<forall>n<bm. M1 n = M n" and sp1: "spent bm x1 L1 + (if a \<in> L1 then 0 else 1) \<le> spent bm x L + 1"
    and id1: "blk M x (off div BSIZE) \<noteq> 0 \<longrightarrow> M1 = M \<and> x1 = x \<and> L1 = L"
    by (simp_all add: mapped_def)
  note ok1 = changesD(1) [OF c1] and l1 = changesD(2) [OF c1]
  have ib1: "IBLOCK (i_inum x1) < bm" using ib changesD(8) [OF c1] by simp
  have c2: "changes bm sz M1 x1 M2 x1"
    unfolding M2 a(1) [symmetric] by (rule overwrite_changes [OF ok1 l1 bn _ ib1]) (simp add: a)
  have bma: "bm < a" using refs_range [OF ok1, of "off div BSIZE"] a bn by (simp add: blk_refs)
  from rest have c3: "changes bm sz M2 x1 M' x'" and s3: "i_size x' = i_size x1" and lo3: "\<forall>n<bm. M' n = M2 n"
    and b3: "\<And>k. k < MAXFILE * BSIZE \<Longrightarrow> fbyte M' x' k = (if off + m \<le> k \<and> k < off + m + length (drop m bs) then drop m bs ! (k - (off + m)) else fbyte M2 x1 k)"
    and p3: "present M' x' (off + m) (length bs - m)" and sp3: "spent bm x' L' \<le> spent bm x1 (insert a L1) + touched (off + m) (length bs - m)"
    and id3: "present M2 x1 (off + m) (length bs - m) \<longrightarrow> x' = x1"
    by (simp_all add: wrote_def)
  have c: "changes bm sz M1 x1 M' x'" by (rule changes_trans [OF c2 c3])
  have b2: "fbyte M2 x1 k = (if off \<le> k \<and> k < off + m then bs ! (k - off) else fbyte M x k)" if "k < MAXFILE * BSIZE" for k
    using overwrite_bytes [OF ok1 bn, of "take m bs" k] that a mm b1 unfolding M2 by (auto simp: a min_absorb2)
  have "fbyte M' x' k = (if off \<le> k \<and> k < off + length bs then bs ! (k - off) else fbyte M x k)" if "k < MAXFILE * BSIZE" for k
    using b3 [OF that] b2 [OF that] mm by auto
  moreover have "spent bm x' L' \<le> spent bm x L + touched off (length bs)"
    using sp3 sp1 spent_insert [OF fin, of bm x1 a] touched_step [of "length bs" m off] bs(1) m by simp
  moreover have "present M' x' off (length bs)"
  proof (rule presentI)
    fix k assume k: "k < MAXFILE" "0 < length bs" "off div BSIZE \<le> k" "k * BSIZE < off + length bs"
    show "blk M' x' k \<noteq> 0"
    proof (cases "k = off div BSIZE")
      case True
      then show ?thesis using changesD(6) [OF c, of k] a k(1) by (simp add: blk_refs)
    next
      case False
      with k have "off div BSIZE + 1 \<le> k" by simp
      then have "(off div BSIZE + 1) * BSIZE \<le> k * BSIZE" by (rule mult_le_mono1)
      then have "off div BSIZE * BSIZE + BSIZE \<le> k * BSIZE" by simp
      then have "off + m \<le> k * BSIZE" using mm(3) div_mult_mod_eq [of off BSIZE] by linarith
      then have "(off + m) div BSIZE \<le> k" using div_le_mono [of "off + m" "k * BSIZE" BSIZE] by simp
      moreover have "0 < length bs - m" using k(4) \<open>off + m \<le> k * BSIZE\<close> by linarith
      ultimately show ?thesis using presentD [OF p3 k(1)] k mm by simp
    qed
  qed
  moreover have "x' = x" if p: "present M x off (length bs)"
  proof -
    have "blk M x (off div BSIZE) \<noteq> 0" using present_first [OF _ bs(2) p] bs(1) by simp
    then have e: "M1 = M" "x1 = x" using id1 by simp_all
    have "present M x (off + m) (length bs - m)" using mm by (intro present_mono [OF p]) simp_all
    then have "present M2 x1 (off + m) (length bs - m)" using changes_present [OF c2] e by simp
    then show ?thesis using id3 e by simp
  qed
  ultimately show ?thesis
    using changes_trans [OF c1 c] s1 s3 lo1 lo3 bma unfolding wrote_def M2 by (simp add: fun_upd_def)
qed

text \<open>There is room in the log, and there are free blocks or no new block is needed.\<close>

definition has_room :: "nat \<Rightarrow> nat \<Rightarrow> nat \<Rightarrow> nat \<Rightarrow> (nat \<Rightarrow> bytes) \<times> inode \<times> nat set \<Rightarrow> bool" where
  "has_room bm sz off n = (\<lambda>(M, x, L). spent bm x L + touched off n \<le> 26 \<and>
     (present M x off n \<or> wanted x + touched off n \<le> card (free_blocks M bm sz)))"

lemma has_room_step:
  assumes r: "has_room bm sz off n (M, x, L)" and n: "0 < n" "m = min n (BSIZE - off mod BSIZE)" and fin: "finite L1" and a: "bm \<noteq> a"
    and map: "mapped bm sz (off div BSIZE) a (M, x, L) (M1, x1, L1)" and len: "off + n \<le> MAXFILE * BSIZE"
    and c2: "changes bm sz M1 x1 (M1(a := d)) x1"
  shows "has_room bm sz (off + m) (n - m) (M1(a := d), x1, insert a L1)"
proof -
  have f: "free_blocks (M1(a := d)) bm sz = free_blocks M1 bm sz" using a by (simp add: free_blocks_def usedb_def)
  have t: "touched off n = touched (off + m) (n - m) + 1" by (rule touched_step [OF n])
  have sp: "spent bm x1 (insert a L1) \<le> spent bm x L + 1"
    using map spent_insert [OF fin, of bm x1 a] by (simp add: mapped_def)
  have "present (M1(a := d)) x1 (off + m) (n - m)" if p: "present M x off n"
  proof -
    have e: "M1 = M" "x1 = x" using present_first [OF n(1) len p] map by (simp_all add: mapped_def)
    have "present M x (off + m) (n - m)" using n(2) by (intro present_mono [OF p]) simp_all
    then show ?thesis using changes_present [OF c2] e by simp
  qed
  moreover have "wanted x1 + touched (off + m) (n - m) \<le> card (free_blocks M1 bm sz)"
    if "wanted x + touched off n \<le> card (free_blocks M bm sz)"
    using that map t by (simp add: mapped_def)
  ultimately show ?thesis using r t sp unfolding has_room_def by (auto simp: f)
qed

lemma wp_writei_loop:
  fixes s :: "'z kcons_scheme"
  assumes "tx s M L {}" "layout M bm sz" "sz \<le> disksize s" "file_ok M bm sz x" "IBLOCK (i_inum x) < bm" "icache s ip = x"
    and "off + length bs \<le> MAXFILE * BSIZE" and "has_room bm sz off (length bs) (M, x, L)"
    and "\<And>t M' x' L'. tx t M' L' {} \<Longrightarrow> txf (s\<lparr>icache := (icache s)(ip := x')\<rparr>) t \<Longrightarrow> wrote bm sz off bs (M, x, L) (M', x', L') \<Longrightarrow>
      Q (off + length bs) t"
  shows "wp (writei_loop ip bs off) Q s"
  using assms
proof (induction "length bs" arbitrary: bs off s M x L rule: less_induct)
  case less
  note x = less.prems(1) and l = less.prems(2) and d = less.prems(3) and ok = less.prems(4) and ib = less.prems(5) and ip = less.prems(6)
    and len = less.prems(7) and room = less.prems(8) and Q = less.prems(9)
  show ?case
  proof (cases "bs = []")
    case True
    have "s\<lparr>icache := (icache s)(ip := x)\<rparr> = s" by (simp add: ip [symmetric])
    then have "Q off s" using Q [OF x, of x] wrote_Nil [OF ok l] True by simp
    then show ?thesis by (subst writei_loop.simps) (simp add: wp_kret True)
  next
    case False
    define m where "m = min (length bs) (BSIZE - off mod BSIZE)"
    have mm: "m \<le> length bs" "0 < m" using False by (auto simp: m_def)
    have "off < MAXFILE * BSIZE" using False len by (cases bs) simp_all
    then have bn: "off div BSIZE < MAXFILE" by (simp add: less_mult_imp_div_less)
    have n: "0 < length bs" using False by simp
    have t1: "1 \<le> touched off (length bs)" using touched_step [OF n refl] by simp
    have fr: "wanted x + 1 \<le> card (free_blocks M bm sz)" if "blk M x (off div BSIZE) = 0"
      using room t1 present_first [OF n len] that unfolding has_room_def by force
    have sp: "spent bm x L \<le> 25" using room t1 unfolding has_room_def by simp
    show ?thesis
      unfolding writei_loop.simps [of ip bs off] if_P [OF False] Let_def m_def [symmetric] wp_kbind
    proof (rule wp_bmap [OF x l d ok ib ip bn sp fr])
      fix a t M1 x1 L1
      assume t: "tx t M1 L1 {}" "txf (s\<lparr>icache := (icache s)(ip := x1)\<rparr>) t" and map: "mapped bm sz (off div BSIZE) a (M, x, L) (M1, x1, L1)"
      have c1: "changes bm sz M x M1 x1" and a: "blk M1 x1 (off div BSIZE) = a" "a \<noteq> 0" using map by (simp_all add: mapped_def)
      note ok1 = changesD(1) [OF c1] and l1 = changesD(2) [OF c1]
      have ib1: "IBLOCK (i_inum x1) < bm" using ib changesD(8) [OF c1] by simp
      have ra: "bm < a" "a < sz" using refs_range [OF ok1, of "off div BSIZE"] a bn by (simp_all add: blk_refs)
      have ipt: "icache t ip = x1" using txf_icache_eq [OF t(2)] by simp
      have dt: "disksize t = disksize s" using txf_eqs(3) [OF t(2)] by simp
      have fin: "finite L1" using logged_card [OF tx_logged [OF t(1)]] by simp
      let ?M = "M1(a := blit (M1 a) (off mod BSIZE) (take m bs))"
      have c2: "changes bm sz M1 x1 ?M x1"
        unfolding a(1) [symmetric] by (rule overwrite_changes [OF ok1 l1 bn _ ib1]) (simp add: a)
      have "spent bm x1 L1 \<le> spent bm x L + 1" using map by (simp add: mapped_def)
      then have cL: "card L1 \<le> 26" using sp spent_card [OF fin, of bm x1] by simp
      show "wp (kget (\<lambda>s. i_dev (icache s ip))) (\<lambda>dev. wp (bread dev a) (\<lambda>bp. wp (kthen (set_data bp (\<lambda>d. blit d (off mod BSIZE) (take m bs)))
          (kthen (log_write bp) (kthen (brelse bp) (writei_loop ip (drop m bs) (off + m))))) Q)) t"
        unfolding wp_kget ipt file_okD(1) [OF ok1]
      proof (rule wp_tx_bread [OF t(1)])
        show "a \<notin> {}" "a < disksize t" "finite {}" "card L1 + card {} < NBUF" using ra d cL dt by simp_all
        fix b u assume u: "tx u M1 L1 {a}" "owns u b a" "txf t u" "kept t u" "\<not> fbusy (bufs t b)"
        show "wp (kthen (set_data b (\<lambda>d. blit d (off mod BSIZE) (take m bs)))
          (kthen (log_write b) (kthen (brelse b) (writei_loop ip (drop m bs) (off + m))))) Q u"
        proof (rule wp_put_release [OF u])
          show "a \<notin> {}" "card L1 < 29" using cL by simp_all
          fix v assume v: "tx v ?M (insert a L1) {}" "txf t v"
          have ipv: "icache v = (icache s)(ip := x1)" using txf_icache_eq [OF v(2)] txf_icache_eq [OF t(2)] by simp
          show "wp (writei_loop ip (drop m bs) (off + m)) Q v"
          proof (rule less.hyps [OF _ v(1) changesD(2) [OF c2] _ changesD(1) [OF c2] ib1])
            show "length (drop m bs) < length bs" using mm by simp
            show "sz \<le> disksize v" "icache v ip = x1" using d dt txf_eqs(3) [OF v(2)] ipv by simp_all
            show "off + m + length (drop m bs) \<le> MAXFILE * BSIZE" using len mm by simp
            show "has_room bm sz (off + m) (length (drop m bs)) (?M, x1, insert a L1)"
              using has_room_step [OF room n m_def fin _ map len c2] ra(1) by simp
            fix w M' x' L'
            assume w: "tx w M' L' {}" "txf (v\<lparr>icache := (icache v)(ip := x')\<rparr>) w" "wrote bm sz (off + m) (drop m bs) (?M, x1, insert a L1) (M', x', L')"
            have "txf (s\<lparr>icache := (icache s)(ip := x')\<rparr>) w"
              using txf_trans [OF txf_icache [OF txf_trans [OF t(2) v(2)], of "(icache s)(ip := x')"]] w(2) ipv by simp
            moreover have "wrote bm sz off bs (M, x, L) (M', x', L')"
              by (rule wrote_Cons [OF ok ib fin m_def False len map refl w(3)])
            ultimately show "Q (off + m + length (drop m bs)) w" using Q [OF w(1)] mm by simp
          qed
        qed
      qed
    qed
  qed
qed

section \<open>Updating the inode\<close>

text \<open>The inode block holds the inode as it is in memory.\<close>

definition synced :: "(nat \<Rightarrow> bytes) \<Rightarrow> inode \<Rightarrow> bool" where
  "synced M x \<longleftrightarrow> decode_dinode (M (IBLOCK (i_inum x))) (i_inum x mod IPB * 64) = dinode_of x"

abbreviation stored :: "inode \<Rightarrow> (nat \<Rightarrow> bytes) \<Rightarrow> nat \<Rightarrow> bytes" where
  "stored x M \<equiv> M(IBLOCK (i_inum x) := encode_dinode (dinode_of x) (i_inum x mod IPB * 64) (M (IBLOCK (i_inum x))))"

lemma refs_size [simp]: "refs M (x\<lparr>i_size := n\<rparr>) = refs M x" "blk M (x\<lparr>i_size := n\<rparr>) = blk M x" "blocks M (x\<lparr>i_size := n\<rparr>) = blocks M x"
    "fbyte M (x\<lparr>i_size := n\<rparr>) = fbyte M x" "spent bm (x\<lparr>i_size := n\<rparr>) L = spent bm x L"
  by (simp_all add: fun_eq_iff refs_def blk_def blocks_def fbyte_def spent_def)

lemma blk_low:
  assumes "file_ok M bm sz x" "n < bm"
  shows "blk (M(n := d)) x = blk M x"
proof -
  have "i_addrs x NDIRECT \<noteq> n" if "i_addrs x NDIRECT \<noteq> 0"
    using refs_range [OF assms(1), of MAXFILE] assms(2) that by (auto simp: refs_def)
  then show ?thesis by (auto simp: fun_eq_iff blk_def)
qed

lemma stored_changes:
  assumes ok: "file_ok M bm sz x" and l: "layout M bm sz" and ib: "IBLOCK (i_inum x) < bm"
  shows "changes bm sz M x (stored x M) x \<and> same_bytes M x (stored x M) x \<and> blk (stored x M) x = blk M x"
proof -
  have u: "usedb (stored x M) bm = usedb M bm" using ib by (simp add: fun_eq_iff usedb_def)
  have blk: "blk (stored x M) x = blk M x" by (rule blk_low [OF ok ib])
  then have refs: "refs (stored x M) x = refs M x" by (simp add: fun_eq_iff refs_def)
  then have bl: "blocks (stored x M) x = blocks M x" by (simp add: blocks_def)
  have "IBLOCK (i_inum x) \<noteq> 1" by (simp add: IBLOCK_def)
  then have "layout (stored x M) bm sz" using l by (simp add: layout_def u)
  moreover have "file_ok (stored x M) bm sz x" using ok by (simp add: file_ok_def u refs bl)
  moreover have "\<exists>as n. x = x\<lparr>i_addrs := as, i_size := n\<rparr>"
    by (intro exI [of _ "i_addrs x"] exI [of _ "i_size x"]) simp
  moreover have "fbyte (stored x M) x k = fbyte M x k" if k: "k < MAXFILE * BSIZE" for k
  proof -
    have "k div BSIZE < MAXFILE" using k by (simp add: less_mult_imp_div_less)
    then have "blk M x (k div BSIZE) \<noteq> IBLOCK (i_inum x)" if "blk M x (k div BSIZE) \<noteq> 0"
      using refs_range [OF ok, of "k div BSIZE"] that ib by (auto simp: blk_refs)
    then show ?thesis by (simp add: fbyte_def blk)
  qed
  ultimately show ?thesis by (auto simp: changes_def u refs bl blk encode_dinode_outside)
qed

lemma wp_iupdate:
  fixes s :: "'z kfs_scheme"
  assumes x: "tx s M L {}" and ip: "icache s ip = x" and dev: "i_dev x = 1" and ib: "IBLOCK (i_inum x) < disksize s" and room: "card L \<le> 26"
    and Q: "\<And>t. tx t (stored x M) (insert (IBLOCK (i_inum x)) L) {} \<Longrightarrow> txf s t \<Longrightarrow> Q () t"
  shows "wp (iupdate ip) Q s"
  unfolding iupdate_def wp_kbind wp_kget ip dev
proof (rule wp_tx_bread [OF x])
  show "IBLOCK (i_inum x) \<notin> {}" "IBLOCK (i_inum x) < disksize s" "finite {}" "card L + card {} < NBUF" using ib room by simp_all
  fix b t assume t: "tx t M L {IBLOCK (i_inum x)}" "owns t b (IBLOCK (i_inum x))" "txf s t" "kept s t" "\<not> fbusy (bufs s b)"
  have "wp (kthen (set_data b (encode_dinode (dinode_of x) (i_inum x mod IPB * 64))) (kthen (log_write b) (kthen (brelse b) (kret ())))) Q t"
    by (rule wp_put_release [OF t]) (use room Q in \<open>auto simp: wp_kret\<close>)
  then show "wp (kthen (set_data b (encode_dinode (dinode_of x) (i_inum x mod IPB * 64))) (kthen (log_write b) (brelse b))) Q t"
    by (simp add: kthen_kret_unit)
qed

lemma synced_stored: "dinode_ok (dinode_of x) \<Longrightarrow> synced (stored x M) x"
  by (simp add: synced_def decode_encode)

lemma addrs_range:
  assumes ok: "file_ok M bm sz x" and sz: "sz \<le> BPB"
  shows "i_addrs x i < W32"
proof (cases "i \<le> NDIRECT")
  case True
  define k where "k = (if i = NDIRECT then MAXFILE else i)"
  have "refs M x k = i_addrs x i" "k \<le> MAXFILE" using True by (auto simp: k_def refs_def blk_def)
  then show ?thesis using refs_range [OF ok, of k] sz by (cases "i_addrs x i = 0") auto
next
  case False
  then show ?thesis using file_okD(4) [OF ok, of i] by simp
qed

end
