(* ===== verification/Pipe.thy ===== *)
theory Pipe
  imports Fs
begin

text \<open>
  Pipes, \<^verbatim>\<open>src/pipe.c\<close>.  A \<open>struct pipe\<close> fills a page from \<open>kalloc\<close>; the state keeps it as a record under
  the address of the page.  A loop that sleeps is a definition of its own, in which the process
  resumes with the same arguments.
\<close>

abbreviation (input) "PIPESIZE \<equiv> (512 :: nat)"

record pipe =
  pi_data :: "nat \<Rightarrow> u8"
  pi_nread :: nat
  pi_nwrite :: nat
  pi_readopen :: bool
  pi_writeopen :: bool

record kpipe = kcons +
  pipes :: "nat \<Rightarrow> pipe"

definition upd_pipe :: "nat \<Rightarrow> (pipe \<Rightarrow> pipe) \<Rightarrow> 'z kpipe_scheme \<Rightarrow> 'z kpipe_scheme" where
  "upd_pipe p f s = s\<lparr>pipes := (pipes s)(p := f (pipes s p))\<rparr>"

definition pipeclose :: "nat \<Rightarrow> bool \<Rightarrow> (unit, 'z kpipe_scheme) kop" where
  "pipeclose p writable =
     kthen (kacquire (LPipe p))
    (kthen (if writable
            then kthen (kmod (upd_pipe p (\<lambda>x. x\<lparr>pi_writeopen := False\<rparr>))) (wakeup (ChPipeR p))
            else kthen (kmod (upd_pipe p (\<lambda>x. x\<lparr>pi_readopen := False\<rparr>))) (wakeup (ChPipeW p)))
    (kbind (kget (\<lambda>s. \<not> pi_readopen (pipes s p) \<and> \<not> pi_writeopen (pipes s p))) (\<lambda>gone.
     if gone then kthen (krelease (LPipe p)) (kfree p) else krelease (LPipe p))))"

text \<open>\<open>p->data[p->nwrite++ % PIPESIZE] = c\<close> and \<open>p->data[p->nread++ % PIPESIZE]\<close>.\<close>

definition pipe_put :: "u8 \<Rightarrow> pipe \<Rightarrow> pipe" where
  "pipe_put c x = x\<lparr>pi_data := (pi_data x)(pi_nwrite x mod PIPESIZE := c), pi_nwrite := (pi_nwrite x + 1) mod W32\<rparr>"

definition pipe_head :: "pipe \<Rightarrow> u8" where
  "pipe_head x = pi_data x (pi_nread x mod PIPESIZE)"

definition pipe_skip :: "pipe \<Rightarrow> pipe" where
  "pipe_skip x = x\<lparr>pi_nread := (pi_nread x + 1) mod W32\<rparr>"

definition pipe_full :: "pipe \<Rightarrow> bool" where
  "pipe_full x \<longleftrightarrow> pi_nwrite x = (pi_nread x + PIPESIZE) mod W32"

definition pipe_empty :: "pipe \<Rightarrow> bool" where
  "pipe_empty x \<longleftrightarrow> pi_nread x = pi_nwrite x"

text \<open>\<open>n\<close> is the count the caller passed, the list holds the bytes of \<open>addr\<close> not yet written.\<close>

fun pipewrite_loop :: "nat \<Rightarrow> int \<Rightarrow> u8 list \<Rightarrow> (int, 'z kpipe_scheme) kop" where
  "pipewrite_loop p n [] = kthen (wakeup (ChPipeR p)) (kthen (krelease (LPipe p)) (kret n))"
| "pipewrite_loop p n (c # cs) =
     kbind (kget (\<lambda>s. pipe_full (pipes s p))) (\<lambda>full.
     if full then
       kbind (kget (\<lambda>s. \<not> pi_readopen (pipes s p) \<or> p_killed (cur s))) (\<lambda>stop.
       if stop then kthen (krelease (LPipe p)) (kret (-1))
       else kthen (wakeup (ChPipeR p)) (sleep (ChPipeW p) (LPipe p)))
     else kthen (kmod (upd_pipe p (pipe_put c))) (pipewrite_loop p n cs))"

definition pipewrite :: "nat \<Rightarrow> int \<Rightarrow> u8 list \<Rightarrow> (int, 'z kpipe_scheme) kop" where
  "pipewrite p n addr = kthen (kacquire (LPipe p)) (pipewrite_loop p n addr)"

fun piperead_copy :: "nat \<Rightarrow> nat \<Rightarrow> u8 list \<Rightarrow> (u8 list, 'z kpipe_scheme) kop" where
  "piperead_copy p 0 acc = kret acc"
| "piperead_copy p (Suc n) acc =
     kbind (kget (\<lambda>s. pipes s p)) (\<lambda>x.
     if pipe_empty x then kret acc
     else kthen (kmod (upd_pipe p pipe_skip)) (piperead_copy p n (acc @ [pipe_head x])))"

definition piperead_loop :: "nat \<Rightarrow> int \<Rightarrow> (int \<times> u8 list, 'z kpipe_scheme) kop" where
  "piperead_loop p n =
     kbind (kget (\<lambda>s. pipe_empty (pipes s p) \<and> pi_writeopen (pipes s p))) (\<lambda>wait.
     if wait then
       kbind (kget (\<lambda>s. p_killed (cur s))) (\<lambda>killed.
       if killed then kthen (krelease (LPipe p)) (kret (-1, []))
       else sleep (ChPipeR p) (LPipe p))
     else
       kbind (piperead_copy p (nat n) []) (\<lambda>bs.
       kthen (wakeup (ChPipeW p))
      (kthen (krelease (LPipe p))
             (kret (int (length bs), bs)))))"

definition piperead :: "nat \<Rightarrow> int \<Rightarrow> (int \<times> u8 list, 'z kpipe_scheme) kop" where
  "piperead p n = kthen (kacquire (LPipe p)) (piperead_loop p n)"

end
