(* ===== verification/File.thy ===== *)
theory File
  imports Pipe
begin

text \<open>
  Open files, \<^verbatim>\<open>src/file.c\<close> and \<^verbatim>\<open>src/file.h\<close>, with \<open>pipealloc\<close> of \<^verbatim>\<open>src/pipe.c\<close>.  A \<open>struct file*\<close> is the
  index of the entry in \<open>ftable\<close>.
\<close>

abbreviation (input) "NFILE \<equiv> (100 :: nat)"

datatype ftype = FD_NONE | FD_PIPE | FD_INODE

record file_struct =
  f_type :: ftype
  f_ref :: int
  f_readable :: bool
  f_writable :: bool
  f_pipe :: nat
  f_ip :: nat
  f_off :: nat

record kfile = kpipe +
  ftable :: "nat \<Rightarrow> file_struct"

definition upd_file :: "nat \<Rightarrow> (file_struct \<Rightarrow> file_struct) \<Rightarrow> 'z kfile_scheme \<Rightarrow> 'z kfile_scheme" where
  "upd_file i f s = s\<lparr>ftable := (ftable s)(i := f (ftable s i))\<rparr>"

definition filealloc :: "(nat option, 'z kfile_scheme) kop" where
  "filealloc =
     kthen (kacquire LFtable)
    (kbind (kget (\<lambda>s. find (\<lambda>f. f_ref (ftable s f) = 0) [0..<NFILE])) (\<lambda>r.
     case r of
       Some f \<Rightarrow> kthen (kmod (upd_file f (\<lambda>x. x\<lparr>f_ref := 1\<rparr>))) (kthen (krelease LFtable) (kret (Some f)))
     | None \<Rightarrow> kthen (krelease LFtable) (kret None)))"

definition filedup :: "nat \<Rightarrow> (nat, 'z kfile_scheme) kop" where
  "filedup f =
     kthen (kacquire LFtable)
    (kthen (kassert (\<lambda>s. \<not> f_ref (ftable s f) < 1) ''filedup'')
    (kthen (kmod (upd_file f (\<lambda>x. x\<lparr>f_ref := f_ref x + 1\<rparr>)))
    (kthen (krelease LFtable)
           (kret f))))"

definition fileclose :: "nat \<Rightarrow> (unit, 'z kfile_scheme) kop" where
  "fileclose f =
     kthen (kacquire LFtable)
    (kthen (kassert (\<lambda>s. \<not> f_ref (ftable s f) < 1) ''fileclose'')
    (kthen (kmod (upd_file f (\<lambda>x. x\<lparr>f_ref := f_ref x - 1\<rparr>)))
    (kbind (kget (\<lambda>s. ftable s f)) (\<lambda>ff.
     if f_ref ff > 0 then krelease LFtable
     else
       kthen (kmod (upd_file f (\<lambda>x. x\<lparr>f_ref := 0, f_type := FD_NONE\<rparr>)))
      (kthen (krelease LFtable)
       (if f_type ff = FD_PIPE then pipeclose (f_pipe ff) (f_writable ff)
        else if f_type ff = FD_INODE then kthen begin_op (kthen (iput (f_ip ff)) end_op)
        else kret ()))))))"

text \<open>The \<open>stat\<close> record, or \<open>None\<close> for the result -1.\<close>

definition filestat :: "nat \<Rightarrow> (stat option, 'z kfile_scheme) kop" where
  "filestat f =
     kbind (kget (\<lambda>s. ftable s f)) (\<lambda>x.
     if f_type x = FD_INODE then
       kthen (ilock (f_ip x))
      (kbind (kget (stati (f_ip x))) (\<lambda>st.
       kthen (iunlock (f_ip x)) (kret (Some st))))
     else kret None)"

definition fileread :: "nat \<Rightarrow> int \<Rightarrow> (int \<times> u8 list, 'z kfile_scheme) kop" where
  "fileread f n =
     kbind (kget (\<lambda>s. ftable s f)) (\<lambda>x.
     if \<not> f_readable x then kret (-1, [])
     else if f_type x = FD_PIPE then piperead (f_pipe x) n
     else if f_type x = FD_INODE then
       kthen (ilock (f_ip x))
      (kbind (kget (\<lambda>s. f_off (ftable s f))) (\<lambda>off.
       kbind (readi (f_ip x) off (of_int32 n)) (\<lambda>(r, bs).
       kthen (if r > 0 then kmod (upd_file f (\<lambda>x. x\<lparr>f_off := (f_off x + nat r) mod W32\<rparr>)) else kret ())
      (kthen (iunlock (f_ip x))
             (kret (r, bs))))))
     else kpanic ''fileread'')"

text \<open>The largest number of bytes \<open>filewrite\<close> writes in one transaction, and the write of one such piece.\<close>

definition filewrite_max :: nat where
  "filewrite_max = (LOGSIZE - 1 - 1 - 2) div 2 * 512"

lemma filewrite_max_pos [simp]: "0 < filewrite_max"
  by (simp add: filewrite_max_def)

definition filewrite_piece :: "nat \<Rightarrow> nat \<Rightarrow> u8 list \<Rightarrow> (int, 'z kfile_scheme) kop" where
  "filewrite_piece f ip addr =
     kbind (kget (\<lambda>s. f_off (ftable s f))) (\<lambda>off.
     writei ip (take (min (length addr) filewrite_max) addr) off)"

text \<open>
  The loop of \<open>filewrite\<close> over the bytes not yet written; the result says whether all of them
  were written.
\<close>

function filewrite_loop :: "nat \<Rightarrow> u8 list \<Rightarrow> (bool, 'z kfile_scheme) kop" where
  "filewrite_loop f addr =
     (if addr \<noteq> [] then
        let n1 = min (length addr) filewrite_max in
        kbind (kget (\<lambda>s. f_ip (ftable s f))) (\<lambda>ip.
        kthen begin_op
       (kthen (ilock ip)
       (kbind (filewrite_piece f ip addr) (\<lambda>r.
        kthen (if r > 0 then kmod (upd_file f (\<lambda>x. x\<lparr>f_off := (f_off x + nat r) mod W32\<rparr>)) else kret ())
       (kthen (iunlock ip)
       (kthen end_op
        (if r < 0 then kret False
         else if r \<noteq> int n1 then kpanic ''short filewrite''
         else filewrite_loop f (drop n1 addr))))))))
      else kret True)"
  by pat_completeness auto
termination
  by (relation "measure (\<lambda>(_, addr). length addr)") auto

declare filewrite_loop.simps [simp del]

definition filewrite :: "nat \<Rightarrow> int \<Rightarrow> u8 list \<Rightarrow> (int, 'z kfile_scheme) kop" where
  "filewrite f n addr =
     kbind (kget (\<lambda>s. ftable s f)) (\<lambda>x.
     if \<not> f_writable x then kret (-1)
     else if f_type x = FD_PIPE then pipewrite (f_pipe x) n addr
     else if f_type x = FD_INODE then
       kbind (filewrite_loop f addr) (\<lambda>all.
       kret (if all \<and> int (length addr) = n then n else -1))
     else kpanic ''filewrite'')"

text \<open>Both ends of a new pipe, or \<open>None\<close> for -1 with everything it had taken given back.\<close>

definition pipealloc :: "((nat \<times> nat) option, 'z kfile_scheme) kop" where
  "pipealloc =
     kbind filealloc (\<lambda>r0.
     case r0 of None \<Rightarrow> kret None
     | Some f0 \<Rightarrow>
         kbind filealloc (\<lambda>r1.
         case r1 of None \<Rightarrow> kthen (fileclose f0) (kret None)
         | Some f1 \<Rightarrow>
             kbind kalloc (\<lambda>p.
             if p = 0 then kthen (fileclose f0) (kthen (fileclose f1) (kret None))
             else
               kthen (kmod (upd_pipe p (\<lambda>x. x\<lparr>pi_readopen := True, pi_writeopen := True, pi_nwrite := 0, pi_nread := 0\<rparr>)))
              (kthen (kmod (upd_file f0 (\<lambda>x. x\<lparr>f_type := FD_PIPE, f_readable := True, f_writable := False, f_pipe := p\<rparr>)))
              (kthen (kmod (upd_file f1 (\<lambda>x. x\<lparr>f_type := FD_PIPE, f_readable := False, f_writable := True, f_pipe := p\<rparr>)))
                     (kret (Some (f0, f1))))))))"

end
