(* ===== verification/Proc.thy ===== *)
theory Proc
  imports File
begin

text \<open>
  The life of a process, the first part of \<^verbatim>\<open>src/proc.c\<close>: \<open>allocproc\<close>, \<open>userinit\<close>, \<open>growproc\<close>, \<open>fork\<close>,
  \<open>exit\<close>, \<open>wait\<close> and \<open>forkret\<close>.  The addresses of \<open>forkret\<close> and \<open>trapret\<close> are link-time constants kept in the
  state; \<open>uninit\<close> is what the stack slots of an uninitialised local variable hold.
\<close>

record kuser = kfile +
  sym_forkret :: u32
  sym_trapret :: u32
  forkret_first :: bool
  ticks :: nat
  uninit :: bytes

text \<open>\<open>safestrcpy(dst, s, n)\<close> as the string left at \<open>dst\<close>.\<close>

definition safe_name :: "nat \<Rightarrow> string \<Rightarrow> string" where
  "safe_name n s = take (n - 1) (takeWhile (\<lambda>c. c \<noteq> CHR 0x00) s)"

text \<open>
  The kernel stack holds, from the top, the trap frame (76 bytes), the return address
  \<open>trapret\<close> and the saved context (20 bytes).  The trap frame of a new process is whatever the
  page held; the model leaves the field as it is.
\<close>

definition allocproc :: "(nat option, 'z kuser_scheme) kop" where
  "allocproc =
     kthen (kacquire LPtable)
    (kbind (kget (\<lambda>s. find (\<lambda>i. p_state (ptable s i) = UNUSED) [0..<NPROC])) (\<lambda>r.
     case r of
       None \<Rightarrow> kthen (krelease LPtable) (kret None)
     | Some p \<Rightarrow>
         kthen (kmod (\<lambda>s. upd_proc p (\<lambda>x. x\<lparr>p_state := EMBRYO, p_pid := nextpid s\<rparr>) (s\<lparr>nextpid := nextpid s + 1\<rparr>)))
        (kthen (krelease LPtable)
        (kbind kalloc (\<lambda>st.
         kthen (kmod (upd_proc p (\<lambda>x. x\<lparr>p_kstack := st\<rparr>)))
         (if st = 0 then kthen (kmod (upd_proc p (\<lambda>x. x\<lparr>p_state := UNUSED\<rparr>))) (kret None)
          else
            kthen (kmod (\<lambda>s. s\<lparr>mem := (mem s)(st := wr32 (mem s st) (KSTACKSIZE - 76 - 4) (unat (sym_trapret s)))\<rparr>))
           (kthen (kmod (\<lambda>s. upd_proc p (\<lambda>x. x\<lparr>p_context := zero_context\<lparr>cx_eip := sym_forkret s\<rparr>\<rparr>) s))
                  (kret (Some p)))))))))"

text \<open>The selectors \<open>(SEG_UCODE << 3) | DPL_USER\<close> and \<open>(SEG_UDATA << 3) | DPL_USER\<close>, and \<open>FL_IF\<close>.\<close>

definition user_tf :: trapframe where
  "user_tf = zero_tf\<lparr>tf_cs := 0x23, tf_ds := 0x2B, tf_es := 0x2B, tf_ss := 0x2B, tf_eflags := 0x200,
     tf_esp := 4096, tf_eip := 0\<rparr>"

definition userinit :: "u8 list \<Rightarrow> (unit, 'z kuser_scheme) kop" where
  "userinit initcode =
     kbind allocproc (\<lambda>r.
     kthen (kmod (\<lambda>s. s\<lparr>initproc := r\<rparr>))
     (case r of
        None \<Rightarrow> kpanic ''userinit: null process''
      | Some p \<Rightarrow>
          kbind setupkvm (\<lambda>d.
          kthen (kmod (upd_proc p (\<lambda>x. x\<lparr>p_pgdir := d\<rparr>)))
         (kthen (kassert (\<lambda>_. d \<noteq> 0) ''userinit: out of memory?'')
         (kthen (inituvm d initcode)
         (kthen (kmod (upd_proc p (\<lambda>x. x\<lparr>p_sz := PGSIZE, p_tf := user_tf, p_name := safe_name 16 ''initcode''\<rparr>)))
         (kbind (namei [slash]) (\<lambda>c.
          kthen (kmod (upd_proc p (\<lambda>x. x\<lparr>p_cwd := c\<rparr>)))
                (kmod (upd_proc p (\<lambda>x. x\<lparr>p_state := RUNNABLE\<rparr>)))))))))))"

definition growproc :: "int \<Rightarrow> (int, 'z kuser_scheme) kop" where
  "growproc n =
     kbind (kget cur) (\<lambda>p.
     let newsz = (p_sz p + of_int32 n) mod W32 in
     kbind (if n > 0 then kbind (allocuvm (p_pgdir p) (p_sz p) newsz) (\<lambda>sz. kret (if sz = 0 then None else Some sz))
            else if n < 0 then kbind (deallocuvm (p_pgdir p) (p_sz p) newsz) (\<lambda>sz. kret (if sz = 0 then None else Some sz))
            else kret (Some (p_sz p))) (\<lambda>r.
     case r of
       None \<Rightarrow> kret (-1)
     | Some sz \<Rightarrow>
         kthen (kmod (upd_cur (\<lambda>x. x\<lparr>p_sz := sz\<rparr>)))
        (kthen (kbind (kget (\<lambda>s. the (curproc s))) switchuvm)
               (kret 0))))"

text \<open>\<open>if(proc->ofile[i]) np->ofile[i] = filedup(proc->ofile[i]);\<close>\<close>

definition fork_file :: "nat \<Rightarrow> nat \<Rightarrow> (unit, 'z kuser_scheme) kop" where
  "fork_file np i =
     kbind (kget (\<lambda>s. p_ofile (cur s) i)) (\<lambda>o1.
     case o1 of
       None \<Rightarrow> kret ()
     | Some f \<Rightarrow> kbind (filedup f) (\<lambda>g. kmod (upd_proc np (\<lambda>x. x\<lparr>p_ofile := (p_ofile x)(i \<mapsto> g)\<rparr>))))"

definition fork :: "(int, 'z kuser_scheme) kop" where
  "fork =
     kbind allocproc (\<lambda>r.
     case r of
       None \<Rightarrow> kret (-1)
     | Some np \<Rightarrow>
         kbind (kget cur) (\<lambda>p.
         kbind (copyuvm (p_pgdir p) (p_sz p)) (\<lambda>d.
         kthen (kmod (upd_proc np (\<lambda>x. x\<lparr>p_pgdir := d\<rparr>)))
         (if d = 0 then
            kthen (kbind (kget (\<lambda>s. p_kstack (ptable s np))) kfree)
           (kthen (kmod (upd_proc np (\<lambda>x. x\<lparr>p_kstack := 0, p_state := UNUSED\<rparr>)))
                  (kret (-1)))
          else
            kthen (kmod (\<lambda>s. upd_proc np (\<lambda>x. x\<lparr>p_sz := p_sz p, p_parent := curproc s, p_tf := (p_tf p)\<lparr>tf_eax := 0\<rparr>\<rparr>) s))
           (kthen (kfor [0..<NOFILE] (fork_file np))
           (kbind (case p_cwd p of Some ip \<Rightarrow> idup ip | None \<Rightarrow> kpanic ''idup: null inode'') (\<lambda>c.
            kthen (kmod (upd_proc np (\<lambda>x. x\<lparr>p_cwd := Some c, p_name := safe_name 16 (p_name p)\<rparr>)))
           (kbind (kget (\<lambda>s. p_pid (ptable s np))) (\<lambda>pid.
            kthen (kacquire LPtable)
           (kthen (kmod (upd_proc np (\<lambda>x. x\<lparr>p_state := RUNNABLE\<rparr>)))
           (kthen (krelease LPtable)
                  (kret pid)))))))))))) "

text \<open>\<open>exit\<close>: closing a descriptor, and handing a child to \<open>init\<close>.\<close>

definition exit_file :: "nat \<Rightarrow> (unit, 'z kuser_scheme) kop" where
  "exit_file fd =
     kbind (kget (\<lambda>s. p_ofile (cur s) fd)) (\<lambda>o1.
     case o1 of
       None \<Rightarrow> kret ()
     | Some f \<Rightarrow> kthen (fileclose f) (kmod (upd_cur (\<lambda>x. x\<lparr>p_ofile := (p_ofile x)(fd := None)\<rparr>))))"

text \<open>\<open>wakeup1\<close> of a process as the channel; of the null pointer it wakes the processes that sleep with a null channel.\<close>

definition wakeup_proc :: "nat option \<Rightarrow> (unit, 'z kuser_scheme) kop" where
  "wakeup_proc q =
     (case q of
        Some i \<Rightarrow> wakeup1 (ChProc i)
      | None \<Rightarrow> kmod (\<lambda>s. s\<lparr>ptable := (\<lambda>i. let p = ptable s i in
          if i < NPROC \<and> p_state p = SLEEPING \<and> p_chan p = None then p\<lparr>p_state := RUNNABLE\<rparr> else p)\<rparr>))"

definition exit_child :: "nat \<Rightarrow> (unit, 'z kuser_scheme) kop" where
  "exit_child i =
     kbind (kget (\<lambda>s. p_parent (ptable s i) = curproc s \<and> curproc s \<noteq> None)) (\<lambda>mine.
     if mine then
       kthen (kmod (\<lambda>s. upd_proc i (\<lambda>x. x\<lparr>p_parent := initproc s\<rparr>) s))
      (kbind (kget (\<lambda>s. p_state (ptable s i) = ZOMBIE)) (\<lambda>z.
       if z then kbind (kget initproc) wakeup_proc else kret ()))
     else kret ())"

definition exit :: "('a, 'z kuser_scheme) kop" where
  "exit =
     kthen (kassert (\<lambda>s. curproc s \<noteq> initproc s) ''init exiting'')
    (kthen (kfor [0..<NOFILE] exit_file)
    (kthen begin_op
    (kthen (kbind (kget (\<lambda>s. p_cwd (cur s))) (\<lambda>c. case c of Some ip \<Rightarrow> iput ip | None \<Rightarrow> kpanic ''iput: null inode''))
    (kthen end_op
    (kthen (kmod (upd_cur (\<lambda>x. x\<lparr>p_cwd := None\<rparr>)))
    (kthen (kacquire LPtable)
    (kthen (kbind (kget (\<lambda>s. p_parent (cur s))) wakeup_proc)
    (kthen (kfor [0..<NPROC] exit_child)
    (kthen (kmod (upd_cur (\<lambda>x. x\<lparr>p_state := ZOMBIE\<rparr>)))
           (sched Exited))))))))))"

text \<open>
  One pass of the loop of \<open>wait\<close>: reap the first zombie child, fail, or sleep (and then take
  another pass).
\<close>

definition reap :: "nat \<Rightarrow> (int, 'z kuser_scheme) kop" where
  "reap i =
     kbind (kget (\<lambda>s. ptable s i)) (\<lambda>p.
     kthen (kfree (p_kstack p))
    (kthen (kmod (upd_proc i (\<lambda>x. x\<lparr>p_kstack := 0\<rparr>)))
    (kthen (freevm (p_pgdir p))
    (kthen (kmod (upd_proc i (\<lambda>x. x\<lparr>p_state := UNUSED, p_pid := 0, p_parent := None, p_name := [], p_killed := False\<rparr>)))
           (kret (p_pid p))))))"

definition wait_loop :: "(int, 'z kuser_scheme) kop" where
  "wait_loop =
     kbind (kget (\<lambda>s. find (\<lambda>i. p_parent (ptable s i) = curproc s \<and> p_state (ptable s i) = ZOMBIE) [0..<NPROC])) (\<lambda>r.
     case r of
       Some i \<Rightarrow> kbind (reap i) (\<lambda>pid. kthen (krelease LPtable) (kret pid))
     | None \<Rightarrow>
         kbind (kget (\<lambda>s. find (\<lambda>i. p_parent (ptable s i) = curproc s) [0..<NPROC] = None \<or> p_killed (cur s))) (\<lambda>stop.
         if stop then kthen (krelease LPtable) (kret (-1))
         else kbind (kget (\<lambda>s. the (curproc s))) (\<lambda>me. sleep (ChProc me) LPtable)))"

definition wait :: "(int, 'z kuser_scheme) kop" where
  "wait = kthen (kacquire LPtable) wait_loop"

definition forkret :: "(unit, 'z kuser_scheme) kop" where
  "forkret =
     kthen (krelease LPtable)
    (kbind (kget forkret_first) (\<lambda>f.
     if f then kthen (kmod (\<lambda>s. s\<lparr>forkret_first := False\<rparr>)) initlog else kret ()))"

end
