(* ===== verification/States.thy ===== *)
theory States
  imports Proc
begin

text \<open>
  A concrete kernel state on which the theorems of the development are instantiated: one running process in
  slot 0, empty caches, no free page.
\<close>

definition idle_kernel :: kuser where
  "idle_kernel = \<lparr>
     held = [],
     ptable = (\<lambda>_. blank_proc)(0 := blank_proc\<lparr>p_state := RUNNING, p_pid := 1, p_cwd := Some 0\<rparr>),
     curproc = Some 0,
     initproc = Some 0,
     nextpid = 2,
     iflag = True,
     cr3 = 0,
     ts_ss0 = 0,
     ts_esp0 = 0,
     kpgdir = 0,
     mem = (\<lambda>_ _. 0),
     freelist = 0,
     kmem_use_lock = True,
     kend = KERNBASE + 8000,
     kdata = KERNBASE + 4096,
     disk = (\<lambda>_ _. 0),
     disksize = 1024,
     dwrites = [],
     bufs = (\<lambda>_. \<lparr>b_flags = {}, b_dev = W32 - 1, b_sector = 0, b_data = (\<lambda>_. 0)\<rparr>),
     lru = [0..<NBUF],
     log_start = 994,
     log_size = 30,
     log_outstanding = 0,
     log_committing = False,
     log_dev = 1,
     lh_n = 0,
     lh_sector = (\<lambda>_. 0),
     icache = (\<lambda>_. \<lparr>i_dev = 0, i_inum = 0, i_ref = 0, i_flags = {}, i_type = 0, i_major = 0, i_minor = 0, i_nlink = 0, i_size = 0, i_addrs = (\<lambda>_. 0)\<rparr>),
     outs = [],
     inp = (\<lambda>_. 0),
     irqmask = 0,
     ismp = False,
     ioapicid = 0,
     ioapic_regs = (\<lambda>_. 0),
     lapic_mapped = False,
     lapic_regs = (\<lambda>_. 0),
     uart = False,
     uart_in = [],
     kbd_in = [],
     kbd_shift = 0,
     crt = (\<lambda>_. 0),
     crt_pos = 0,
     panicked = False,
     cons_locking = True,
     in_buf = (\<lambda>_. 0),
     in_r = 0,
     in_w = 0,
     in_e = 0,
     devsw_read = (\<lambda>_. None),
     devsw_write = (\<lambda>_. None),
     pipes = (\<lambda>_. \<lparr>pi_data = (\<lambda>_. 0), pi_nread = 0, pi_nwrite = 0, pi_readopen = False, pi_writeopen = False\<rparr>),
     ftable = (\<lambda>_. \<lparr>f_type = FD_NONE, f_ref = 0, f_readable = False, f_writable = False, f_pipe = 0, f_ip = 0, f_off = 0\<rparr>),
     sym_forkret = 0x80104000,
     sym_trapret = 0x80105000,
     forkret_first = True,
     ticks = 0,
     uninit = (\<lambda>_. 0)\<rparr>"

text \<open>The fields, one by one, so that a record with fifty fields is never unfolded.\<close>

lemma idle_kernel_fields [simp]:
  "held idle_kernel = ([])"
  "ptable idle_kernel = ((\<lambda>_. blank_proc)(0 := blank_proc\<lparr>p_state := RUNNING, p_pid := 1, p_cwd := Some 0\<rparr>))"
  "curproc idle_kernel = (Some 0)"
  "initproc idle_kernel = (Some 0)"
  "nextpid idle_kernel = (2)"
  "iflag idle_kernel = (True)"
  "cr3 idle_kernel = (0)"
  "ts_ss0 idle_kernel = (0)"
  "ts_esp0 idle_kernel = (0)"
  "kpgdir idle_kernel = (0)"
  "mem idle_kernel = ((\<lambda>_ _. 0))"
  "freelist idle_kernel = (0)"
  "kmem_use_lock idle_kernel = (True)"
  "kend idle_kernel = (KERNBASE + 8000)"
  "kdata idle_kernel = (KERNBASE + 4096)"
  "disk idle_kernel = ((\<lambda>_ _. 0))"
  "disksize idle_kernel = (1024)"
  "dwrites idle_kernel = ([])"
  "bufs idle_kernel = (\<lambda>_. \<lparr>b_flags = {}, b_dev = W32 - 1, b_sector = 0, b_data = (\<lambda>_. 0)\<rparr>)"
  "lru idle_kernel = ([0..<NBUF])"
  "log_start idle_kernel = (994)"
  "log_size idle_kernel = (30)"
  "log_outstanding idle_kernel = (0)"
  "log_committing idle_kernel = (False)"
  "log_dev idle_kernel = (1)"
  "lh_n idle_kernel = (0)"
  "lh_sector idle_kernel = ((\<lambda>_. 0))"
  "icache idle_kernel = (\<lambda>_. \<lparr>i_dev = 0, i_inum = 0, i_ref = 0, i_flags = {}, i_type = 0, i_major = 0, i_minor = 0, i_nlink = 0, i_size = 0, i_addrs = (\<lambda>_. 0)\<rparr>)"
  "outs idle_kernel = ([])"
  "inp idle_kernel = ((\<lambda>_. 0))"
  "irqmask idle_kernel = (0)"
  "ismp idle_kernel = (False)"
  "ioapicid idle_kernel = (0)"
  "ioapic_regs idle_kernel = ((\<lambda>_. 0))"
  "lapic_mapped idle_kernel = (False)"
  "lapic_regs idle_kernel = ((\<lambda>_. 0))"
  "uart idle_kernel = (False)"
  "uart_in idle_kernel = ([])"
  "kbd_in idle_kernel = ([])"
  "kbd_shift idle_kernel = (0)"
  "crt idle_kernel = ((\<lambda>_. 0))"
  "crt_pos idle_kernel = (0)"
  "panicked idle_kernel = (False)"
  "cons_locking idle_kernel = (True)"
  "in_buf idle_kernel = ((\<lambda>_. 0))"
  "in_r idle_kernel = (0)"
  "in_w idle_kernel = (0)"
  "in_e idle_kernel = (0)"
  "devsw_read idle_kernel = ((\<lambda>_. None))"
  "devsw_write idle_kernel = ((\<lambda>_. None))"
  "pipes idle_kernel = (\<lambda>_. \<lparr>pi_data = (\<lambda>_. 0), pi_nread = 0, pi_nwrite = 0, pi_readopen = False, pi_writeopen = False\<rparr>)"
  "ftable idle_kernel = (\<lambda>_. \<lparr>f_type = FD_NONE, f_ref = 0, f_readable = False, f_writable = False, f_pipe = 0, f_ip = 0, f_off = 0\<rparr>)"
  "sym_forkret idle_kernel = (0x80104000)"
  "sym_trapret idle_kernel = (0x80105000)"
  "forkret_first idle_kernel = (True)"
  "ticks idle_kernel = (0)"
  "uninit idle_kernel = ((\<lambda>_. 0))"
  by (simp_all add: idle_kernel_def)

end
