(* ===== verification/Files.thy ===== *)
theory Files
  imports FileIO States
begin

text \<open>
  What \<open>readi\<close> and \<open>writei\<close> promise for an ordinary file or a directory: an array of bytes that grows.
\<close>

section \<open>A file in use\<close>

text \<open>
  The inode \<open>ip\<close> is cached and its file is in order, on disk and in memory, while a transaction with the logged blocks \<open>L\<close> is open.
\<close>

definition file_at :: "'z kfs_scheme \<Rightarrow> nat \<Rightarrow> (nat \<Rightarrow> bytes) \<Rightarrow> nat set \<Rightarrow> nat \<Rightarrow> nat \<Rightarrow> bool" where
  "file_at s ip M L bm sz \<longleftrightarrow> tx s M L {} \<and> layout M bm sz \<and> sz \<le> disksize s \<and> file_ok M bm sz (icache s ip) \<and>
     IBLOCK (i_inum (icache s ip)) < bm \<and> i_type (icache s ip) \<noteq> T_DEV \<and> i_size (icache s ip) \<le> MAXFILE * BSIZE \<and>
     whole M (icache s ip) \<and> synced M (icache s ip) \<and> dinode_ok (dinode_of (icache s ip))"

lemma file_atD:
  assumes "file_at s ip M L bm sz"
  shows "tx s M L {}" "layout M bm sz" "sz \<le> disksize s" "file_ok M bm sz (icache s ip)" "IBLOCK (i_inum (icache s ip)) < bm"
    "i_type (icache s ip) \<noteq> T_DEV" "i_size (icache s ip) \<le> MAXFILE * BSIZE" "whole M (icache s ip)" "synced M (icache s ip)"
    "dinode_ok (dinode_of (icache s ip))"
  using assms by (simp_all add: file_at_def)

lemma whole_present: "whole M x \<Longrightarrow> off + n \<le> i_size x \<Longrightarrow> present M x off n"
  by (auto simp: whole_def intro!: presentI)

lemma wp_Ok: "wp f Q s \<Longrightarrow> \<exists>a t. f s = Ok a t \<and> Q a t"
  by (auto simp: wp_def split: res.splits)

section \<open>Reading\<close>

lemma wp_readi:
  fixes s :: "'z kcons_scheme"
  assumes c: "cfx s M L L {}" "finite L" "card L < NBUF" and ok: "file_ok M bm sz x" and ip: "icache s ip = x" and d: "sz \<le> disksize s"
    and ty: "i_type x \<noteq> T_DEV" and size: "i_size x \<le> MAXFILE * BSIZE" and wh: "whole M x" and off: "off \<le> i_size x" and n: "off + n < W32"
    and Q: "\<And>t. cfx t M L L {} \<Longrightarrow> stp s t [] \<Longrightarrow>
      Q (int (min n (i_size x - off)), slice (fbyte M x) off (min n (i_size x - off))) t"
  shows "wp (readi ip off n) Q s"
proof -
  define n1 where "n1 = (if off + n > i_size x then i_size x - off else n)"
  have n1: "n1 = min n (i_size x - off)" using off by (auto simp: n1_def)
  have le: "off + n1 \<le> i_size x" using off by (simp add: n1)
  have small: "int_of32 n1 = int n1" using le size by (simp add: int_of32_def)
  have neg: "\<not> (off > i_size x \<or> (off + n) mod W32 < off)" using off n by simp
  show ?thesis
    unfolding readi_def wp_kbind wp_kget ip if_not_P [OF ty] if_not_P [OF neg] n1_def [symmetric] Let_def wp_kret small
  proof (rule wp_readi_loop [OF c ok ip d])
    show "off + n1 \<le> MAXFILE * BSIZE" using le size by simp
    show "present M x off n1" by (rule whole_present [OF wh le])
    fix t assume "cfx t M L L {}" "stp s t []"
    then show "Q (int n1, [] @ slice (fbyte M x) off n1) t" using Q by (simp add: n1)
  qed
qed

section \<open>Writing\<close>

lemma dinode_ok_grown:
  assumes c: "changes bm sz M x M' x'" and d: "dinode_ok (dinode_of x)" and n: "n \<le> MAXFILE * BSIZE"
  shows "dinode_ok (dinode_of (x'\<lparr>i_size := n\<rparr>))"
proof -
  have "i_addrs x' i < W32" for i by (rule addrs_range [OF changesD(1) [OF c] layoutD(3) [OF changesD(2) [OF c]]])
  moreover have "i_addrs x' i = 0" if "NDIRECT < i" for i by (rule file_okD(4) [OF changesD(1) [OF c] that])
  ultimately show ?thesis using d n changesD(10-13) [OF c] by (simp add: dinode_ok_def dinode_of_def)
qed

lemma file_ok_size [simp]: "file_ok M bm sz (x\<lparr>i_size := n\<rparr>) = file_ok M bm sz x"
  by (simp add: file_ok_def)

lemma changes_size:
  assumes "changes bm sz M x M' x'"
  shows "changes bm sz M x M' (x'\<lparr>i_size := n\<rparr>)"
proof -
  obtain as m where "x' = x\<lparr>i_addrs := as, i_size := m\<rparr>" using assms by (auto simp: changes_def)
  then have "x'\<lparr>i_size := n\<rparr> = x\<lparr>i_addrs := as, i_size := n\<rparr>" by simp
  then have "\<exists>as m. x'\<lparr>i_size := n\<rparr> = x\<lparr>i_addrs := as, i_size := m\<rparr>" by blast
  with assms show ?thesis unfolding changes_def refs_size file_ok_size by simp
qed

text \<open>A file stays whole when it is extended by what is written at or below its end.\<close>

lemma whole_grown:
  assumes w: "whole M x" and c: "changes bm sz M x M' x'" and p: "present M' x' off n" and off: "off \<le> i_size x"
    and m: "m \<le> max (i_size x) (off + n)"
  shows "whole M' (x'\<lparr>i_size := m\<rparr>)"
  unfolding whole_def
proof (intro allI impI)
  fix k assume k: "k < MAXFILE" "k * BSIZE < i_size (x'\<lparr>i_size := m\<rparr>)"
  show "blk M' (x'\<lparr>i_size := m\<rparr>) k \<noteq> 0"
  proof (cases "k * BSIZE < i_size x")
    case True
    then show ?thesis using w k(1) changesD(6) [OF c, of k] by (simp add: whole_def blk_refs)
  next
    case False
    then have "off div BSIZE \<le> k" using off div_le_mono [of off "k * BSIZE" BSIZE] by simp
    moreover have "k * BSIZE < off + n" "0 < n" using False k(2) m off by auto
    ultimately show ?thesis using presentD [OF p k(1)] by simp
  qed
qed

definition written :: "nat \<Rightarrow> u8 list \<Rightarrow> (nat \<Rightarrow> u8) \<Rightarrow> nat \<Rightarrow> u8" where
  "written off bs f k = (if off \<le> k \<and> k < off + length bs then bs ! (k - off) else f k)"

lemma wp_writei:
  fixes s :: "'z kcons_scheme"
  assumes at: "file_at s ip M L bm sz" and x: "x = icache s ip" and off: "off \<le> i_size x" and len: "off + length bs \<le> MAXFILE * BSIZE"
    and room: "has_room bm sz off (length bs) (M, x, L)"
    and Q: "\<And>t M' L' x'. x' = icache t ip \<Longrightarrow> file_at t ip M' L' bm sz \<Longrightarrow> changes bm sz M x M' x' \<Longrightarrow> i_size x' = max (i_size x) (off + length bs) \<Longrightarrow>
      card L' \<le> spent bm x L + touched off (length bs) \<Longrightarrow>
      (\<forall>k<MAXFILE * BSIZE. fbyte M' x' k = written off bs (fbyte M x) k) \<Longrightarrow> txf (s\<lparr>icache := (icache s)(ip := x')\<rparr>) t \<Longrightarrow> Q (int (length bs)) t"
  shows "wp (writei ip bs off) Q s"
proof -
  note a = file_atD [OF at, folded x]
  have g: "\<not> (off > i_size x \<or> (off + length bs) mod W32 < off)" "\<not> off + length bs > MAXFILE * BSIZE" using off len by simp_all
  show ?thesis
    unfolding writei_def wp_kbind wp_kget x [symmetric] Let_def if_not_P [OF a(6)] if_not_P [OF g(1)] if_not_P [OF g(2)]
  proof (rule wp_writei_loop [OF a(1-5) x [symmetric] len room])
    fix t M' x' L'
    assume t: "tx t M' L' {}" "txf (s\<lparr>icache := (icache s)(ip := x')\<rparr>) t" and w: "wrote bm sz off bs (M, x, L) (M', x', L')"
    have c: "changes bm sz M x M' x'" and s': "i_size x' = i_size x" and lo: "\<And>n. n < bm \<Longrightarrow> M' n = M n"
      and b: "\<And>k. k < MAXFILE * BSIZE \<Longrightarrow> fbyte M' x' k = written off bs (fbyte M x) k" and p: "present M' x' off (length bs)"
      and sp: "spent bm x' L' \<le> 26" "spent bm x' L' \<le> spent bm x L + touched off (length bs)" and id: "present M x off (length bs) \<Longrightarrow> x' = x"
      using w room by (simp_all add: wrote_def has_room_def written_def)
    note ok' = changesD(1) [OF c] and l' = changesD(2) [OF c]
    have ipt: "icache t = (icache s)(ip := x')" using txf_icache_eq [OF t(2)] by simp
    have dt: "disksize t = disksize s" using txf_eqs(3) [OF t(2)] by simp
    have ib': "IBLOCK (i_inum x') < bm" "i_type x' \<noteq> T_DEV" using a(5,6) changesD(8,10) [OF c] by simp_all
    have fin: "finite L'" using logged_card [OF tx_logged [OF t(1)]] by simp
    show "wp (kthen (if length bs > 0 \<and> off + length bs > i_size (icache t ip)
        then kthen (kmod (upd_inode ip (\<lambda>x. x\<lparr>i_size := off + length bs\<rparr>))) (iupdate ip) else kret ()) (kret (int (length bs)))) Q t"
    proof (cases "length bs > 0 \<and> off + length bs > i_size x")
      case grow: True
      let ?x = "x'\<lparr>i_size := off + length bs\<rparr>" and ?t = "t\<lparr>icache := (icache s)(ip := x'\<lparr>i_size := off + length bs\<rparr>)\<rparr>"
      have dn: "dinode_ok (dinode_of ?x)" by (rule dinode_ok_grown [OF c a(10) len])
      have c2: "changes bm sz M x M' ?x" by (rule changes_size [OF c])
      have st: "changes bm sz M' ?x (stored ?x M') ?x" "same_bytes M' ?x (stored ?x M') ?x" "blk (stored ?x M') ?x = blk M' ?x"
        using stored_changes [OF changesD(1,2) [OF c2]] ib'(1) by auto
      have "wp (iupdate ip) (\<lambda>_. wp (kret (int (length bs))) Q) ?t"
      proof (rule wp_iupdate)
        show "tx ?t M' L' {}" using t(1) by simp
        show "icache ?t ip = ?x" "i_dev ?x = 1" using file_okD(1) [OF ok'] by simp_all
        show "IBLOCK (i_inum ?x) < disksize ?t" using ib' layoutD(2) [OF l'] a(3) dt by simp
        show "card L' \<le> 26" using spent_card [OF fin, of bm x'] sp by simp
        fix u assume u: "tx u (stored ?x M') (insert (IBLOCK (i_inum ?x)) L') {}" "txf ?t u"
        have ipu: "icache u = (icache s)(ip := ?x)" using txf_icache_eq [OF u(2)] by simp
        have wh: "whole (stored ?x M') ?x" using whole_grown [OF a(8) c p off, of "off + length bs"] unfolding whole_def st(3) by simp
        have "file_at u ip (stored ?x M') (insert (IBLOCK (i_inum ?x)) L') bm sz"
          using u changesD(1,2) [OF st(1)] ib' len dn synced_stored [OF dn] wh a(3) txf_eqs(3) [OF u(2)] dt
          unfolding file_at_def ipu by simp
        moreover have "card (insert (IBLOCK (i_inum ?x)) L') \<le> spent bm x' L'"
          using card_mono [of "insert bm (insert (IBLOCK (i_inum x')) L')" "insert (IBLOCK (i_inum x')) L'"] fin by (simp add: spent_def subset_insertI trans_le_add1)
        then have "card (insert (IBLOCK (i_inum ?x)) L') \<le> spent bm x L + touched off (length bs)" using sp(2) by linarith
        moreover have "txf (s\<lparr>icache := (icache s)(ip := ?x)\<rparr>) u"
          using txf_trans [OF txf_icache [OF t(2), of "(icache s)(ip := ?x)"]] u(2) by simp
        moreover have "\<forall>k<MAXFILE * BSIZE. fbyte (stored ?x M') ?x k = written off bs (fbyte M x) k" using st(2) b by simp
        ultimately show "wp (kret (int (length bs))) Q u"
          unfolding wp_kret using changes_trans [OF c2 st(1)] grow by (intro Q [where x' = ?x]) (simp_all add: ipu max_absorb2)
      qed
      then show ?thesis using grow s' by (simp add: ipt wp_kthen wp_kmod upd_inode_def)
    next
      case False
      then have le: "off + length bs \<le> i_size x" using off by auto
      have "x' = x" by (rule id [OF whole_present [OF a(8) le]])
      then have e: "icache t ip = x" by (simp add: ipt)
      have "whole M' x" using whole_grown [OF a(8) c p off, of "i_size x"] \<open>x' = x\<close> by simp
      moreover have "synced M' x" using a(9) lo [OF a(5)] by (simp add: synced_def)
      ultimately have "file_at t ip M' L' bm sz"
        using t(1) l' ok' a(3,5-7,10) dt \<open>x' = x\<close> unfolding file_at_def e by simp
      then show ?thesis
        using False t(2) c b le s' e \<open>x' = x\<close> sp(2) spent_card [OF fin, of bm x]
        by (auto simp: wp_kthen wp_kret intro!: Q [where x' = x and M' = M' and L' = L'])
    qed
  qed
qed

section \<open>The properties\<close>

text \<open>
  C6.  What was written is read back: \<open>writei\<close> of any bytes at any offset up to the end of a file, across block boundaries and into
  new direct and indirect blocks, and then \<open>readi\<close> of as many bytes at the same offset returns these bytes.
\<close>

theorem writei_readi:
  fixes s :: "'z kcons_scheme"
  assumes "file_at s ip M L bm sz" and "off \<le> i_size (icache s ip)" and "off + length bs \<le> MAXFILE * BSIZE"
    and "has_room bm sz off (length bs) (M, icache s ip, L)"
  shows "\<exists>t. kbind (writei ip bs off) (\<lambda>r. kbind (readi ip off (length bs)) (\<lambda>q. kret (r, q))) s = Ok (int (length bs), (int (length bs), bs)) t"
proof -
  have "wp (kbind (writei ip bs off) (\<lambda>r. kbind (readi ip off (length bs)) (\<lambda>q. kret (r, q))))
    (\<lambda>a _. a = (int (length bs), (int (length bs), bs))) s"
    unfolding wp_kbind
  proof (rule wp_writei [OF assms(1) refl assms(2-4)])
    fix t :: "'z kcons_scheme" and M' L' x'
    assume x': "x' = icache t ip" and at: "file_at t ip M' L' bm sz" and sz: "i_size x' = max (i_size (icache s ip)) (off + length bs)"
      and b: "\<forall>k<MAXFILE * BSIZE. fbyte M' x' k = written off bs (fbyte M (icache s ip)) k"
      and cL: "card L' \<le> spent bm (icache s ip) L + touched off (length bs)"
    note a = file_atD [OF at, folded x']
    have fin: "finite L'" using logged_card [OF tx_logged [OF a(1)]] by simp
    have "card L' < NBUF" using cL assms(4) by (simp add: has_room_def)
    have n: "min (length bs) (i_size x' - off) = length bs" using sz by simp
    have sl: "slice (fbyte M' x') off (length bs) = bs"
      by (rule nth_equalityI) (use b assms(3) in \<open>simp_all add: written_def\<close>)
    show "wp (readi ip off (length bs)) (\<lambda>q. wp (kret (int (length bs), q)) (\<lambda>a _. a = (int (length bs), (int (length bs), bs)))) t"
    proof (rule wp_readi [OF tx_cfx [OF a(1)] fin \<open>card L' < NBUF\<close> a(4) x' [symmetric] a(3,6-8)])
      show "off \<le> i_size x'" "off + length bs < W32" using sz assms(3) by simp_all
      fix u :: "'z kcons_scheme" show "wp (kret (int (length bs), int (min (length bs) (i_size x' - off)), slice (fbyte M' x') off (min (length bs) (i_size x' - off))))
          (\<lambda>a _. a = (int (length bs), (int (length bs), bs))) u" unfolding n sl wp_kret by simp
    qed
  qed
  from wp_Ok [OF this] show ?thesis by blast
qed

text \<open>
  C7.  \<open>writei\<close> implements a write to an array of bytes: it returns the number of bytes, the file then holds them at the offset and
  its other bytes as before, its size is the larger of the old size and the end of the write, and the inode on disk agrees with the
  one in memory.  Every other file whose blocks are disjoint from this one keeps its bytes, and its blocks stay disjoint.
\<close>

theorem writei_writes:
  fixes s :: "'z kcons_scheme"
  assumes "file_at s ip M L bm sz" and "off \<le> i_size (icache s ip)" and "off + length bs \<le> MAXFILE * BSIZE"
    and "has_room bm sz off (length bs) (M, icache s ip, L)"
  shows "\<exists>t M' L'. writei ip bs off s = Ok (int (length bs)) t \<and> file_at t ip M' L' bm sz \<and>
    i_size (icache t ip) = max (i_size (icache s ip)) (off + length bs) \<and>
    (\<forall>k<MAXFILE * BSIZE. fbyte M' (icache t ip) k = written off bs (fbyte M (icache s ip)) k) \<and>
    (\<forall>y. file_ok M bm sz y \<and> blocks M (icache s ip) \<inter> blocks M y = {} \<longrightarrow>
       file_ok M' bm sz y \<and> same_bytes M y M' y \<and> blocks M' (icache t ip) \<inter> blocks M' y = {})"
proof -
  note a = file_atD [OF assms(1)]
  let ?R = "\<lambda>r t. r = int (length bs) \<and> (\<exists>M' L'. file_at t ip M' L' bm sz \<and> i_size (icache t ip) = max (i_size (icache s ip)) (off + length bs) \<and>
    (\<forall>k<MAXFILE * BSIZE. fbyte M' (icache t ip) k = written off bs (fbyte M (icache s ip)) k) \<and> changes bm sz M (icache s ip) M' (icache t ip))"
  have "wp (writei ip bs off) ?R s"
    by (rule wp_writei [OF assms(1) refl assms(2-4)]) blast
  from wp_Ok [OF this] obtain t M' L' where t: "writei ip bs off s = Ok (int (length bs)) t" "file_at t ip M' L' bm sz"
    "i_size (icache t ip) = max (i_size (icache s ip)) (off + length bs)"
    "\<forall>k<MAXFILE * BSIZE. fbyte M' (icache t ip) k = written off bs (fbyte M (icache s ip)) k" and c: "changes bm sz M (icache s ip) M' (icache t ip)"
    by blast
  have "file_ok M' bm sz y \<and> same_bytes M y M' y \<and> blocks M' (icache t ip) \<inter> blocks M' y = {}"
    if "file_ok M bm sz y \<and> blocks M (icache s ip) \<inter> blocks M y = {}" for y
    using changes_other [OF c a(4) _ a(5), of y] that by simp
  with t show ?thesis by blast
qed

text \<open>
  C19.  \<open>readi\<close> of a file in order returns the bytes from the offset up to the requested number or the end of the file, whichever
  comes first, allocates nothing and writes nothing, inside or outside of a transaction.
\<close>

theorem readi_reads:
  fixes s :: "'z kcons_scheme"
  assumes "cfx s M L L {}" "finite L" "card L < NBUF" "file_ok M bm sz (icache s ip)" "sz \<le> disksize s" "i_type (icache s ip) \<noteq> T_DEV"
    "i_size (icache s ip) \<le> MAXFILE * BSIZE" "whole M (icache s ip)" "off \<le> i_size (icache s ip)" "off + n < W32"
  shows "\<exists>t. readi ip off n s =
      Ok (int (min n (i_size (icache s ip) - off)), slice (fbyte M (icache s ip)) off (min n (i_size (icache s ip) - off))) t \<and>
    cfx t M L L {} \<and> disk t = disk s \<and> dwrites t = dwrites s \<and> icache t = icache s \<and> held t = held s"
proof -
  let ?v = "(int (min n (i_size (icache s ip) - off)), slice (fbyte M (icache s ip)) off (min n (i_size (icache s ip) - off)))"
  have "wp (readi ip off n) (\<lambda>a t. a = ?v \<and> cfx t M L L {} \<and> stp s t []) s"
    by (rule wp_readi [OF assms(1-4) refl assms(5-10)]) simp
  from wp_Ok [OF this] obtain t where "readi ip off n s = Ok ?v t" "cfx t M L L {}" "stp s t []" by blast
  then show ?thesis using stp_icache_eq [of s t "[]"] stp_eqs(1) [of s t "[]"] by (simp add: stp_def)
qed

text \<open>
  C20.  A write that starts past the end of the file, wraps around, or would exceed the largest file returns -1 and changes nothing.
\<close>

theorem writei_rejects:
  assumes "i_type (icache s ip) \<noteq> T_DEV"
    and "off > i_size (icache s ip) \<or> (off + length bs) mod W32 < off \<or> off + length bs > MAXFILE * BSIZE"
  shows "writei ip bs off s = Ok (-1) s"
  using assms by (auto simp: writei_def kbind_def kget_def kret_def Let_def)

text \<open>A block whose contents a transaction changed is in its log.\<close>

lemma changed_logged:
  assumes s: "tx s M {} {}" and t: "tx t M' L' {}" "disk t = disk s" and n: "M' n \<noteq> M n"
  shows "n \<in> L'"
proof -
  have "disk s n = M n" using tx_cfx [OF s] by (simp add: cfx_def bcf_def)
  moreover have "n \<notin> L' \<Longrightarrow> disk t n = M' n" using tx_cfx [OF t(1)] by (simp add: cfx_def bcf_def)
  ultimately show ?thesis using t(2) n by auto
qed

text \<open>
  A written byte that differs from the old one puts the block that holds it into the log, a block the file had or a new one, when the
  free blocks of the disk are zero.
\<close>

lemma written_logged:
  assumes s: "tx s M {} {}" and t: "tx t M' L' {}" "disk t = disk s" and c: "changes bm sz M x M' x'" and ok: "file_ok M bm sz x"
    and free: "\<forall>a\<in>free_blocks M bm sz. M a = (\<lambda>_. 0)" and k: "k < MAXFILE * BSIZE" "fbyte M' x' k \<noteq> fbyte M x k"
  shows "blk M' x' (k div BSIZE) \<in> L' \<and> blk M' x' (k div BSIZE) \<noteq> 0"
proof -
  let ?j = "k div BSIZE" and ?b = "blk M' x' (k div BSIZE)"
  have j: "?j < MAXFILE" using k(1) by (simp add: less_mult_imp_div_less)
  have r: "refs M' x' ?j = ?b" "refs M x ?j = blk M x ?j" using j by (simp_all add: refs_def)
  note ok' = changesD(1) [OF c]
  have "M' ?b \<noteq> M ?b \<and> ?b \<noteq> 0"
  proof (cases "blk M x ?j = 0")
    case False
    then have "?b = blk M x ?j" using changesD(6) [OF c, of ?j] r j by simp
    with False k(2) show ?thesis by (auto simp: fbyte_def)
  next
    case True
    then have b: "?b \<noteq> 0" "M' ?b (k mod BSIZE) \<noteq> 0" using k(2) by (auto simp: fbyte_def split: if_splits)
    have in': "?b \<in> blocks M' x'" unfolding blocks_def using r(1) j b(1) by (auto simp: image_iff intro!: bexI [of _ ?j])
    have "?b \<notin> blocks M x"
    proof
      assume "?b \<in> blocks M x"
      then obtain i where i: "i \<le> MAXFILE" "refs M x i = ?b" by (auto simp: blocks_def)
      then have "refs M' x' i = ?b" using changesD(6) [OF c i(1)] b(1) by simp
      then have "i = ?j" using ok' i(1) j r(1) b(1) unfolding file_ok_def by (metis less_imp_le)
      with i r(2) True b(1) show False by simp
    qed
    with in' c have "\<not> usedb M bm ?b" by (auto simp: changes_def)
    moreover have "?b < sz" using ok' in' by (auto simp: file_ok_def)
    ultimately have "M ?b = (\<lambda>_. 0)" using free by (simp add: free_blocks_def)
    with b show ?thesis by metis
  qed
  with changed_logged [OF s t, of ?b] show ?thesis by blast
qed

lemma distinct_blocks:
  assumes ok: "file_ok M bm sz x" and n: "k + n \<le> MAXFILE" and L: "finite L" "\<And>j. j < n \<Longrightarrow> blk M x (k + j) \<in> L \<and> blk M x (k + j) \<noteq> 0"
  shows "n \<le> card L"
proof -
  have "inj_on (\<lambda>j. blk M x (k + j)) {..<n}"
  proof (rule inj_onI)
    fix i j assume ij: "i \<in> {..<n}" "j \<in> {..<n}" "blk M x (k + i) = blk M x (k + j)"
    have r: "refs M x (k + l) = blk M x (k + l)" if "l < n" for l using that n by (auto simp: refs_def)
    have "k + i \<le> MAXFILE" "k + j \<le> MAXFILE" using ij n by simp_all
    then have "k + i = k + j" using ok ij r [of i] r [of j] L(2) [of i] unfolding file_ok_def by (metis lessThan_iff)
    then show "i = j" by simp
  qed
  then have "card ((\<lambda>j. blk M x (k + j)) ` {..<n}) = n" by (simp add: card_image)
  moreover have "(\<lambda>j. blk M x (k + j)) ` {..<n} \<subseteq> L" using L(2) by auto
  ultimately show ?thesis using card_mono [OF L(1)] by metis
qed

text \<open>
  C17.  A piece of a long write that \<open>filewrite\<close> makes one transaction fits into an empty log: it is written and leaves at most 17
  logged blocks.  But a full piece whose bytes all differ from what the file held, on a disk whose free blocks are zero, leaves at least 13, more
  than the \<open>MAXOPBLOCKS\<close> = 10 that \<open>begin_op\<close> reserves for an operation.
\<close>

theorem filewrite_chunk_bound:
  fixes s :: "'z kfile_scheme"
  assumes "file_at s ip M {} bm sz" and "off = f_off (ftable s f)" and "off \<le> i_size (icache s ip)"
    and "off + min (length addr) filewrite_max \<le> MAXFILE * BSIZE" and "15 \<le> card (free_blocks M bm sz)"
  shows "\<exists>t. filewrite_piece f ip addr s = Ok (int (min (length addr) filewrite_max)) t \<and> lh_n t \<le> 17 \<and>
    (filewrite_max \<le> length addr \<and> (\<forall>a\<in>free_blocks M bm sz. M a = (\<lambda>_. 0)) \<and>
       (\<forall>k<filewrite_max. addr ! k \<noteq> fbyte M (icache s ip) (off + k)) \<longrightarrow> int MAXOPBLOCKS + 3 \<le> lh_n t)"
proof -
  let ?x = "icache s ip" and ?bs = "take (min (length addr) filewrite_max) addr"
  have len: "length ?bs = min (length addr) filewrite_max" "length ?bs \<le> 13 * BSIZE" by (simp_all add: filewrite_max_def)
  have t: "touched off (length ?bs) \<le> 14"
  proof -
    have "off mod BSIZE + length ?bs + 511 < 512 * 15" using len(2) mod_less_divisor [of BSIZE off] by linarith
    then have "(off mod BSIZE + length ?bs + 511) div 512 < 15" by (simp add: less_mult_imp_div_less)
    then show ?thesis by (simp add: touched_def)
  qed
  have sp: "spent bm ?x {} \<le> 3" using card_insert_max [of "{IBLOCK (i_inum ?x)}" bm] by (simp add: spent_def)
  have "wanted ?x \<le> 1" by (simp add: wanted_def)
  then have room: "has_room bm sz off (length ?bs) (M, ?x, {})" using t sp assms(5) by (simp add: has_room_def)
  let ?big = "filewrite_max \<le> length addr \<and> (\<forall>a\<in>free_blocks M bm sz. M a = (\<lambda>_. 0)) \<and> (\<forall>k<filewrite_max. addr ! k \<noteq> fbyte M ?x (off + k))"
  have "wp (writei ip ?bs off) (\<lambda>r t. r = int (length ?bs) \<and> lh_n t \<le> 17 \<and> (?big \<longrightarrow> 13 \<le> lh_n t)) s"
  proof (rule wp_writei [OF assms(1) refl assms(3) _ room])
    show "off + length ?bs \<le> MAXFILE * BSIZE" using assms(4) len(1) by simp
    fix u :: "'z kfile_scheme" and M' L' x'
    assume at: "file_at u ip M' L' bm sz" and c: "changes bm sz M ?x M' x'" and cL: "card L' \<le> spent bm ?x {} + touched off (length ?bs)"
      and b: "\<forall>k<MAXFILE * BSIZE. fbyte M' x' k = written off ?bs (fbyte M ?x) k" and fr: "txf (s\<lparr>icache := (icache s)(ip := x')\<rparr>) u"
    have lg: "finite L'" "int (card L') = lh_n u" using logged_card [OF tx_logged [OF file_atD(1) [OF at]]] by simp_all
    have "13 \<le> card L'" if big: ?big
    proof -
      have lb: "length ?bs = filewrite_max" using big len(1) by simp
      let ?g = "\<lambda>j. blk M' x' (off div BSIZE + j)"
      have pos: "(off + j * BSIZE) div BSIZE = off div BSIZE + j" "off + j * BSIZE < MAXFILE * BSIZE" "j * BSIZE < filewrite_max" if "j < 13" for j
        using that assms(4) lb len(1) by (simp_all add: filewrite_max_def)
      have "?g j \<in> L' \<and> ?g j \<noteq> 0" if j: "j < 13" for j
      proof -
        have "fbyte M' x' (off + j * BSIZE) \<noteq> fbyte M ?x (off + j * BSIZE)"
          using b pos(2,3) [OF j] big lb by (simp add: written_def)
        from written_logged [OF file_atD(1) [OF assms(1)] file_atD(1) [OF at] _ c file_atD(4) [OF assms(1)] _ pos(2) [OF j] this] big
        show ?thesis using txf_eqs [OF fr] pos(1) [OF j] by simp
      qed
      note in_L = this
      have "off div BSIZE + 13 \<le> MAXFILE" using pos(1,2) [of 12] less_mult_imp_div_less [of "off + 12 * BSIZE" MAXFILE BSIZE] by simp
      from distinct_blocks [OF changesD(1) [OF c] this lg(1) in_L] show ?thesis .
    qed
    then show "int (length ?bs) = int (length ?bs) \<and> lh_n u \<le> 17 \<and> (?big \<longrightarrow> 13 \<le> lh_n u)" using lg(2) cL t sp by auto
  qed
  from wp_Ok [OF this] show ?thesis using len(1) by (auto simp: filewrite_piece_def kop_simps assms(2))
qed

section \<open>A concrete file\<close>

text \<open>An image of 64 blocks with 8 inodes, so that block 4 is the bitmap, and an empty file or directory of type \<open>ty\<close> with inode number 2 at entry 3 of the cache.\<close>

definition new_file :: "int \<Rightarrow> inode" where
  "new_file ty = \<lparr>i_dev = 1, i_inum = 2, i_ref = 1, i_flags = {I_BUSY, I_VALID}, i_type = ty, i_major = 0, i_minor = 0, i_nlink = 1, i_size = 0,
     i_addrs = (\<lambda>_. 0)\<rparr>"

definition small_img :: "int \<Rightarrow> nat \<Rightarrow> bytes" where
  "small_img ty = (\<lambda>_ _. 0)(1 := wr32 (wr32 (\<lambda>_. 0) 0 64) 8 8, 2 := encode_dinode (dinode_of (new_file ty)) 128 (\<lambda>_. 0), 4 := (\<lambda>_. 0)(0 := 31))"

definition editing :: "int \<Rightarrow> kuser" where
  "editing ty = idle_kernel\<lparr>disk := small_img ty, log_outstanding := 1, icache := (icache idle_kernel)(3 := new_file ty)\<rparr>"

lemma new_file_refs: "refs M (new_file ty) k = 0" "blk M (new_file ty) k = 0"
  by (simp_all add: refs_def blk_def new_file_def)

lemma small_layout: "layout (small_img ty) 4 64"
proof -
  have "usedb (small_img ty) 4 b" if "b \<le> 4" for b
  proof -
    have "b = 0 \<or> b = 1 \<or> b = 2 \<or> b = 3 \<or> b = 4" using that by linarith
    then show ?thesis by (elim disjE) (simp_all add: usedb_def small_img_def)
  qed
  then show ?thesis by (simp add: layout_def decode_sb_def) (simp add: small_img_def)
qed

lemma small_free: "{8..<64} \<subseteq> free_blocks (small_img ty) 4 64"
proof
  fix b :: nat assume "b \<in> {8..<64}"
  then have "b < 64" "b div 8 \<noteq> 0" by auto
  then show "b \<in> free_blocks (small_img ty) 4 64" by (simp add: free_blocks_def usedb_def small_img_def)
qed

lemma small_free_card: "56 \<le> card (free_blocks (small_img ty) 4 64)"
  using card_mono [OF finite_free_blocks small_free] by simp

lemma new_file_ok: "ty \<in> {1, 2} \<Longrightarrow> dinode_ok (dinode_of (new_file ty))"
  by (auto simp: new_file_def dinode_of_def dinode_ok_def short_range_def)

lemma editing_cfx: "cfx (editing ty) (small_img ty) {} {} {}"
  by (auto simp: cfx_def bcf_def uniq_sectors_def dirty_valid_def holds_data_def editing_def)

lemma editing_file:
  assumes ty: "ty \<in> {1, 2}"
  shows "file_at (editing ty) 3 (small_img ty) {} 4 64"
proof -
  have ic: "icache (editing ty) 3 = new_file ty" by (simp add: editing_def)
  have "logged (editing ty) {}" by (simp add: logged_def editing_def)
  moreover have "file_ok (small_img ty) 4 64 (new_file ty)"
    by (auto simp: file_ok_def blocks_def new_file_refs) (simp_all add: new_file_def)
  moreover have "IBLOCK (i_inum (new_file ty)) = 2" "i_inum (new_file ty) mod IPB * 64 = 128" by (simp_all add: new_file_def IBLOCK_def)
  moreover from this have "synced (small_img ty) (new_file ty)" unfolding synced_def by (simp add: small_img_def decode_encode [OF new_file_ok [OF ty]])
  moreover have "i_type (new_file ty) = ty" "i_size (new_file ty) = 0" by (simp_all add: new_file_def)
  moreover have "disksize (editing ty) = 1024" by (simp add: editing_def)
  ultimately show ?thesis unfolding file_at_def ic
    using editing_cfx small_layout new_file_ok [OF ty] ty by (auto simp: tx_def whole_def)
qed

lemma editing_room: "touched off n \<le> 20 \<Longrightarrow> has_room 4 64 off n (small_img ty, icache (editing ty) 3, {})"
proof -
  have "icache (editing ty) 3 = new_file ty" by (simp add: editing_def)
  moreover have "spent 4 (new_file ty) {} = 3" "wanted (new_file ty) = 1" by (simp_all add: spent_def wanted_def new_file_def IBLOCK_def)
  ultimately show "touched off n \<le> 20 \<Longrightarrow> has_room 4 64 off n (small_img ty, icache (editing ty) 3, {})"
    using small_free_card [of ty] by (simp add: has_room_def)
qed

text \<open>The witnesses write and read 513 bytes, which take two blocks.\<close>

theorem writei_readi_witness:
  "\<exists>t. kbind (writei 3 (replicate 513 7) 0) (\<lambda>r. kbind (readi 3 0 (length (replicate 513 (7 :: u8)))) (\<lambda>q. kret (r, q))) (editing 2) =
     Ok (513, (513, replicate 513 7)) t"
  using writei_readi [OF editing_file [of 2, simplified], of 0 "replicate 513 7"] editing_room [of 0 513 2]
  by (simp add: touched_def)

theorem writei_writes_witness:
  "\<exists>t M'. writei 3 (replicate 513 7) 0 (editing 2) = Ok 513 t \<and> i_size (icache t 3) = 513 \<and> fbyte M' (icache t 3) 512 = 7"
proof -
  have "i_size (icache (editing 2) 3) = 0" by (simp add: editing_def new_file_def)
  then obtain t M' where "writei 3 (replicate 513 7) 0 (editing 2) = Ok 513 t" "i_size (icache t 3) = 513"
    "\<forall>k<MAXFILE * BSIZE. fbyte M' (icache t 3) k = written 0 (replicate 513 7) (fbyte (small_img 2) (icache (editing 2) 3)) k"
    using writei_writes [OF editing_file [of 2, simplified], of 0 "replicate 513 7"] editing_room [of 0 513 2] by (auto simp: touched_def)
  moreover from this have "fbyte M' (icache t 3) 512 = 7" by (simp add: written_def)
  ultimately show ?thesis by blast
qed

theorem readi_reads_witness:
  "\<exists>t. readi 3 0 100 (editing 2) = Ok (0, []) t \<and> disk t = disk (editing 2)"
  using readi_reads [OF editing_cfx [of 2] _ _ file_atD(4,3,6,7,8) [OF editing_file [of 2, simplified]], of 0 100]
  by (auto simp: editing_def new_file_def)

theorem writei_rejects_witness: "writei 3 [1] 5 (editing 2) = Ok (-1) (editing 2) \<and> writei 3 (replicate 71681 1) 0 (editing 2) = Ok (-1) (editing 2)"
  using writei_rejects [of "editing 2" 3 5 "[1]"] writei_rejects [of "editing 2" 3 0 "replicate 71681 1"] by (simp add: editing_def new_file_def)

lemma small_free_zero: "\<forall>a\<in>free_blocks (small_img ty) 4 64. small_img ty a = (\<lambda>_. 0)"
proof
  fix a assume "a \<in> free_blocks (small_img ty) 4 64"
  then have "\<not> usedb (small_img ty) 4 a" by (simp add: free_blocks_def)
  then have "a \<notin> {1, 2, 4}" by (auto simp: usedb_def small_img_def)
  then show "small_img ty a = (\<lambda>_. 0)" by (simp add: small_img_def)
qed

theorem filewrite_chunk_bound_witness:
  "\<exists>t. filewrite_piece 0 3 (replicate 10000 7) (editing 2) = Ok 6656 t \<and> 13 \<le> lh_n t \<and> lh_n t \<le> 17"
proof -
  have m: "filewrite_max = 6656" by (simp add: filewrite_max_def)
  have "f_off (ftable (editing 2) 0) = 0" by (simp add: editing_def)
  moreover have "fbyte (small_img 2) (icache (editing 2) 3) k = 0" for k
    by (simp add: fbyte_def editing_def new_file_refs)
  ultimately show ?thesis
    using filewrite_chunk_bound [OF editing_file [of 2, simplified], of 0 0 "replicate 10000 7"] small_free_card [of 2] small_free_zero [of 2]
    by (auto simp: m)
qed

end
