(* ===== verification/Dir.thy ===== *)
theory Dir
  imports Files
begin

text \<open>
  Directories.  The content of a directory is an array of 16-byte entries; \<open>dir_map\<close> is the map from names to inode numbers it stands for.
  \<open>dirlookup\<close> looks a name up in that map and \<open>dirlink\<close> adds one.
\<close>

section \<open>The map of a directory\<close>

abbreviation entry :: "(nat \<Rightarrow> bytes) \<Rightarrow> inode \<Rightarrow> nat \<Rightarrow> u8 list" where
  "entry M x off \<equiv> slice (fbyte M x) off 16"

definition names :: "cstring \<Rightarrow> u8 list \<Rightarrow> bool" where
  "names name de \<longleftrightarrow> de_inum de \<noteq> 0 \<and> namecmp name (de_name de) = 0"

definition offsets :: "nat \<Rightarrow> nat \<Rightarrow> nat list" where
  "offsets i n = map (\<lambda>j. 16 * j) [i..<n]"

definition dir_find :: "(nat \<Rightarrow> bytes) \<Rightarrow> inode \<Rightarrow> cstring \<Rightarrow> nat option" where
  "dir_find M x name = find (\<lambda>off. names name (entry M x off)) (offsets 0 (i_size x div 16))"

definition dir_map :: "(nat \<Rightarrow> bytes) \<Rightarrow> inode \<Rightarrow> cstring \<Rightarrow> nat option" where
  "dir_map M x name = map_option (\<lambda>off. de_inum (entry M x off)) (dir_find M x name)"

lemma offsets_Cons: "i < n \<Longrightarrow> offsets i n = 16 * i # offsets (i + 1) n"
  by (simp add: offsets_def upt_conv_Cons)

lemma offsets_Nil [simp]: "n \<le> i \<Longrightarrow> offsets i n = []"
  by (simp add: offsets_def)

lemma offsets_append: "i \<le> n \<Longrightarrow> offsets 0 n = offsets 0 i @ offsets i n"
  using upt_add_eq_append [of 0 i "n - i"] by (simp add: offsets_def flip: map_append)

lemma in_offsets: "off \<in> set (offsets i n) \<longleftrightarrow> (\<exists>j. i \<le> j \<and> j < n \<and> off = 16 * j)"
  by (auto simp: offsets_def)

section \<open>The entry made by dirlink\<close>

lemma namecmp_cong:
  assumes "\<And>k. k < DIRSIZ \<Longrightarrow> cstr a k = cstr b k"
  shows "namecmp name a = 0 \<longleftrightarrow> namecmp name b = 0"
  using assms unfolding namecmp_def strncmp_def strncmp_at_zero by simp

lemma namecmp_refl: "namecmp name name = 0"
  unfolding namecmp_def strncmp_def strncmp_at_zero by simp

lemma de_name_make: "namecmp a (de_name (make_dirent name inum)) = 0 \<longleftrightarrow> namecmp a name = 0"
  by (rule namecmp_cong) (auto simp: de_name_def make_dirent_def cstr_def nth_append)

lemma de_inum_make: "de_inum (make_dirent name inum) = inum mod 65536"
proof -
  have "inum mod 256 + 256 * (inum div 256 mod 256) = inum mod 65536" using mod_mult2_eq [of inum 256 256] by simp
  then show ?thesis by (simp add: de_inum_def make_dirent_def rd16_def cstr_def unat_of_nat)
qed

lemma length_make_dirent [simp]: "length (make_dirent name inum) = 16"
  by (simp add: make_dirent_def)

section \<open>Looking up\<close>

text \<open>The file can be read.\<close>

definition readable :: "'z kfs_scheme \<Rightarrow> nat \<Rightarrow> (nat \<Rightarrow> bytes) \<Rightarrow> nat set \<Rightarrow> nat \<Rightarrow> nat \<Rightarrow> bool" where
  "readable s ip M L bm sz \<longleftrightarrow> cfx s M L L {} \<and> finite L \<and> card L < NBUF \<and> file_ok M bm sz (icache s ip) \<and> sz \<le> disksize s \<and>
     i_size (icache s ip) \<le> MAXFILE * BSIZE \<and> whole M (icache s ip) \<and> i_type (icache s ip) = T_DIR"

lemma stp_caches:
  fixes s t :: "'z kfs_scheme"
  shows "stp s t [] \<Longrightarrow> icache t = icache s \<and> disk t = disk s \<and> held t = held s"
  using stp_icache_eq [of s t "[]"] stp_eqs(1) [of s t "[]"] by (simp add: stp_def)

lemma stp_readable:
  fixes s t :: "'z kfs_scheme"
  assumes "readable s ip M L bm sz" "stp s t []" "cfx t M L L {}"
  shows "readable t ip M L bm sz"
  using assms stp_icache_eq [OF assms(2)] stp_eqs(3) [OF assms(2)] by (simp add: readable_def)

lemma wp_read_entry:
  fixes s :: "'z kcons_scheme"
  assumes r: "readable s dp M L bm sz" and size: "i_size (icache s dp) = 16 * n" and i: "i < n"
    and Q: "\<And>t. readable t dp M L bm sz \<Longrightarrow> stp s t [] \<Longrightarrow> Q (16, entry M (icache s dp) (16 * i)) t"
  shows "wp (readi dp (16 * i) 16) Q s"
proof -
  note d = r [unfolded readable_def]
  have le: "16 * i + 16 \<le> i_size (icache s dp)" using size i by simp
  then have m: "min 16 (i_size (icache s dp) - 16 * i) = 16" by simp
  show ?thesis
  proof (rule wp_readi [where M = M and L = L and bm = bm and sz = sz and x = "icache s dp"])
    show "16 * i + 16 < W32" using le d by simp
    fix t assume "cfx t M L L {}" "stp s t []"
    then show "Q (int (min 16 (i_size (icache s dp) - 16 * i)), slice (fbyte M (icache s dp)) (16 * i) (min 16 (i_size (icache s dp) - 16 * i))) t"
      unfolding m using stp_readable [OF r] by (simp add: Q)
  qed (use d le in simp_all)
qed

lemma wp_kret_fun: "wp (kret a) Q = Q a"
  by (rule ext) (rule wp_kret)

lemma wp_kbind_fun: "wp (kbind f g) Q = wp f (\<lambda>a. wp (g a) Q)"
  by (rule ext) (rule wp_kbind)

lemma wp_dirlookup_loop:
  fixes s :: "'z kcons_scheme"
  assumes "readable s dp M L bm sz" "icache s dp = x" "i_size x = 16 * n"
    and "\<And>t. readable t dp M L bm sz \<Longrightarrow> stp s t [] \<Longrightarrow>
      (case find (\<lambda>off. names name (entry M x off)) (offsets i n) of None \<Rightarrow> Q None t
       | Some off \<Rightarrow> wp (iget 1 (de_inum (entry M x off))) (\<lambda>ip. Q (Some (ip, off))) t)"
  shows "wp (dirlookup_loop dp name (16 * n) (16 * i)) Q s"
  using assms
proof (induction "n - i" arbitrary: i s)
  case 0
  then have "\<not> 16 * i < 16 * n" "offsets i n = []" by simp_all
  then show ?case using 0(5) [OF 0(2)] by (subst dirlookup_loop.simps) (simp add: wp_kret)
next
  case (Suc d)
  note r = Suc.prems(1) and x = Suc.prems(2) and size = Suc.prems(3) and Q = Suc.prems(4)
  have i: "i < n" using Suc.hyps(2) by simp
  let ?e = "entry M x (16 * i)"
  have step: "16 * i + 16 = 16 * (i + 1)" by simp
  show ?case
    unfolding dirlookup_loop.simps [of dp name "16 * n" "16 * i"] wp_kbind
  proof (simp only: i nat_mult_less_cancel_disj zero_less_numeral simp_thms if_True wp_kbind, rule wp_read_entry [OF r _ i])
    show "i_size (icache s dp) = 16 * n" using x size by simp
    fix t assume t: "readable t dp M L bm sz" "stp s t []"
    have ip: "icache t dp = x" using stp_icache_eq [OF t(2)] x by simp
    have dev: "i_dev x = 1" using t(1) file_okD(1) ip unfolding readable_def by blast
    have rest: "wp (dirlookup_loop dp name (16 * n) (16 * (i + 1))) Q t" if "\<not> names name ?e"
    proof (rule Suc.hyps(1) [OF _ t(1) ip size])
      show "d = n - (i + 1)" using Suc.hyps(2) by simp
      fix u assume u: "readable u dp M L bm sz" "stp t u []"
      have "stp s u []" using t(2) u(2) by (auto intro: stp_trans)
      from Q [OF u(1) this] that show "case find (\<lambda>off. names name (entry M x off)) (offsets (i + 1) n) of None \<Rightarrow> Q None u
        | Some off \<Rightarrow> wp (iget 1 (de_inum (entry M x off))) (\<lambda>ip. Q (Some (ip, off))) u" by (simp add: offsets_Cons [OF i])
    qed
    have found: "wp (iget 1 (de_inum ?e)) (\<lambda>ip. Q (Some (ip, 16 * i))) t" if "names name ?e"
      using Q [OF t] that by (simp add: offsets_Cons [OF i])
    show "wp (case (16, entry M (icache s dp) (16 * i)) of (r, de) \<Rightarrow>
        if r \<noteq> 16 then kpanic ''dirlink read''
        else if de_inum de = 0 then dirlookup_loop dp name (16 * n) (16 * i + 16)
        else if namecmp name (de_name de) = 0 then
          kbind (kget (\<lambda>s. i_dev (icache s dp))) (\<lambda>dev. kbind (iget dev (de_inum de)) (\<lambda>ip. kret (Some (ip, 16 * i))))
        else dirlookup_loop dp name (16 * n) (16 * i + 16)) Q t"
      unfolding step using rest found by (simp add: x names_def wp_simps wp_kret_fun ip dev)
  qed
qed

text \<open>The entry of the inode cache \<open>iget\<close> returns: the one that holds the inode already, or a free one.\<close>

definition iget_slot :: "'z kfs_scheme \<Rightarrow> nat \<Rightarrow> nat option" where
  "iget_slot s inum =
     (case find (\<lambda>i. i_ref (icache s i) > 0 \<and> i_dev (icache s i) = 1 \<and> i_inum (icache s i) = inum) [0..<NINODE] of
        Some ip \<Rightarrow> Some ip | None \<Rightarrow> find (\<lambda>i. i_ref (icache s i) = 0) [0..<NINODE])"

definition referenced :: "nat \<Rightarrow> inode \<Rightarrow> inode" where
  "referenced inum x =
     (if i_ref x > 0 then x\<lparr>i_ref := i_ref x + 1\<rparr> else x\<lparr>i_dev := 1, i_inum := inum, i_ref := 1, i_flags := {}\<rparr>)"

lemma wp_iget:
  fixes s :: "'z kfs_scheme"
  assumes lk: "LIcache \<notin> set (held s)" and sl: "iget_slot s inum = Some ip"
    and Q: "i_inum (referenced inum (icache s ip)) = inum \<Longrightarrow> ip < NINODE \<Longrightarrow>
      Q ip (s\<lparr>icache := (icache s)(ip := referenced inum (icache s ip))\<rparr>)"
  shows "wp (iget 1 inum) Q s"
proof -
  let ?f = "find (\<lambda>i. i_ref (icache s i) > 0 \<and> i_dev (icache s i) = 1 \<and> i_inum (icache s i) = inum) [0..<NINODE]"
  show ?thesis
  proof (cases ?f)
    case (Some j)
    then have "j = ip" using sl by (simp add: iget_slot_def)
    with Some have "i_ref (icache s ip) > 0" "i_inum (icache s ip) = inum" "ip < NINODE" by (auto simp: find_Some_iff)
    then show ?thesis using Some Q lk \<open>j = ip\<close> by (simp add: iget_def wp_simps kacquire_def krelease_def upd_inode_def referenced_def)
  next
    case None
    then have f: "find (\<lambda>i. i_ref (icache s i) = 0) [0..<NINODE] = Some ip" using sl by (simp add: iget_slot_def)
    then have "i_ref (icache s ip) = 0" "ip < NINODE" by (auto simp: find_Some_iff)
    then show ?thesis using None f Q lk by (simp add: iget_def wp_simps kacquire_def krelease_def upd_inode_def referenced_def)
  qed
qed

text \<open>
  C16.  \<open>dirlookup\<close> implements the lookup in the map of the directory: it returns the null pointer when the name is not in it, and
  otherwise a referenced inode with the number the name maps to, provided the inode cache has room.  Only the caches change.
\<close>

theorem dirlookup_finds:
  fixes s :: "'z kcons_scheme"
  assumes r: "readable s dp M L bm sz" and n: "16 dvd i_size (icache s dp)" and lk: "LIcache \<notin> set (held s)"
  shows "(dir_map M (icache s dp) name = None \<longrightarrow> (\<exists>t. dirlookup dp name s = Ok None t \<and> icache t = icache s \<and> disk t = disk s)) \<and>
    (\<forall>inum ip. dir_map M (icache s dp) name = Some inum \<and> iget_slot s inum = Some ip \<longrightarrow>
      (\<exists>off t. dirlookup dp name s = Ok (Some (ip, off)) t \<and> i_inum (icache t ip) = inum \<and> i_ref (icache t ip) > 0 \<and>
        (\<forall>j. j \<noteq> ip \<longrightarrow> icache t j = icache s j) \<and> disk t = disk s))"
proof -
  let ?x = "icache s dp"
  from n obtain k where k: "i_size ?x = 16 * k" by blast
  let ?o = "find (\<lambda>off. names name (entry M ?x off)) (offsets 0 k)"
  have df: "dir_find M ?x name = ?o" using k by (simp add: dir_find_def)
  have ty: "i_type ?x = T_DIR" using r by (simp add: readable_def)
  have run: "wp (dirlookup dp name) Q s"
    if "\<And>t. stp s t [] \<Longrightarrow> (case ?o of None \<Rightarrow> Q None t | Some off \<Rightarrow> wp (iget 1 (de_inum (entry M ?x off))) (\<lambda>ip. Q (Some (ip, off))) t)" for Q
    unfolding dirlookup_def wp_kthen wp_kassert wp_kbind wp_kget k
    using ty wp_dirlookup_loop [OF r refl k, where name = name and i = 0 and Q = Q] that by simp
  have none: "\<exists>t. dirlookup dp name s = Ok None t \<and> icache t = icache s \<and> disk t = disk s" if "dir_map M ?x name = None"
  proof -
    have "?o = None" using that df by (simp add: dir_map_def)
    then have "wp (dirlookup dp name) (\<lambda>a t. a = None \<and> icache t = icache s \<and> disk t = disk s) s"
      by (intro run) (simp add: stp_caches)
    from wp_Ok [OF this] show ?thesis by blast
  qed
  have some: "\<exists>off t. dirlookup dp name s = Ok (Some (ip, off)) t \<and> i_inum (icache t ip) = inum \<and> i_ref (icache t ip) > 0 \<and>
      (\<forall>j. j \<noteq> ip \<longrightarrow> icache t j = icache s j) \<and> disk t = disk s" if m: "dir_map M ?x name = Some inum" and sl: "iget_slot s inum = Some ip" for inum ip
  proof -
    from m df obtain off where off: "?o = Some off" "inum = de_inum (entry M ?x off)" by (auto simp: dir_map_def)
    let ?Q = "\<lambda>a t. a = Some (ip, off) \<and> i_inum (icache t ip) = inum \<and> i_ref (icache t ip) > 0 \<and>
      (\<forall>j. j \<noteq> ip \<longrightarrow> icache t j = icache s j) \<and> disk t = disk s"
    have "wp (iget 1 inum) (\<lambda>ip. ?Q (Some (ip, off))) t" if t: "stp s t []" for t
    proof (rule wp_iget)
      have ic: "icache t = icache s" by (rule stp_icache_eq [OF t])
      show "LIcache \<notin> set (held t)" using lk stp_eqs(1) [OF t] by simp
      show "iget_slot t inum = Some ip" using sl unfolding iget_slot_def ic .
      assume "i_inum (referenced inum (icache t ip)) = inum"
      then show "?Q (Some (ip, off)) (t\<lparr>icache := (icache t)(ip := referenced inum (icache t ip))\<rparr>)"
        using ic t by (auto simp: referenced_def stp_def)
    qed
    then have "wp (dirlookup dp name) ?Q s" using off by (intro run) simp
    from wp_Ok [OF this] show ?thesis by blast
  qed
  show ?thesis using none some by blast
qed

section \<open>Linking\<close>

text \<open>The place for a new entry: the first free one, or the end.\<close>

definition dir_slot :: "(nat \<Rightarrow> bytes) \<Rightarrow> inode \<Rightarrow> nat" where
  "dir_slot M x = (case find (\<lambda>off. de_inum (entry M x off) = 0) (offsets 0 (i_size x div 16)) of Some off \<Rightarrow> off | None \<Rightarrow> i_size x)"

lemma wp_dirlink_slot:
  fixes s :: "'z kcons_scheme"
  assumes "readable s dp M L bm sz" "icache s dp = x" "i_size x = 16 * n"
    and "\<And>t. readable t dp M L bm sz \<Longrightarrow> stp s t [] \<Longrightarrow>
      Q (case find (\<lambda>off. de_inum (entry M x off) = 0) (offsets i n) of Some off \<Rightarrow> off | None \<Rightarrow> 16 * n) t" and "i \<le> n"
  shows "wp (dirlink_slot dp (16 * n) (16 * i)) Q s"
  using assms
proof (induction "n - i" arbitrary: i s)
  case 0
  then have "i = n" by simp
  then show ?case using 0(5) [OF 0(2)] by (subst dirlink_slot.simps) (simp add: wp_kret)
next
  case (Suc d)
  note r = Suc.prems(1) and x = Suc.prems(2) and size = Suc.prems(3) and Q = Suc.prems(4)
  have i: "i < n" using Suc.hyps(2) by simp
  have step: "16 * i + 16 = 16 * (i + 1)" by simp
  show ?case
    unfolding dirlink_slot.simps [of dp "16 * n" "16 * i"] wp_kbind
  proof (simp only: i nat_mult_less_cancel_disj zero_less_numeral simp_thms if_True wp_kbind, rule wp_read_entry [OF r _ i])
    show "i_size (icache s dp) = 16 * n" using x size by simp
    fix t assume t: "readable t dp M L bm sz" "stp s t []"
    have ip: "icache t dp = x" using stp_caches [OF t(2)] x by simp
    have rest: "wp (dirlink_slot dp (16 * n) (16 * (i + 1))) Q t" if "de_inum (entry M x (16 * i)) \<noteq> 0"
    proof (rule Suc.hyps(1) [OF _ t(1) ip size])
      show "d = n - (i + 1)" "i + 1 \<le> n" using Suc.hyps(2) i by simp_all
      fix u assume u: "readable u dp M L bm sz" "stp t u []"
      have "stp s u []" using t(2) u(2) by (auto intro: stp_trans)
      from Q [OF u(1) this] that show "Q (case find (\<lambda>off. de_inum (entry M x off) = 0) (offsets (i + 1) n) of Some off \<Rightarrow> off | None \<Rightarrow> 16 * n) u"
        by (simp add: offsets_Cons [OF i])
    qed
    have found: "Q (16 * i) t" if "de_inum (entry M x (16 * i)) = 0" using Q [OF t] that by (simp add: offsets_Cons [OF i])
    show "wp (case (16, entry M (icache s dp) (16 * i)) of (r, de) \<Rightarrow>
        if r \<noteq> 16 then kpanic ''dirlink read'' else if de_inum de = 0 then kret (16 * i) else dirlink_slot dp (16 * n) (16 * i + 16)) Q t"
      unfolding step using rest found by (simp add: x wp_simps)
  qed
qed

text \<open>A write into the free entry changes the map at one name.\<close>

lemma find_same: "(\<And>x. x \<in> set xs \<Longrightarrow> P x = R x) \<Longrightarrow> find P xs = find R xs"
  by (induction xs) auto

lemma find_skip: "\<not> P y \<Longrightarrow> find P (xs @ y # ys) = find P (xs @ ys)"
  by (induction xs) auto

lemma find_hit: "(\<And>x. x \<in> set xs \<Longrightarrow> \<not> P x) \<Longrightarrow> P y \<Longrightarrow> find P (xs @ y # ys) = Some y"
  by (induction xs) auto

lemma namecmp_eq:
  assumes "namecmp a b = 0"
  shows "namecmp a c = 0 \<longleftrightarrow> namecmp b c = 0"
proof -
  have "\<forall>k<DIRSIZ. (\<forall>j<k. cstr a j \<noteq> 0) \<longrightarrow> cstr a k = cstr b k"
    using assms unfolding namecmp_def strncmp_def strncmp_at_zero by simp
  then have e: "cstr a k = cstr b k" if "k < DIRSIZ" "\<forall>j<k. cstr a j \<noteq> 0" for k using that by blast
  have "(\<forall>j<k. cstr a j \<noteq> 0) \<longleftrightarrow> (\<forall>j<k. cstr b j \<noteq> 0)" if "k \<le> DIRSIZ" for k
    using that
  proof (induction k)
    case (Suc k)
    then have ih: "(\<forall>j<k. cstr a j \<noteq> 0) \<longleftrightarrow> (\<forall>j<k. cstr b j \<noteq> 0)" by simp
    show ?case using ih e [of k] Suc.prems by (auto simp: All_less_Suc)
  qed simp
  then show ?thesis unfolding namecmp_def strncmp_def strncmp_at_zero using e by (simp add: less_imp_le)
qed

lemma dir_slot_cases:
  assumes size: "i_size x = 16 * n"
  obtains i where "i \<le> n" "dir_slot M x = 16 * i" "i < n \<Longrightarrow> de_inum (entry M x (16 * i)) = 0"
proof (cases "find (\<lambda>off. de_inum (entry M x off) = 0) (offsets 0 n)")
  case None
  then show ?thesis using size by (intro that [of n]) (simp_all add: dir_slot_def)
next
  case (Some off)
  from find_SomeD [OF Some] obtain i where "off = 16 * i" "i < n" "de_inum (entry M x off) = 0" by (auto simp: in_offsets)
  then show ?thesis using Some size by (intro that [of i]) (simp_all add: dir_slot_def)
qed

lemma dir_map_link:
  assumes size: "i_size x = 16 * n" and old: "dir_map M x name = None" and inum: "inum mod 65536 \<noteq> 0"
    and max: "i_size x + 16 \<le> MAXFILE * BSIZE"
    and size': "i_size x' = max (i_size x) (dir_slot M x + 16)"
    and b: "\<And>k. k < MAXFILE * BSIZE \<Longrightarrow> fbyte M' x' k = written (dir_slot M x) (make_dirent name inum) (fbyte M x) k"
  shows "dir_map M' x' a = (if namecmp a name = 0 then Some (inum mod 65536) else dir_map M x a)"
proof -
  obtain i where i: "i \<le> n" "dir_slot M x = 16 * i" "i < n \<Longrightarrow> de_inum (entry M x (16 * i)) = 0"
    using dir_slot_cases [OF size] by metis
  have "entry M' x' (16 * i) = make_dirent name inum"
    by (rule nth_equalityI) (use b i max size in \<open>auto simp: written_def\<close>)
  then have new: "names a (entry M' x' (16 * i)) \<longleftrightarrow> namecmp a name = 0" "de_inum (entry M' x' (16 * i)) = inum mod 65536"
    using inum by (simp_all add: names_def de_name_make de_inum_make)
  have other: "entry M' x' (16 * j) = entry M x (16 * j)" if "j \<noteq> i" "j < n" for j
  proof (rule nth_equalityI)
    fix k assume "k < length (entry M' x' (16 * j))"
    then have "k < 16" by simp
    moreover have "16 * j + k < MAXFILE * BSIZE" using that(2) max size \<open>k < 16\<close> by linarith
    moreover have "\<not> (16 * i \<le> 16 * j + k \<and> 16 * j + k < 16 * i + 16)" using that(1) \<open>k < 16\<close> by linarith
    ultimately show "entry M' x' (16 * j) ! k = entry M x (16 * j) ! k" using b i(2) by (auto simp: written_def)
  qed simp
  let ?os = "offsets 0 i @ offsets (i + 1) n"
  have eq: "entry M' x' off = entry M x off" if "off \<in> set ?os" for off
    using that other i(1) by (auto simp: in_offsets)
  have fM: "find (\<lambda>off. names c (entry M x off)) (offsets 0 n) = find (\<lambda>off. names c (entry M x off)) ?os" for c
  proof (cases "i < n")
    case True
    then have "\<not> names c (entry M x (16 * i))" using i(3) by (simp add: names_def)
    then show ?thesis using offsets_append [OF i(1)] offsets_Cons [OF True] by (simp add: find_skip)
  qed (use offsets_append [OF i(1)] in simp)
  have s': "i_size x' div 16 = max n (i + 1)" using size size' i(2) by (simp add: max_def)
  have fM': "dir_find M' x' a = find (\<lambda>off. names a (entry M' x' off)) (offsets 0 i @ 16 * i # offsets (i + 1) n)"
    unfolding dir_find_def s' using offsets_append [of i "max n (i + 1)"] offsets_Cons [of i "max n (i + 1)"] i(1) by (auto simp: max_def)
  show ?thesis
  proof (cases "namecmp a name = 0")
    case True
    have "find (\<lambda>off. names name (entry M x off)) ?os = None" using old size fM by (simp add: dir_map_def dir_find_def)
    then have "\<not> names a (entry M x off)" if "off \<in> set ?os" for off
      using that namecmp_eq [OF True] by (auto simp: find_None_iff names_def)
    then have "dir_find M' x' a = Some (16 * i)" unfolding fM' using True new(1) eq by (intro find_hit) auto
    then show ?thesis using True new(2) by (simp add: dir_map_def)
  next
    case False
    then have "dir_find M' x' a = find (\<lambda>off. names a (entry M' x' off)) ?os" unfolding fM' using new(1) by (intro find_skip) simp
    also have "\<dots> = find (\<lambda>off. names a (entry M x off)) ?os" using eq by (intro find_same) simp
    finally have f: "dir_find M' x' a = find (\<lambda>off. names a (entry M x off)) ?os" .
    moreover have "dir_find M x a = find (\<lambda>off. names a (entry M x off)) ?os" using size fM by (simp add: dir_find_def)
    moreover have "entry M' x' off = entry M x off" if "find (\<lambda>off. names a (entry M x off)) ?os = Some off" for off
      using that eq find_SomeD [OF that] by simp
    ultimately show ?thesis using False
      by (cases "find (\<lambda>off. names a (entry M x off)) ?os") (simp_all add: dir_map_def)
  qed
qed

lemma file_at_readable:
  assumes "file_at s ip M L bm sz" "card L < NBUF" "i_type (icache s ip) = T_DIR"
  shows "readable s ip M L bm sz"
  using file_atD [OF assms(1)] logged_card [OF tx_logged [OF file_atD(1) [OF assms(1)]]] assms(2,3) by (simp add: readable_def tx_def)

lemma stp_file_at:
  fixes s t :: "'z kfs_scheme"
  assumes "file_at s ip M L bm sz" "stp s t []" "cfx t M L L {}"
  shows "file_at t ip M L bm sz"
  using assms stp_caches [OF assms(2)] stp_eqs(3) [OF assms(2)] stp_logged [OF assms(2)] by (simp add: file_at_def tx_def)

text \<open>
  C8.  \<open>dirlink\<close> of a new name returns 0 and adds the name to the map of the directory, truncated to 14 characters and with the inode
  number cut to 16 bits; every other name keeps its meaning.  A later lookup of the name therefore finds the inode.
\<close>

theorem dirlink_adds:
  fixes s :: "'z kcons_scheme"
  assumes at: "file_at s dp M L bm sz" and ty: "i_type (icache s dp) = T_DIR" and n: "16 dvd i_size (icache s dp)"
    and max: "i_size (icache s dp) + 16 \<le> MAXFILE * BSIZE" and new: "dir_map M (icache s dp) name = None" and inum: "inum mod 65536 \<noteq> 0"
    and room: "spent bm (icache s dp) L \<le> 25" "wanted (icache s dp) + 1 \<le> card (free_blocks M bm sz)"
  shows "\<exists>t M' L'. dirlink dp name inum s = Ok 0 t \<and> file_at t dp M' L' bm sz \<and>
    (\<forall>a. dir_map M' (icache t dp) a = (if namecmp a name = 0 then Some (inum mod 65536) else dir_map M (icache s dp) a))"
proof -
  let ?x = "icache s dp"
  from n obtain k where k: "i_size ?x = 16 * k" by blast
  have none: "find (\<lambda>off. names name (entry M ?x off)) (offsets 0 k) = None" using new k by (simp add: dir_map_def dir_find_def)
  have fin: "finite L" using logged_card [OF tx_logged [OF file_atD(1) [OF at]]] by simp
  have "card L < NBUF" using spent_card [OF fin, of bm ?x] room(1) by simp
  then have r: "readable s dp M L bm sz" using at ty by (intro file_at_readable)
  obtain i where i: "i \<le> k" "dir_slot M ?x = 16 * i" using dir_slot_cases [OF k] by metis
  have slot: "(case find (\<lambda>off. de_inum (entry M ?x off) = 0) (offsets 0 k) of Some off \<Rightarrow> off | None \<Rightarrow> 16 * k) = 16 * i"
    using i(2) unfolding dir_slot_def k by simp
  have t1: "touched (16 * i) 16 = 1"
  proof -
    have "16 * i mod 512 = 16 * (i mod 32)" using mult_mod_right [of 16 i 32] by simp
    moreover have "i mod 32 < 32" by simp
    ultimately have "16 * i mod 512 + 16 + 511 < 512 * 2" "512 \<le> 16 * i mod 512 + 16 + 511" by linarith+
    then have "(16 * i mod 512 + 16 + 511) div 512 = 1" by (intro div_nat_eqI) simp_all
    then show ?thesis by (simp add: touched_def)
  qed
  define R :: "int \<Rightarrow> 'z kcons_scheme \<Rightarrow> bool" where "R = (\<lambda>r t. r = 0 \<and> (\<exists>M' L'. file_at t dp M' L' bm sz \<and>
    (\<forall>a. dir_map M' (icache t dp) a = (if namecmp a name = 0 then Some (inum mod 65536) else dir_map M ?x a))))"
  have "wp (writei dp (make_dirent name inum) (16 * i)) (\<lambda>w. wp (if w \<noteq> 16 then kpanic ''dirlink'' else kret 0) R) t"
    if t: "stp s t []" "readable t dp M L bm sz" for t :: "'z kcons_scheme"
  proof -
    have ic: "icache t dp = ?x" using stp_caches [OF t(1)] by simp
    have at': "file_at t dp M L bm sz" by (rule stp_file_at [OF at t(1)]) (use t(2) in \<open>simp add: readable_def\<close>)
    show ?thesis
    proof (rule wp_writei [OF at' ic [symmetric]])
      show "16 * i \<le> i_size ?x" "16 * i + length (make_dirent name inum) \<le> MAXFILE * BSIZE" using i k max by simp_all
      show "has_room bm sz (16 * i) (length (make_dirent name inum)) (M, ?x, L)" using room t1 by (simp add: has_room_def)
      fix u :: "'z kcons_scheme" and M' L' x'
      assume u: "x' = icache u dp" "file_at u dp M' L' bm sz" "i_size x' = max (i_size ?x) (16 * i + length (make_dirent name inum))"
        "\<forall>k<MAXFILE * BSIZE. fbyte M' x' k = written (16 * i) (make_dirent name inum) (fbyte M ?x) k"
      have "dir_map M' x' a = (if namecmp a name = 0 then Some (inum mod 65536) else dir_map M ?x a)" for a
        using u(3,4) i(2) by (intro dir_map_link [OF k new inum max]) simp_all
      then show "wp (if int (length (make_dirent name inum)) \<noteq> 16 then kpanic ''dirlink'' else kret 0) R u"
        using u(1,2) by (auto simp: wp_kret R_def)
    qed
  qed
  moreover have "stp s u []" if "stp s t []" "stp t u []" for t u :: "'z kcons_scheme" using that by (auto intro: stp_trans)
  ultimately have slotted: "wp (dirlink_slot dp (16 * k) (16 * 0)) (\<lambda>off. wp (writei dp (make_dirent name inum) off)
      (\<lambda>w. wp (if w \<noteq> 16 then kpanic ''dirlink'' else kret 0) R)) t"
    if t: "stp s t []" "readable t dp M L bm sz" for t :: "'z kcons_scheme"
    using t stp_caches [OF t(1)] k by (intro wp_dirlink_slot [OF t(2), where x = ?x]) (simp_all add: slot)
  let ?c = "\<lambda>r. case r of Some (ip, _) \<Rightarrow> kthen (iput ip) (kret (-1))
    | None \<Rightarrow> kbind (kget (\<lambda>s. i_size (icache s dp))) (\<lambda>sz. kbind (dirlink_slot dp sz 0) (\<lambda>off.
        kbind (writei dp (make_dirent name inum) off) (\<lambda>w. if w \<noteq> 16 then kpanic ''dirlink'' else kret 0)))"
  have "wp (dirlookup_loop dp name (16 * k) (16 * 0)) (\<lambda>r. wp (?c r) R) s"
  proof (rule wp_dirlookup_loop [OF r refl k], unfold none option.case)
    fix t :: "'z kcons_scheme" assume t: "readable t dp M L bm sz" "stp s t []"
    show "wp (kbind (kget (\<lambda>s. i_size (icache s dp))) (\<lambda>sz. kbind (dirlink_slot dp sz 0) (\<lambda>off.
        kbind (writei dp (make_dirent name inum) off) (\<lambda>w. if w \<noteq> 16 then kpanic ''dirlink'' else kret 0)))) R t"
      using slotted [OF t(2,1)] stp_caches [OF t(2)] k by (simp add: wp_kbind_fun wp_kget)
  qed
  then have "wp (dirlink dp name inum) R s"
    unfolding dirlink_def wp_kbind dirlookup_def wp_kthen wp_kassert wp_kget k using ty by simp
  from wp_Ok [OF this] show ?thesis unfolding R_def by blast
qed

section \<open>An empty directory\<close>

lemma empty_dir:
  "i_size (icache (editing 1) 3) = 0" "i_type (icache (editing 1) 3) = T_DIR" "dir_map (small_img 1) (icache (editing 1) 3) name = None"
  by (simp_all add: editing_def new_file_def dir_map_def dir_find_def)

theorem dirlookup_finds_witness: "\<exists>t. dirlookup 3 [97, 98] (editing 1) = Ok None t \<and> icache t = icache (editing 1)"
proof -
  have "readable (editing 1) 3 (small_img 1) {} 4 64" by (rule file_at_readable [OF editing_file]) (simp_all add: empty_dir)
  moreover have "LIcache \<notin> set (held (editing 1))" by (simp add: editing_def)
  ultimately show ?thesis using dirlookup_finds [of "editing 1" 3 "small_img 1" "{}" 4 64 "[97, 98]"] empty_dir by auto
qed

theorem dirlink_adds_witness:
  "\<exists>t M'. dirlink 3 [97, 98] 7 (editing 1) = Ok 0 t \<and> dir_map M' (icache t 3) [97, 98] = Some 7 \<and> dir_map M' (icache t 3) [97] = None"
proof -
  have "spent 4 (icache (editing 1) 3) {} = 3" "wanted (icache (editing 1) 3) = 1"
    by (simp_all add: editing_def spent_def wanted_def new_file_def IBLOCK_def)
  moreover have "namecmp [97, 98] [97, 98] = 0" "namecmp [97] [97, 98] \<noteq> 0"
    by (rule namecmp_refl, simp add: namecmp_def strncmp_def strncmp_at_zero cstr_def exI [of _ 1])
  ultimately obtain t M' where "dirlink 3 [97, 98] 7 (editing 1) = Ok 0 t"
    "\<forall>a. dir_map M' (icache t 3) a = (if namecmp a [97, 98] = 0 then Some (7 mod 65536) else dir_map (small_img 1) (icache (editing 1) 3) a)"
    using dirlink_adds [OF editing_file [of 1, simplified] empty_dir(2), of "[97, 98]" 7] empty_dir small_free_card [of 1] by auto
  with \<open>namecmp [97, 98] [97, 98] = 0\<close> \<open>namecmp [97] [97, 98] \<noteq> 0\<close> show ?thesis by (intro exI [of _ t] exI [of _ M']) (simp add: empty_dir)
qed

end
