(* ===== verification/Refs.thy ===== *)
theory Refs
  imports Proc
begin

text \<open>
  The reference counts of open files and cached inodes: which operations leave them alone, and by how much \<open>iput\<close> and \<open>fileclose\<close>
  lower them.
\<close>

section \<open>Operations that keep a relation between the states\<close>

definition keeps :: "('s \<Rightarrow> 's \<Rightarrow> bool) \<Rightarrow> ('a, 's) kop \<Rightarrow> bool" where
  "keeps R f \<longleftrightarrow> (\<forall>s a t. f s = Ok a t \<longrightarrow> R s t)"

lemma keepsD: "keeps R f \<Longrightarrow> f s = Ok a t \<Longrightarrow> R s t"
  by (simp add: keeps_def)

text \<open>Any relation that is reflexive and transitive is kept by the combinators.\<close>

locale frame =
  fixes R :: "'s \<Rightarrow> 's \<Rightarrow> bool"
  assumes refl: "R s s" and trans: "R s t \<Longrightarrow> R t u \<Longrightarrow> R s u"
begin

lemma kret: "keeps R (kret a)"
  by (simp add: keeps_def kop_simps refl)

lemma kget: "keeps R (kget f)"
  by (simp add: keeps_def kop_simps refl)

lemma kmod: "(\<And>s. R s (f s)) \<Longrightarrow> keeps R (kmod f)"
  by (simp add: keeps_def kop_simps)

lemma kpanic: "keeps R (kpanic m)"
  by (simp add: keeps_def kop_simps)

lemma kassert: "keeps R (kassert c m)"
  by (simp add: keeps_def kop_simps refl)

lemma kbind: "keeps R f \<Longrightarrow> (\<And>a. keeps R (g a)) \<Longrightarrow> keeps R (kbind f g)"
  unfolding keeps_def kbind_Ok using trans by blast

lemma kthen: "keeps R f \<Longrightarrow> keeps R g \<Longrightarrow> keeps R (kthen f g)"
  unfolding keeps_def kthen_Ok using trans by blast

lemma kfor: "(\<And>i. keeps R (f i)) \<Longrightarrow> keeps R (kfor is f)"
  by (induction "is") (auto intro: kret kthen)

lemma cond: "keeps R f \<Longrightarrow> keeps R g \<Longrightarrow> keeps R (if c then f else g)"
  by simp

lemma lets: "keeps R (f e) \<Longrightarrow> keeps R (let x = e in f x)"
  by simp

lemma options: "keeps R f \<Longrightarrow> (\<And>x. keeps R (g x)) \<Longrightarrow> keeps R (case r of None \<Rightarrow> f | Some x \<Rightarrow> g x)"
  by (cases r) simp_all

lemma prods: "(\<And>x y. keeps R (f x y)) \<Longrightarrow> keeps R (case p of (x, y) \<Rightarrow> f x y)"
  by (cases p) simp

lemma switches: "keeps R (\<lambda>s. Switch w (g s))"
  by (simp add: keeps_def)

end

section \<open>Reference counts\<close>

definition i_refs :: "'z kfs_scheme \<Rightarrow> nat \<Rightarrow> int" where
  "i_refs s ip = i_ref (icache s ip)"

definition refs_kept :: "'z kfile_scheme \<Rightarrow> 'z kfile_scheme \<Rightarrow> bool" where
  "refs_kept s t \<longleftrightarrow> ftable t = ftable s \<and> i_refs t = i_refs s"

interpretation rk: frame refs_kept
  by unfold_locales (simp_all add: refs_kept_def)

named_theorems refs_rules "operations that keep the reference counts"

lemmas [refs_rules] = rk.kret rk.kget rk.kmod rk.kpanic rk.kassert rk.kbind rk.kthen rk.kfor rk.cond rk.lets rk.options rk.prods rk.switches

lemma refs_locks [refs_rules]: "keeps refs_kept (kacquire l)" "keeps refs_kept (krelease l)"
  by (auto simp: keeps_def kop_simps refs_kept_def i_refs_def fun_eq_iff)

lemma refs_sleep [refs_rules]: "keeps refs_kept (sleep ch lk)"
  by (simp add: keeps_def)

lemma refs_wakeup [refs_rules]: "keeps refs_kept (wakeup ch)"
  by (simp add: keeps_def kop_simps refs_kept_def i_refs_def fun_eq_iff)

lemma refs_kfree [refs_rules]: "keeps refs_kept (kfree v)"
  by (simp add: keeps_def run_kfree refs_kept_def i_refs_def fun_eq_iff)

lemma upd_refs [simp]:
  "ftable (upd_buf b g s) = ftable s" "i_refs (upd_buf b g s1) = i_refs s1"
  "ftable (disk_write n d s) = ftable s" "i_refs (disk_write n d s1) = i_refs s1"
  "ftable (upd_inode i h s) = ftable s" "ftable (upd_pipe p j s) = ftable s" "i_refs (upd_pipe p j s2) = i_refs s2"
  "i_refs (upd_file k m s) = i_refs s"
  by (simp_all add: upd_buf_def disk_write_def upd_inode_def upd_pipe_def upd_file_def i_refs_def fun_eq_iff)

lemma icache_upds [simp]:
  "icache (upd_buf b g s) = icache s" "icache (disk_write n d s) = icache s" "icache (upd_pipe p j s2) = icache s2"
  by (simp_all add: upd_buf_def disk_write_def upd_pipe_def)

lemma refs_iderw [refs_rules]: "keeps refs_kept (iderw a)"
  unfolding iderw_def by (rule refs_rules | (simp add: refs_kept_def i_refs_def fun_eq_iff upd_inode_def; fail))+

lemma refs_bget [refs_rules]: "keeps refs_kept (bget a b)"
  unfolding bget_def by (rule refs_rules | (simp add: refs_kept_def i_refs_def fun_eq_iff upd_inode_def; fail))+

lemma refs_bread [refs_rules]: "keeps refs_kept (bread a b)"
  unfolding bread_def by (rule refs_rules | (simp add: refs_kept_def i_refs_def fun_eq_iff upd_inode_def; fail))+

lemma refs_bwrite [refs_rules]: "keeps refs_kept (bwrite a)"
  unfolding bwrite_def by (rule refs_rules | (simp add: refs_kept_def i_refs_def fun_eq_iff upd_inode_def; fail))+

lemma refs_brelse [refs_rules]: "keeps refs_kept (brelse a)"
  unfolding brelse_def by (rule refs_rules | (simp add: refs_kept_def i_refs_def fun_eq_iff upd_inode_def; fail))+

lemma refs_readsb [refs_rules]: "keeps refs_kept (readsb a)"
  unfolding readsb_def by (rule refs_rules | (simp add: refs_kept_def i_refs_def fun_eq_iff upd_inode_def; fail))+

lemma refs_copy_block [refs_rules]: "keeps refs_kept (copy_block a b)"
  unfolding copy_block_def by (rule refs_rules | (simp add: refs_kept_def i_refs_def fun_eq_iff upd_inode_def; fail))+

lemma refs_install_one [refs_rules]: "keeps refs_kept (install_one a)"
  unfolding install_one_def by (rule refs_rules | (simp add: refs_kept_def i_refs_def fun_eq_iff upd_inode_def; fail))+

lemma refs_install_trans [refs_rules]: "keeps refs_kept install_trans"
  unfolding install_trans_def by (rule refs_rules | (simp add: refs_kept_def i_refs_def fun_eq_iff upd_inode_def; fail))+

lemma refs_write_head [refs_rules]: "keeps refs_kept write_head"
  unfolding write_head_def by (rule refs_rules | (simp add: refs_kept_def i_refs_def fun_eq_iff upd_inode_def; fail))+

lemma refs_begin_op [refs_rules]: "keeps refs_kept begin_op"
  unfolding begin_op_def by (rule refs_rules | (simp add: refs_kept_def i_refs_def fun_eq_iff upd_inode_def; fail))+

lemma refs_write_log_one [refs_rules]: "keeps refs_kept (write_log_one a)"
  unfolding write_log_one_def by (rule refs_rules | (simp add: refs_kept_def i_refs_def fun_eq_iff upd_inode_def; fail))+

lemma refs_write_log [refs_rules]: "keeps refs_kept write_log"
  unfolding write_log_def by (rule refs_rules | (simp add: refs_kept_def i_refs_def fun_eq_iff upd_inode_def; fail))+

lemma refs_commit [refs_rules]: "keeps refs_kept commit"
  unfolding commit_def by (rule refs_rules | (simp add: refs_kept_def i_refs_def fun_eq_iff upd_inode_def; fail))+

lemma refs_end_op [refs_rules]: "keeps refs_kept end_op"
  unfolding end_op_def by (rule refs_rules | (simp add: refs_kept_def i_refs_def fun_eq_iff upd_inode_def; fail))+

lemma refs_log_write [refs_rules]: "keeps refs_kept (log_write a)"
  unfolding log_write_def by (rule refs_rules | (simp add: refs_kept_def i_refs_def fun_eq_iff upd_inode_def; fail))+

lemma refs_bfree [refs_rules]: "keeps refs_kept (bfree a b)"
  unfolding bfree_def by (rule refs_rules | (simp add: refs_kept_def i_refs_def fun_eq_iff upd_inode_def; fail))+

lemma refs_iupdate [refs_rules]: "keeps refs_kept (iupdate a)"
  unfolding iupdate_def by (rule refs_rules | (simp add: refs_kept_def i_refs_def fun_eq_iff upd_inode_def; fail))+

lemma refs_itrunc_direct [refs_rules]: "keeps refs_kept (itrunc_direct a b)"
  unfolding itrunc_direct_def by (rule refs_rules | (simp add: refs_kept_def i_refs_def fun_eq_iff upd_inode_def; fail))+

lemma refs_itrunc_indirect [refs_rules]: "keeps refs_kept (itrunc_indirect a)"
  unfolding itrunc_indirect_def by (rule refs_rules | (simp add: refs_kept_def i_refs_def fun_eq_iff upd_inode_def; fail))+

lemma refs_itrunc [refs_rules]: "keeps refs_kept (itrunc a)"
  unfolding itrunc_def by (rule refs_rules | (simp add: refs_kept_def i_refs_def fun_eq_iff upd_inode_def; fail))+

lemma refs_pipeclose [refs_rules]: "keeps refs_kept (pipeclose a b)"
  unfolding pipeclose_def by (rule refs_rules | (simp add: refs_kept_def i_refs_def fun_eq_iff upd_inode_def; fail))+

text \<open>\<open>iput\<close> gives one reference back.\<close>

lemma iput_refs:
  fixes s :: "'z kfile_scheme"
  assumes "iput ip s = Ok a t"
  shows "ftable t = ftable s" "i_refs t = (i_refs s)(ip := i_refs s ip - 1)"
proof -
  define mid where "mid x = (if i_ref x = 1 \<and> I_VALID \<in> i_flags x \<and> i_nlink x = 0 then
              kthen (kassert (\<lambda>s. I_BUSY \<notin> i_flags (icache s ip)) ''iput busy'')
             (kthen (kmod (upd_inode ip (\<lambda>x. x\<lparr>i_flags := insert I_BUSY (i_flags x)\<rparr>)))
             (kthen (krelease LIcache)
             (kthen (itrunc ip)
             (kthen (kmod (upd_inode ip (\<lambda>x. x\<lparr>i_type := 0\<rparr>)))
             (kthen (iupdate ip)
             (kthen (kacquire LIcache)
             (kthen (kmod (upd_inode ip (\<lambda>x. x\<lparr>i_flags := {}\<rparr>)))
                    (wakeup (ChInode ip)))))))))
            else (kret () :: (unit, 'z kfile_scheme) kop))" for x :: inode
  have mid: "keeps refs_kept (mid x)" for x
    unfolding mid_def by (rule refs_rules | (simp add: refs_kept_def i_refs_def fun_eq_iff upd_inode_def; fail))+
  from assms obtain u v x where u: "kacquire LIcache s = Ok () u" "mid x u = Ok () v"
      and t: "kthen (kmod (upd_inode ip (\<lambda>x. x\<lparr>i_ref := i_ref x - 1\<rparr>))) (krelease LIcache) v = Ok a t"
    unfolding iput_def mid_def [symmetric] by (auto simp: kthen_Ok kbind_Ok run_kget)
  have su: "refs_kept s v"
    using rk.trans keepsD [OF refs_locks(1) u(1)] keepsD [OF mid u(2)] by blast
  obtain w where w: "w = upd_inode ip (\<lambda>x. x\<lparr>i_ref := i_ref x - 1\<rparr>) v" "krelease LIcache w = Ok a t"
    using t by (auto simp: kthen_Ok run_kmod)
  have "refs_kept w t" by (rule keepsD [OF refs_locks(2) w(2)])
  with su w(1) show "ftable t = ftable s" "i_refs t = (i_refs s)(ip := i_refs s ip - 1)"
    by (simp_all add: refs_kept_def i_refs_def fun_eq_iff upd_inode_def)
qed

text \<open>An open file after \<open>n\<close> of its references were closed.\<close>

definition closed_file :: "file_struct \<Rightarrow> nat \<Rightarrow> file_struct" where
  "closed_file x n = (if 0 < n \<and> f_ref x = int n then x\<lparr>f_ref := 0, f_type := FD_NONE\<rparr> else x\<lparr>f_ref := f_ref x - int n\<rparr>)"

lemma fileclose_last:
  "fileclose f s = Ok a t \<Longrightarrow> f_ref (ftable s f) = 1 \<Longrightarrow>
    (let x = ftable s f in if f_type x = FD_PIPE then pipeclose (f_pipe x) (f_writable x)
        else if f_type x = FD_INODE then kthen begin_op (kthen (iput (f_ip x)) end_op) else kret ())
      (upd_file f (\<lambda>x. x\<lparr>f_ref := 0, f_type := FD_NONE\<rparr>) s) = Ok a t"
  by (simp add: fileclose_def kop_simps upd_file_def Let_def split: if_splits)

lemma fileclose_refs:
  assumes "fileclose f s = Ok a t"
  shows "1 \<le> f_ref (ftable s f)" "ftable t = (ftable s)(f := closed_file (ftable s f) 1)"
    "i_refs t = (if f_ref (ftable s f) = 1 \<and> f_type (ftable s f) = FD_INODE
       then (i_refs s)(f_ip (ftable s f) := i_refs s (f_ip (ftable s f)) - 1) else i_refs s)"
proof -
  let ?x = "ftable s f" and ?u = "upd_file f (\<lambda>x. x\<lparr>f_ref := 0, f_type := FD_NONE\<rparr>) s"
  show r: "1 \<le> f_ref ?x" using assms by (simp add: fileclose_def kop_simps split: if_splits)
  have "ftable t = (ftable s)(f := closed_file ?x 1) \<and> i_refs t = (if f_ref ?x = 1 \<and> f_type ?x = FD_INODE
       then (i_refs s)(f_ip ?x := i_refs s (f_ip ?x) - 1) else i_refs s)"
  proof (cases "f_ref ?x = 1")
    case False
    with assms r show ?thesis
      by (auto simp: fileclose_def kop_simps upd_file_def closed_file_def i_refs_def fun_eq_iff split: if_splits)
  next
    case True
    have u: "ftable ?u = (ftable s)(f := closed_file ?x 1)" "i_refs ?u = i_refs s"
      using True by (simp_all add: upd_file_def closed_file_def i_refs_def fun_eq_iff)
    note last = fileclose_last [OF assms True, unfolded Let_def]
    show ?thesis
    proof (cases "f_type ?x")
      case FD_INODE
      with last have "kthen begin_op (kthen (iput (f_ip ?x)) end_op) ?u = Ok a t" by simp
      then obtain v w where v: "begin_op ?u = Ok () v" "iput (f_ip ?x) v = Ok () w" "end_op w = Ok a t"
        by (auto simp: kthen_Ok)
      note * = keepsD [OF refs_begin_op v(1)] iput_refs [OF v(2)] keepsD [OF refs_end_op v(3)]
      with True FD_INODE u show ?thesis by (simp add: refs_kept_def)
    next
      case FD_PIPE
      with last have "pipeclose (f_pipe ?x) (f_writable ?x) ?u = Ok a t" by simp
      from keepsD [OF refs_pipeclose this] FD_PIPE u show ?thesis by (simp add: refs_kept_def)
    next
      case FD_NONE
      with last u show ?thesis by (simp add: run_kret)
    qed
  qed
  then show "ftable t = (ftable s)(f := closed_file ?x 1)" "i_refs t = (if f_ref ?x = 1 \<and> f_type ?x = FD_INODE
       then (i_refs s)(f_ip ?x := i_refs s (f_ip ?x) - 1) else i_refs s)" by simp_all
qed

section \<open>The references of a process\<close>

text \<open>How many of the first \<open>n\<close> descriptors name the file \<open>f\<close>, and which files on the inode \<open>ip\<close> have no reference but these.\<close>

definition uses :: "proc \<Rightarrow> nat \<Rightarrow> nat \<Rightarrow> nat" where
  "uses p n f = card {fd. fd < n \<and> p_ofile p fd = Some f}"

definition last_uses :: "proc \<Rightarrow> (nat \<Rightarrow> file_struct) \<Rightarrow> nat \<Rightarrow> nat \<Rightarrow> nat set" where
  "last_uses p ft n ip = {f. 0 < uses p n f \<and> f_ref (ft f) = int (uses p n f) \<and> f_type (ft f) = FD_INODE \<and> f_ip (ft f) = ip}"

lemma uses_0 [simp]: "uses p 0 f = 0"
  by (simp add: uses_def)

lemma uses_Suc: "uses p (Suc n) f = (if p_ofile p n = Some f then Suc (uses p n f) else uses p n f)"
proof -
  have "{fd. fd < Suc n \<and> p_ofile p fd = Some f} =
      (if p_ofile p n = Some f then insert n {fd. fd < n \<and> p_ofile p fd = Some f} else {fd. fd < n \<and> p_ofile p fd = Some f})"
    by (auto simp: less_Suc_eq)
  then show ?thesis by (simp add: uses_def)
qed

lemma finite_last_uses [simp]: "finite (last_uses p ft n ip)"
proof (rule finite_subset)
  show "last_uses p ft n ip \<subseteq> the ` p_ofile p ` {..<n}"
  proof
    fix f assume "f \<in> last_uses p ft n ip"
    then have "{fd. fd < n \<and> p_ofile p fd = Some f} \<noteq> {}" by (auto simp: last_uses_def uses_def card_gt_0_iff)
    then show "f \<in> the ` p_ofile p ` {..<n}" by (force simp: image_iff)
  qed
qed simp

lemma closed_file_0 [simp]: "closed_file x 0 = x"
  by (simp add: closed_file_def)

lemma closed_file_Suc:
  assumes "1 \<le> f_ref (closed_file x n)"
  shows "closed_file (closed_file x n) 1 = closed_file x (Suc n)" "f_ref (closed_file x n) = f_ref x - int n"
    "f_type (closed_file x n) = f_type x" "\<not> (0 < n \<and> f_ref x = int n)"
proof -
  show n: "\<not> (0 < n \<and> f_ref x = int n)" using assms by (auto simp: closed_file_def)
  then have e: "closed_file x n = x\<lparr>f_ref := f_ref x - int n\<rparr>" by (auto simp: closed_file_def)
  then show "f_ref (closed_file x n) = f_ref x - int n" "f_type (closed_file x n) = f_type x" by simp_all
  show "closed_file (closed_file x n) 1 = closed_file x (Suc n)" unfolding e by (auto simp: closed_file_def)
qed

lemma last_uses_Suc:
  assumes "p_ofile p n = Some f" and "\<not> (0 < uses p n f \<and> f_ref (ft f) = int (uses p n f))"
  shows "card (last_uses p ft (Suc n) ip) = card (last_uses p ft n ip) +
    (if f_ref (ft f) - int (uses p n f) = 1 \<and> f_type (ft f) = FD_INODE \<and> f_ip (ft f) = ip then 1 else 0)"
proof -
  have "f \<notin> last_uses p ft n ip" using assms(2) by (auto simp: last_uses_def)
  moreover have "last_uses p ft (Suc n) ip = (if f_ref (ft f) - int (uses p n f) = 1 \<and> f_type (ft f) = FD_INODE \<and> f_ip (ft f) = ip
      then insert f (last_uses p ft n ip) else last_uses p ft n ip)"
    using assms by (auto simp: last_uses_def uses_Suc split: if_splits)
  ultimately show ?thesis by simp
qed

text \<open>The state \<open>t\<close> after the first \<open>n\<close> descriptors of a process that looked like \<open>p\<close> in \<open>s\<close> were closed.\<close>

definition given_back :: "proc \<Rightarrow> 'z kuser_scheme \<Rightarrow> nat \<Rightarrow> 'z kuser_scheme \<Rightarrow> bool" where
  "given_back p s n t \<longleftrightarrow> (\<forall>f. ftable t f = closed_file (ftable s f) (uses p n f)) \<and>
     (\<forall>ip. i_refs t ip = i_refs s ip - int (card (last_uses p (ftable s) n ip)))"

lemma given_back_0: "given_back p s 0 s"
  by (simp add: given_back_def last_uses_def)

lemma given_back_kept: "given_back p s n t \<Longrightarrow> refs_kept t u \<Longrightarrow> given_back p s n u"
  by (simp add: given_back_def refs_kept_def)

lemma given_back_skip: "given_back p s n t \<Longrightarrow> p_ofile p n = None \<Longrightarrow> given_back p s (Suc n) t"
  by (simp add: given_back_def last_uses_def uses_Suc)

lemma given_back_close:
  assumes g: "given_back p s n t" and f: "p_ofile p n = Some f" and c: "fileclose f t = Ok a u"
  shows "given_back p s (Suc n) u"
proof -
  note r = fileclose_refs [OF c]
  have ft: "ftable t f = closed_file (ftable s f) (uses p n f)" using g by (simp add: given_back_def)
  note cf = closed_file_Suc [OF r(1) [unfolded ft]]
  have ip: "f_ip (closed_file x k) = f_ip x" for x k by (simp add: closed_file_def)
  have "ftable u k = closed_file (ftable s k) (uses p (Suc n) k)" for k
    using g r(2) f cf(1) by (auto simp: given_back_def uses_Suc ft)
  moreover have "i_refs u j = i_refs s j - int (card (last_uses p (ftable s) (Suc n) j))" for j
    unfolding r(3) last_uses_Suc [of p n f "ftable s", OF f cf(4)] using g by (auto simp: given_back_def ft cf(2,3) ip)
  ultimately show ?thesis by (simp add: given_back_def)
qed

end
