(* ===== verification/Syscall.thy ===== *)
theory Syscall
  imports Proc
begin

text \<open>
  System-call arguments, the first part of \<^verbatim>\<open>src/syscall.c\<close>.  The kernel reads user memory through the page
  table of the current process; a read or write of an unmapped address, or a write to a read-only page, is a page
  fault in the kernel, which ends in \<open>panic("trap")\<close>.
\<close>

section \<open>User memory\<close>

definition uload :: "'z kmem_scheme \<Rightarrow> nat \<Rightarrow> u8 option" where
  "uload s va =
     (let d = p_pgdir (cur s) in
      if pte_present (pte_of (mem s) d va) then Some (ubyte (mem s) d va) else None)"

definition uload32 :: "'z kmem_scheme \<Rightarrow> nat \<Rightarrow> nat option" where
  "uload32 s va =
     (case (uload s va, uload s (va + 1), uload s (va + 2), uload s (va + 3)) of
        (Some a, Some b, Some c, Some d) \<Rightarrow>
          Some (unat a + 256 * unat b + 65536 * unat c + 16777216 * unat d)
      | _ \<Rightarrow> None)"

definition ustore :: "nat \<Rightarrow> u8 \<Rightarrow> 'z kmem_scheme \<Rightarrow> 'z kmem_scheme" where
  "ustore va c s =
     (let u = upage (mem s) (p_pgdir (cur s)) va in s\<lparr>mem := (mem s)(u := (mem s u)(va mod PGSIZE := c))\<rparr>)"

fun rd_user :: "nat \<Rightarrow> nat \<Rightarrow> (u8 list, 'z kmem_scheme) kop" where
  "rd_user va 0 = kret []"
| "rd_user va (Suc n) =
     kbind (kget (\<lambda>s. uload s va)) (\<lambda>r.
     case r of
       None \<Rightarrow> kpanic ''trap''
     | Some c \<Rightarrow> kbind (rd_user (va + 1) n) (\<lambda>cs. kret (c # cs)))"

fun wr_user :: "nat \<Rightarrow> u8 list \<Rightarrow> (unit, 'z kmem_scheme) kop" where
  "wr_user va [] = kret ()"
| "wr_user va (c # cs) =
     kthen (kassert (\<lambda>s. let e = pte_of (mem s) (p_pgdir (cur s)) va in pte_present e \<and> bit e 1) ''trap'')
    (kthen (kmod (ustore va c))
           (wr_user (va + 1) cs))"

section \<open>Arguments\<close>

text \<open>The fetched value, or \<open>None\<close> where the C function returns -1.\<close>

definition fetchint :: "nat \<Rightarrow> (nat option, 'z kuser_scheme) kop" where
  "fetchint addr =
     kbind (kget (\<lambda>s. p_sz (cur s))) (\<lambda>sz.
     if addr \<ge> sz \<or> (addr + 4) mod W32 > sz then kret None
     else kbind (kget (\<lambda>s. uload32 s addr)) (\<lambda>r.
       case r of None \<Rightarrow> kpanic ''trap'' | Some v \<Rightarrow> kret (Some v)))"

function fetchstr_loop :: "nat \<Rightarrow> nat \<Rightarrow> cstring \<Rightarrow> (cstring option, 'z kuser_scheme) kop" where
  "fetchstr_loop a ep acc =
     (if a < ep then
        kbind (kget (\<lambda>s. uload s a)) (\<lambda>r.
        case r of
          None \<Rightarrow> kpanic ''trap''
        | Some c \<Rightarrow> if c = 0 then kret (Some acc) else fetchstr_loop (a + 1) ep (acc @ [c]))
      else kret None)"
  by pat_completeness auto
termination
  by (relation "measure (\<lambda>(a, ep, _). ep - a)") auto

declare fetchstr_loop.simps [simp del]

text \<open>The string itself stands for the pointer and the length.\<close>

definition fetchstr :: "nat \<Rightarrow> (cstring option, 'z kuser_scheme) kop" where
  "fetchstr addr =
     kbind (kget (\<lambda>s. p_sz (cur s))) (\<lambda>sz.
     if addr \<ge> sz then kret None else fetchstr_loop addr sz [])"

definition argint :: "nat \<Rightarrow> (nat option, 'z kuser_scheme) kop" where
  "argint n = kbind (kget (\<lambda>s. unat (tf_esp (p_tf (cur s))))) (\<lambda>esp. fetchint ((esp + 4 + 4 * n) mod W32))"

definition argptr :: "nat \<Rightarrow> int \<Rightarrow> (nat option, 'z kuser_scheme) kop" where
  "argptr n sz0 =
     kbind (argint n) (\<lambda>r.
     case r of
       None \<Rightarrow> kret None
     | Some i \<Rightarrow>
         kbind (kget (\<lambda>s. p_sz (cur s))) (\<lambda>sz.
         if i \<ge> sz \<or> (i + of_int32 sz0) mod W32 > sz then kret None else kret (Some i)))"

definition argstr :: "nat \<Rightarrow> (cstring option, 'z kuser_scheme) kop" where
  "argstr n = kbind (argint n) (\<lambda>r. case r of None \<Rightarrow> kret None | Some addr \<Rightarrow> fetchstr addr)"

text \<open>\<open>if((x = f()) == 0) bad; g(x)\<close>\<close>

definition kopt :: "('a option, 's) kop \<Rightarrow> ('b, 's) kop \<Rightarrow> ('a \<Rightarrow> ('b, 's) kop) \<Rightarrow> ('b, 's) kop" where
  "kopt f bad g = kbind f (\<lambda>r. case r of None \<Rightarrow> bad | Some x \<Rightarrow> g x)"

text \<open>The little-endian bytes of a word and of a short.\<close>

definition le32 :: "nat \<Rightarrow> u8 list" where
  "le32 v = [of_nat v, of_nat (v div 256), of_nat (v div 65536), of_nat (v div 16777216)]"

definition le16 :: "nat \<Rightarrow> u8 list" where
  "le16 v = [of_nat v, of_nat (v div 256)]"

text \<open>Assigning to a \<open>short\<close>.\<close>

definition to_short :: "int \<Rightarrow> int" where
  "to_short i = short_of (of_short i)"

end
