(* ===== verification/Exec.thy ===== *)
theory Exec
  imports Syscall
begin

text \<open>
  \<open>exec\<close> of \<^verbatim>\<open>src/exec.c\<close> with \<open>loaduvm\<close> of \<^verbatim>\<open>src/vm.c\<close> and the file format of \<^verbatim>\<open>src/elf.h\<close>.
\<close>

abbreviation (input) "MAXARG \<equiv> (32 :: nat)"
abbreviation (input) "ELF_MAGIC \<equiv> (0x464C457F :: nat)"
abbreviation (input) "ELF_PROG_LOAD \<equiv> (1 :: nat)"

record elfhdr =
  eh_magic :: nat
  eh_entry :: nat
  eh_phoff :: nat
  eh_phnum :: nat

record proghdr =
  ph_type :: nat
  ph_off :: nat
  ph_vaddr :: nat
  ph_filesz :: nat
  ph_memsz :: nat

definition decode_elf :: "bytes \<Rightarrow> elfhdr" where
  "decode_elf b = \<lparr>eh_magic = rd32 b 0, eh_entry = rd32 b 24, eh_phoff = rd32 b 28, eh_phnum = rd16 b 44\<rparr>"

definition decode_ph :: "bytes \<Rightarrow> proghdr" where
  "decode_ph b = \<lparr>ph_type = rd32 b 0, ph_off = rd32 b 4, ph_vaddr = rd32 b 8, ph_filesz = rd32 b 16,
     ph_memsz = rd32 b 20\<rparr>"

section \<open>Loading a segment\<close>

text \<open>\<open>True\<close> for the result 0.\<close>

function loaduvm_loop :: "nat \<Rightarrow> nat \<Rightarrow> nat \<Rightarrow> nat \<Rightarrow> nat \<Rightarrow> nat \<Rightarrow> (bool, 'z kuser_scheme) kop" where
  "loaduvm_loop pgdir addr ip offset sz i =
     (if i < sz then
        kbind (walkpgdir pgdir ((addr + i) mod W32) False) (\<lambda>r.
        case r of
          None \<Rightarrow> kpanic ''loaduvm: address should exist''
        | Some pte \<Rightarrow>
            kbind (kget (\<lambda>s. PTE_ADDR (get_pte s pte))) (\<lambda>pa.
            let n = (if sz - i < PGSIZE then sz - i else PGSIZE) in
            kbind (readi ip ((offset + i) mod W32) n) (\<lambda>(r, bs).
            kthen (kmod (\<lambda>s. s\<lparr>mem := (mem s)(p2v pa := blit (mem s (p2v pa)) 0 bs)\<rparr>))
            (if r \<noteq> int n then kret False
             else loaduvm_loop pgdir addr ip offset sz (i + PGSIZE)))))
      else kret True)"
  by pat_completeness auto
termination
  by (relation "measure (\<lambda>(_, _, _, _, sz, i). sz - i)") auto

declare loaduvm_loop.simps [simp del]

definition loaduvm :: "nat \<Rightarrow> nat \<Rightarrow> nat \<Rightarrow> nat \<Rightarrow> nat \<Rightarrow> (bool, 'z kuser_scheme) kop" where
  "loaduvm pgdir addr ip offset sz =
     kthen (kassert (\<lambda>_. addr mod PGSIZE = 0) ''loaduvm: addr must be page aligned'')
           (loaduvm_loop pgdir addr ip offset sz 0)"

section \<open>The new image\<close>

text \<open>
  The loop over the program headers: the size of the image, or \<open>None\<close> for \<open>goto bad\<close>.  \<open>n\<close> headers
  are left.
\<close>

fun load_segments :: "nat \<Rightarrow> nat \<Rightarrow> nat \<Rightarrow> nat \<Rightarrow> nat \<Rightarrow> (nat option, 'z kuser_scheme) kop" where
  "load_segments 0 pgdir ip off sz = kret (Some sz)"
| "load_segments (Suc n) pgdir ip off sz =
     kbind (readi ip off 32) (\<lambda>(r, bs).
     if r \<noteq> 32 then kret None
     else
       let ph = decode_ph (cstr bs) in
       if ph_type ph \<noteq> ELF_PROG_LOAD then load_segments n pgdir ip ((off + 32) mod W32) sz
       else if ph_memsz ph < ph_filesz ph then kret None
       else
         kbind (allocuvm pgdir sz ((ph_vaddr ph + ph_memsz ph) mod W32)) (\<lambda>sz1.
         if sz1 = 0 then kret None
         else
           kbind (loaduvm pgdir (ph_vaddr ph) ip (ph_off ph) (ph_filesz ph)) (\<lambda>ok.
           if \<not> ok then kret None
           else load_segments n pgdir ip ((off + 32) mod W32) sz1)))"

text \<open>
  Pushing the argument strings: the stack pointer and the addresses of the strings, or \<open>None\<close>
  for \<open>goto bad\<close>.
\<close>

fun push_args :: "nat \<Rightarrow> nat \<Rightarrow> nat \<Rightarrow> cstring list \<Rightarrow> nat list \<Rightarrow> ((nat \<times> nat list) option, 'z kuser_scheme) kop" where
  "push_args pgdir sp argc [] acc = kret (Some (sp, acc))"
| "push_args pgdir sp argc (a # argv) acc =
     (if argc \<ge> MAXARG then kret None
      else
        let x = sub32 sp (length a + 1);
            sp1 = x - x mod 4
        in kbind (copyout pgdir sp1 (a @ [0])) (\<lambda>r.
           if r < 0 then kret None else push_args pgdir sp1 (argc + 1) argv (acc @ [sp1])))"

definition ustack_words :: "nat \<Rightarrow> nat list \<Rightarrow> nat list" where
  "ustack_words sp args =
     [0xffffffff, length args, sub32 sp ((length args + 1) * 4)] @ args @ [0]"

text \<open>The part of the path after the last slash.\<close>

definition last_elem :: "cstring \<Rightarrow> cstring" where
  "last_elem path = rev (takeWhile (\<lambda>c. c \<noteq> slash) (rev path))"

definition exec_bad :: "nat \<Rightarrow> nat option \<Rightarrow> (int, 'z kuser_scheme) kop" where
  "exec_bad pgdir ip =
     kthen (if pgdir \<noteq> 0 then freevm pgdir else kret ())
    (kthen (case ip of Some i \<Rightarrow> kthen (iunlockput i) end_op | None \<Rightarrow> kret ())
           (kret (-1)))"

definition exec_commit :: "cstring \<Rightarrow> nat \<Rightarrow> nat \<Rightarrow> nat \<Rightarrow> nat \<Rightarrow> (int, 'z kuser_scheme) kop" where
  "exec_commit path pgdir sz entry sp =
     kthen (kmod (upd_cur (\<lambda>p. p\<lparr>p_name := safe_name 16 (map (\<lambda>c. char_of (unat c)) (last_elem path))\<rparr>)))
    (kbind (kget (\<lambda>s. p_pgdir (cur s))) (\<lambda>oldpgdir.
     kthen (kmod (upd_cur (\<lambda>p. p\<lparr>p_pgdir := pgdir, p_sz := sz,
              p_tf := (p_tf p)\<lparr>tf_eip := of_nat entry, tf_esp := of_nat sp\<rparr>\<rparr>)))
    (kthen (kbind (kget (\<lambda>s. the (curproc s))) switchuvm)
    (kthen (freevm oldpgdir)
           (kret 0)))))"

definition exec_stack :: "cstring \<Rightarrow> cstring list \<Rightarrow> nat \<Rightarrow> nat \<Rightarrow> nat \<Rightarrow> (int, 'z kuser_scheme) kop" where
  "exec_stack path argv pgdir sz0 entry =
     (let sz1 = PGROUNDUP sz0 in
      kbind (allocuvm pgdir sz1 ((sz1 + 2 * PGSIZE) mod W32)) (\<lambda>sz.
      if sz = 0 then exec_bad pgdir None
      else
        kthen (clearpteu pgdir (sub32 sz (2 * PGSIZE)))
       (kopt (push_args pgdir sz 0 argv []) (exec_bad pgdir None) (\<lambda>(sp, args).
          let sp1 = sub32 sp ((3 + length args + 1) * 4) in
          kbind (copyout pgdir sp1 (concat (map le32 (ustack_words sp args)))) (\<lambda>r.
          if r < 0 then exec_bad pgdir None
          else exec_commit path pgdir sz entry sp1)))))"

text \<open>
  The header check compares the result of \<open>readi\<close>, an \<open>int\<close>, with \<open>sizeof(elf)\<close>, an unsigned
  number, so a result of -1 passes; the header then is what the stack held.
\<close>

definition exec :: "cstring \<Rightarrow> cstring list \<Rightarrow> (int, 'z kuser_scheme) kop" where
  "exec path argv =
     kthen begin_op
    (kopt (namei path) (kthen end_op (kret (-1))) (\<lambda>ip.
     kthen (ilock ip)
    (kbind (readi ip 0 52) (\<lambda>(r, bs).
     kbind (kget (\<lambda>s. decode_elf (blit (uninit s) 0 bs))) (\<lambda>elf.
     if of_int32 r < 52 then exec_bad 0 (Some ip)
     else if eh_magic elf \<noteq> ELF_MAGIC then exec_bad 0 (Some ip)
     else
       kbind setupkvm (\<lambda>pgdir.
       if pgdir = 0 then exec_bad 0 (Some ip)
       else
         kopt (load_segments (eh_phnum elf) pgdir ip (eh_phoff elf) 0) (exec_bad pgdir (Some ip)) (\<lambda>sz.
         kthen (iunlockput ip)
        (kthen end_op
               (exec_stack path argv pgdir sz (eh_entry elf))))))))))"

end
