(* ===== verification/Sysfile.thy ===== *)
theory Sysfile
  imports Exec
begin

text \<open>
  The file-system calls, \<^verbatim>\<open>src/sysfile.c\<close>.  Each is the whole handler: arguments are fetched from user
  memory, results are stored there, and the transaction brackets are where the source has them.
\<close>

section \<open>Descriptors\<close>

definition argfd :: "nat \<Rightarrow> ((nat \<times> nat) option, 'z kuser_scheme) kop" where
  "argfd n =
     kopt (argint n) (kret None) (\<lambda>v.
     kbind (kget (\<lambda>s. p_ofile (cur s))) (\<lambda>ofile.
     let fd = int_of32 v in
     if fd < 0 \<or> fd \<ge> int NOFILE then kret None
     else kret (map_option (\<lambda>f. (nat fd, f)) (ofile (nat fd)))))"

definition fdalloc :: "nat \<Rightarrow> (nat option, 'z kuser_scheme) kop" where
  "fdalloc f =
     kbind (kget (\<lambda>s. find (\<lambda>fd. p_ofile (cur s) fd = None) [0..<NOFILE])) (\<lambda>r.
     case r of
       Some fd \<Rightarrow> kthen (kmod (upd_cur (\<lambda>p. p\<lparr>p_ofile := (p_ofile p)(fd \<mapsto> f)\<rparr>))) (kret (Some fd))
     | None \<Rightarrow> kret None)"

definition clear_fd :: "nat \<Rightarrow> (unit, 'z kuser_scheme) kop" where
  "clear_fd fd = kmod (upd_cur (\<lambda>p. p\<lparr>p_ofile := (p_ofile p)(fd := None)\<rparr>))"

definition sys_dup :: "(int, 'z kuser_scheme) kop" where
  "sys_dup =
     kopt (argfd 0) (kret (-1)) (\<lambda>(_, f).
     kopt (fdalloc f) (kret (-1)) (\<lambda>fd.
     kthen (filedup f) (kret (int fd))))"

definition sys_read :: "(int, 'z kuser_scheme) kop" where
  "sys_read =
     kopt (argfd 0) (kret (-1)) (\<lambda>(_, f).
     kopt (argint 2) (kret (-1)) (\<lambda>n.
     kopt (argptr 1 (int_of32 n)) (kret (-1)) (\<lambda>p.
     kbind (fileread f (int_of32 n)) (\<lambda>(r, bs).
     kthen (wr_user p bs) (kret r)))))"

definition sys_write :: "(int, 'z kuser_scheme) kop" where
  "sys_write =
     kopt (argfd 0) (kret (-1)) (\<lambda>(_, f).
     kopt (argint 2) (kret (-1)) (\<lambda>n.
     kopt (argptr 1 (int_of32 n)) (kret (-1)) (\<lambda>p.
     kbind (rd_user p (nat (int_of32 n))) (\<lambda>bs.
     filewrite f (int_of32 n) bs))))"

definition sys_close :: "(int, 'z kuser_scheme) kop" where
  "sys_close =
     kopt (argfd 0) (kret (-1)) (\<lambda>(fd, f).
     kthen (clear_fd fd)
    (kthen (fileclose f) (kret 0)))"

text \<open>The fields of \<open>struct stat\<close> at their offsets; the padding is not written.\<close>

definition put_stat :: "nat \<Rightarrow> stat \<Rightarrow> (unit, 'z kuser_scheme) kop" where
  "put_stat st x =
     kthen (wr_user (st + 4) (le32 (st_dev x)))
    (kthen (wr_user (st + 8) (le32 (st_ino x)))
    (kthen (wr_user st (le16 (of_short (st_type x))))
    (kthen (wr_user (st + 12) (le16 (of_short (st_nlink x))))
           (wr_user (st + 16) (le32 (st_size x))))))"

definition sys_fstat :: "(int, 'z kuser_scheme) kop" where
  "sys_fstat =
     kopt (argfd 0) (kret (-1)) (\<lambda>(_, f).
     kopt (argptr 1 20) (kret (-1)) (\<lambda>st.
     kopt (filestat f) (kret (-1)) (\<lambda>x.
     kthen (put_stat st x) (kret 0))))"

section \<open>Links\<close>

definition add_nlink :: "nat \<Rightarrow> int \<Rightarrow> (unit, 'z kuser_scheme) kop" where
  "add_nlink ip d = kmod (upd_inode ip (\<lambda>x. x\<lparr>i_nlink := to_short (i_nlink x + d)\<rparr>))"

definition link_bad :: "nat \<Rightarrow> (int, 'z kuser_scheme) kop" where
  "link_bad ip =
     kthen (ilock ip)
    (kthen (add_nlink ip (-1))
    (kthen (iupdate ip)
    (kthen (iunlockput ip)
    (kthen end_op (kret (-1))))))"

definition sys_link :: "(int, 'z kuser_scheme) kop" where
  "sys_link =
     kopt (argstr 0) (kret (-1)) (\<lambda>old.
     kopt (argstr 1) (kret (-1)) (\<lambda>new.
     kthen begin_op
    (kopt (namei old) (kthen end_op (kret (-1))) (\<lambda>ip.
     kthen (ilock ip)
    (kbind (kget (\<lambda>s. i_type (icache s ip))) (\<lambda>ty.
     if ty = T_DIR then kthen (iunlockput ip) (kthen end_op (kret (-1)))
     else
       kthen (add_nlink ip 1)
      (kthen (iupdate ip)
      (kthen (iunlock ip)
      (kopt (nameiparent new) (link_bad ip) (\<lambda>(dp, name).
       kthen (ilock dp)
      (kbind (kget (\<lambda>s. (i_dev (icache s dp) \<noteq> i_dev (icache s ip), i_inum (icache s ip)))) (\<lambda>(other, inum).
       kbind (if other then kret (-1) else dirlink dp name inum) (\<lambda>r.
       if r < 0 then kthen (iunlockput dp) (link_bad ip)
       else
         kthen (iunlockput dp)
        (kthen (iput ip)
        (kthen end_op (kret 0))))))))))))))))"

function isdirempty_loop :: "nat \<Rightarrow> nat \<Rightarrow> nat \<Rightarrow> (bool, 'z kuser_scheme) kop" where
  "isdirempty_loop dp sz off =
     (if off < sz then
        kbind (readi dp off 16) (\<lambda>(r, de).
        if r \<noteq> 16 then kpanic ''isdirempty: readi''
        else if de_inum de \<noteq> 0 then kret False
        else isdirempty_loop dp sz (off + 16))
      else kret True)"
  by pat_completeness auto
termination
  by (relation "measure (\<lambda>(_, sz, off). sz - off)") auto

declare isdirempty_loop.simps [simp del]

definition isdirempty :: "nat \<Rightarrow> (bool, 'z kuser_scheme) kop" where
  "isdirempty dp = kbind (kget (\<lambda>s. i_size (icache s dp))) (\<lambda>sz. isdirempty_loop dp sz 32)"

definition unlink_bad :: "nat \<Rightarrow> (int, 'z kuser_scheme) kop" where
  "unlink_bad dp = kthen (iunlockput dp) (kthen end_op (kret (-1)))"

definition unlink_entry :: "nat \<Rightarrow> nat \<Rightarrow> nat \<Rightarrow> bool \<Rightarrow> (int, 'z kuser_scheme) kop" where
  "unlink_entry dp ip off isdir =
     kbind (writei dp (replicate 16 0) off) (\<lambda>w.
     if w \<noteq> 16 then kpanic ''unlink: writei''
     else
       kthen (if isdir then kthen (add_nlink dp (-1)) (iupdate dp) else kret ())
      (kthen (iunlockput dp)
      (kthen (add_nlink ip (-1))
      (kthen (iupdate ip)
      (kthen (iunlockput ip)
      (kthen end_op (kret 0)))))))"

definition sys_unlink :: "(int, 'z kuser_scheme) kop" where
  "sys_unlink =
     kopt (argstr 0) (kret (-1)) (\<lambda>path.
     kthen begin_op
    (kopt (nameiparent path) (kthen end_op (kret (-1))) (\<lambda>(dp, name).
     kthen (ilock dp)
     (if namecmp name [0x2E] = 0 \<or> namecmp name [0x2E, 0x2E] = 0 then unlink_bad dp
      else
        kopt (dirlookup dp name) (unlink_bad dp) (\<lambda>(ip, off).
        kthen (ilock ip)
       (kthen (kassert (\<lambda>s. \<not> i_nlink (icache s ip) < 1) ''unlink: nlink < 1'')
       (kbind (kget (\<lambda>s. i_type (icache s ip) = T_DIR)) (\<lambda>isdir.
        kbind (if isdir then isdirempty ip else kret True) (\<lambda>empty.
        if \<not> empty then kthen (iunlockput ip) (unlink_bad dp)
        else unlink_entry dp ip off isdir)))))))))"

section \<open>Creating and opening\<close>

definition create_dots :: "nat \<Rightarrow> nat \<Rightarrow> (unit, 'z kuser_scheme) kop" where
  "create_dots dp ip =
     kthen (add_nlink dp 1)
    (kthen (iupdate dp)
    (kbind (kget (\<lambda>s. (i_inum (icache s ip), i_inum (icache s dp)))) (\<lambda>(inum, pinum).
     kbind (dirlink ip [0x2E] inum) (\<lambda>r1.
     kbind (if r1 < 0 then kret (-1) else dirlink ip [0x2E, 0x2E] pinum) (\<lambda>r2.
     if r2 < 0 then kpanic ''create dots'' else kret ())))))"

definition create_new :: "nat \<Rightarrow> cstring \<Rightarrow> int \<Rightarrow> int \<Rightarrow> int \<Rightarrow> (nat option, 'z kuser_scheme) kop" where
  "create_new dp name type major minor =
     kbind (kget (\<lambda>s. i_dev (icache s dp))) (\<lambda>dev.
     kbind (ialloc dev type) (\<lambda>ip.
     kthen (ilock ip)
    (kthen (kmod (upd_inode ip (\<lambda>x. x\<lparr>i_major := major, i_minor := minor, i_nlink := 1\<rparr>)))
    (kthen (iupdate ip)
    (kthen (if type = T_DIR then create_dots dp ip else kret ())
    (kbind (kget (\<lambda>s. i_inum (icache s ip))) (\<lambda>inum.
     kbind (dirlink dp name inum) (\<lambda>r.
     if r < 0 then kpanic ''create: dirlink''
     else kthen (iunlockput dp) (kret (Some ip))))))))))"

definition create :: "cstring \<Rightarrow> int \<Rightarrow> int \<Rightarrow> int \<Rightarrow> (nat option, 'z kuser_scheme) kop" where
  "create path type major minor =
     kopt (nameiparent path) (kret None) (\<lambda>(dp, name).
     kthen (ilock dp)
    (kbind (dirlookup dp name) (\<lambda>r.
     case r of
       Some (ip, _) \<Rightarrow>
         kthen (iunlockput dp)
        (kthen (ilock ip)
        (kbind (kget (\<lambda>s. i_type (icache s ip))) (\<lambda>ty.
         if type = T_FILE \<and> ty = T_FILE then kret (Some ip)
         else kthen (iunlockput ip) (kret None))))
     | None \<Rightarrow> create_new dp name type major minor)))"

text \<open>\<open>O_WRONLY\<close>, \<open>O_RDWR\<close> and \<open>O_CREATE\<close> are the bits 0, 1 and 9.\<close>

definition open_inode :: "cstring \<Rightarrow> nat \<Rightarrow> (nat option, 'z kuser_scheme) kop" where
  "open_inode path omode =
     (if bit omode 9 then kopt (create path T_FILE 0 0) (kthen end_op (kret None)) (\<lambda>ip. kret (Some ip))
      else
        kopt (namei path) (kthen end_op (kret None)) (\<lambda>ip.
        kthen (ilock ip)
       (kbind (kget (\<lambda>s. i_type (icache s ip))) (\<lambda>ty.
        if ty = T_DIR \<and> omode \<noteq> 0 then kthen (iunlockput ip) (kthen end_op (kret None))
        else kret (Some ip)))))"

definition open_fail :: "nat \<Rightarrow> (int, 'z kuser_scheme) kop" where
  "open_fail ip = kthen (iunlockput ip) (kthen end_op (kret (-1)))"

definition sys_open :: "(int, 'z kuser_scheme) kop" where
  "sys_open =
     kopt (argstr 0) (kret (-1)) (\<lambda>path.
     kopt (argint 1) (kret (-1)) (\<lambda>omode.
     kthen begin_op
    (kopt (open_inode path omode) (kret (-1)) (\<lambda>ip.
     kopt filealloc (open_fail ip) (\<lambda>f.
     kopt (fdalloc f) (kthen (fileclose f) (open_fail ip)) (\<lambda>fd.
     kthen (iunlock ip)
    (kthen end_op
    (kthen (kmod (upd_file f (\<lambda>x. x\<lparr>f_type := FD_INODE, f_ip := ip, f_off := 0,
              f_readable := \<not> bit omode 0, f_writable := bit omode 0 \<or> bit omode 1\<rparr>)))
           (kret (int fd))))))))))"

definition sys_mkdir :: "(int, 'z kuser_scheme) kop" where
  "sys_mkdir =
     kthen begin_op
    (kopt (kopt (argstr 0) (kret None) (\<lambda>path. create path T_DIR 0 0)) (kthen end_op (kret (-1))) (\<lambda>ip.
     kthen (iunlockput ip) (kthen end_op (kret 0))))"

definition sys_mknod :: "(int, 'z kuser_scheme) kop" where
  "sys_mknod =
     kthen begin_op
    (kopt (kopt (argstr 0) (kret None) (\<lambda>path.
           kopt (argint 1) (kret None) (\<lambda>major.
           kopt (argint 2) (kret None) (\<lambda>minor.
           create path T_DEV (to_short (int_of32 major)) (to_short (int_of32 minor))))))
       (kthen end_op (kret (-1))) (\<lambda>ip.
     kthen (iunlockput ip) (kthen end_op (kret 0))))"

definition sys_chdir :: "(int, 'z kuser_scheme) kop" where
  "sys_chdir =
     kthen begin_op
    (kopt (kopt (argstr 0) (kret None) namei) (kthen end_op (kret (-1))) (\<lambda>ip.
     kthen (ilock ip)
    (kbind (kget (\<lambda>s. i_type (icache s ip))) (\<lambda>ty.
     if ty \<noteq> T_DIR then kthen (iunlockput ip) (kthen end_op (kret (-1)))
     else
       kthen (iunlock ip)
      (kthen (kbind (kget (\<lambda>s. p_cwd (cur s))) (\<lambda>c. case c of Some d \<Rightarrow> iput d | None \<Rightarrow> kpanic ''iput: null inode''))
      (kthen end_op
      (kthen (kmod (upd_cur (\<lambda>p. p\<lparr>p_cwd := Some ip\<rparr>)))
             (kret 0))))))))"

section \<open>Programs and pipes\<close>

text \<open>The argument strings from index \<open>i\<close> on; \<open>n\<close> entries of \<open>argv\<close> are left.\<close>

fun fetch_argv :: "nat \<Rightarrow> nat \<Rightarrow> nat \<Rightarrow> cstring list \<Rightarrow> (cstring list option, 'z kuser_scheme) kop" where
  "fetch_argv 0 uargv i acc = kret None"
| "fetch_argv (Suc n) uargv i acc =
     kopt (fetchint ((uargv + 4 * i) mod W32)) (kret None) (\<lambda>uarg.
     if uarg = 0 then kret (Some acc)
     else kopt (fetchstr uarg) (kret None) (\<lambda>a. fetch_argv n uargv (i + 1) (acc @ [a])))"

definition sys_exec :: "(int, 'z kuser_scheme) kop" where
  "sys_exec =
     kopt (argstr 0) (kret (-1)) (\<lambda>path.
     kopt (argint 1) (kret (-1)) (\<lambda>uargv.
     kopt (fetch_argv MAXARG uargv 0 []) (kret (-1)) (\<lambda>argv. exec path argv)))"

definition sys_pipe :: "(int, 'z kuser_scheme) kop" where
  "sys_pipe =
     kopt (argptr 0 8) (kret (-1)) (\<lambda>fd.
     kopt pipealloc (kret (-1)) (\<lambda>(rf, wf).
     let fail = kthen (fileclose rf) (kthen (fileclose wf) (kret (-1))) in
     kopt (fdalloc rf) fail (\<lambda>fd0.
     kopt (fdalloc wf) (kthen (clear_fd fd0) fail) (\<lambda>fd1.
     kthen (wr_user fd (le32 fd0))
    (kthen (wr_user (fd + 4) (le32 fd1))
           (kret 0))))))"

end
