(* ===== verification/Kbd.thy ===== *)
theory Kbd
  imports Console
begin

text \<open>
  The keyboard, \<^verbatim>\<open>src/kbd.c\<close> with the tables of \<^verbatim>\<open>src/kbd.h\<close>, and the two interrupt handlers that
  feed the console.  A byte waits in the controller for each key event (\<open>kbd_in\<close>).
\<close>

section \<open>The tables\<close>

abbreviation (input) "SHIFT \<equiv> (1 :: nat)"
abbreviation (input) "CTL \<equiv> (2 :: nat)"
abbreviation (input) "ALT \<equiv> (4 :: nat)"
abbreviation (input) "CAPSLOCK \<equiv> (8 :: nat)"
abbreviation (input) "NUMLOCK \<equiv> (16 :: nat)"
abbreviation (input) "SCROLLLOCK \<equiv> (32 :: nat)"
abbreviation (input) "E0ESC \<equiv> (64 :: nat)"

definition shiftcode :: "nat \<Rightarrow> nat" where
  "shiftcode d = (if d = 0x1D \<or> d = 0x9D then CTL else if d = 0x2A \<or> d = 0x36 then SHIFT
     else if d = 0x38 \<or> d = 0xB8 then ALT else 0)"

definition togglecode :: "nat \<Rightarrow> nat" where
  "togglecode d = (if d = 0x3A then CAPSLOCK else if d = 0x45 then NUMLOCK else if d = 0x46 then SCROLLLOCK else 0)"

text \<open>The entries above \<open>0x80\<close>, the same in the three maps but for Enter and Div on the keypad.\<close>

definition keypad :: "nat \<Rightarrow> nat \<Rightarrow> nat \<Rightarrow> nat" where
  "keypad enter slsh d =
     (if d = 0x9C then enter else if d = 0xB5 then slsh else if d = 0xC8 then 0xE2 else if d = 0xD0 then 0xE3
      else if d = 0xC9 then 0xE6 else if d = 0xD1 then 0xE7 else if d = 0xCB then 0xE4 else if d = 0xCD then 0xE5
      else if d = 0x97 then 0xE0 else if d = 0xCF then 0xE1 else if d = 0xD2 then 0xE8 else if d = 0xD3 then 0xE9
      else 0)"

definition table_get :: "nat list \<Rightarrow> nat \<Rightarrow> nat \<Rightarrow> nat \<Rightarrow> nat" where
  "table_get low enter slsh d = (if d < length low then low ! d else keypad enter slsh d)"

definition normalmap :: "nat \<Rightarrow> nat" where
  "normalmap = table_get
     [0, 27, 49, 50, 51, 52, 53, 54, 55, 56, 57, 48, 45, 61, 8, 9,
      113, 119, 101, 114, 116, 121, 117, 105, 111, 112, 91, 93, 10, 0, 97, 115,
      100, 102, 103, 104, 106, 107, 108, 59, 39, 96, 0, 92, 122, 120, 99, 118,
      98, 110, 109, 44, 46, 47, 0, 42, 0, 32, 0, 0, 0, 0, 0, 0,
      0, 0, 0, 0, 0, 0, 0, 55, 56, 57, 45, 52, 53, 54, 43, 49,
      50, 51, 48, 46, 0, 0, 0, 0] 10 47"

definition shiftmap :: "nat \<Rightarrow> nat" where
  "shiftmap = table_get
     [0, 27, 33, 64, 35, 36, 37, 94, 38, 42, 40, 41, 95, 43, 8, 9,
      81, 87, 69, 82, 84, 89, 85, 73, 79, 80, 123, 125, 10, 0, 65, 83,
      68, 70, 71, 72, 74, 75, 76, 58, 34, 126, 0, 124, 90, 88, 67, 86,
      66, 78, 77, 60, 62, 63, 0, 42, 0, 32, 0, 0, 0, 0, 0, 0,
      0, 0, 0, 0, 0, 0, 0, 55, 56, 57, 45, 52, 53, 54, 43, 49,
      50, 51, 48, 46, 0, 0, 0, 0] 10 47"

definition ctlmap :: "nat \<Rightarrow> nat" where
  "ctlmap = table_get
     [0, 0, 0, 0, 0, 0, 0, 0, 0, 0, 0, 0, 0, 0, 0, 0,
      17, 23, 5, 18, 20, 25, 21, 9, 15, 16, 0, 0, 13, 0, 1, 19,
      4, 6, 7, 8, 10, 11, 12, 0, 0, 0, 0, 28, 26, 24, 3, 22,
      2, 14, 13, 0, 0, 239, 0, 0] 13 239"

section \<open>Key events\<close>

definition charcode :: "nat \<Rightarrow> nat \<Rightarrow> nat" where
  "charcode sel d = (if sel = 0 then normalmap d else if sel = 1 then shiftmap d else ctlmap d)"

definition and_not :: "nat \<Rightarrow> nat \<Rightarrow> nat" where
  "and_not a b = a - (a AND b)"

text \<open>The effect of one byte on the modifier state, with the result of \<open>kbdgetc\<close>.\<close>

definition kbd_event :: "nat \<Rightarrow> nat \<Rightarrow> nat \<times> nat" where
  "kbd_event sh data =
     (if data = 0xE0 then (sh OR E0ESC, 0)
      else if bit data 7 then
        let d = (if bit sh 6 then data else data AND 0x7F) in
        (and_not sh (shiftcode d OR E0ESC), 0)
      else
        let d = (if bit sh 6 then data OR 0x80 else data);
            sh1 = (if bit sh 6 then and_not sh E0ESC else sh);
            sh2 = (sh1 OR shiftcode d) XOR togglecode d;
            c = charcode (sh2 AND (CTL OR SHIFT)) d
        in (sh2,
            if bit sh2 3 then
              if 97 \<le> c \<and> c \<le> 122 then c - 32
              else if 65 \<le> c \<and> c \<le> 90 then c + 32
              else c
            else c))"

definition kbdgetc :: "(int, 'z kdev_scheme) kop" where
  "kbdgetc =
     kbind (kget kbd_in) (\<lambda>q.
     case q of
       [] \<Rightarrow> kret (-1)
     | d # q' \<Rightarrow>
         kbind (kget (\<lambda>s. kbd_event (kbd_shift s) (d mod 256))) (\<lambda>(sh, c).
         kthen (kmod (\<lambda>s. s\<lparr>kbd_in := q', kbd_shift := sh\<rparr>)) (kret (int c))))"

definition kbdintr :: "(unit, 'z kcons_scheme) kop" where
  "kbdintr = kbind (kget (\<lambda>s. length (kbd_in s))) (\<lambda>n. kbind (drain (Suc n) kbdgetc) consoleintr)"

definition uartintr :: "(unit, 'z kcons_scheme) kop" where
  "uartintr = kbind (kget (\<lambda>s. length (uart_in s))) (\<lambda>n. kbind (drain (Suc n) uartgetc) consoleintr)"

end
