(* ===== verification/Trap.thy ===== *)
theory Trap
  imports Sysfile Kbd
begin

text \<open>
  The process calls of \<^verbatim>\<open>src/sysproc.c\<close>, the dispatch of \<^verbatim>\<open>src/syscall.c\<close>, the trap handler of
  \<^verbatim>\<open>src/trap.c\<close>, and the initialisation sequence of \<^verbatim>\<open>src/main.c\<close>.
\<close>

section \<open>Process calls\<close>

definition sys_fork :: "(int, 'z kuser_scheme) kop" where
  "sys_fork = fork"

definition sys_exit :: "(int, 'z kuser_scheme) kop" where
  "sys_exit = exit"

definition sys_wait :: "(int, 'z kuser_scheme) kop" where
  "sys_wait = wait"

definition sys_kill :: "(int, 'z kuser_scheme) kop" where
  "sys_kill = kopt (argint 0) (kret (-1)) (\<lambda>pid. kill (int_of32 pid))"

definition sys_getpid :: "(int, 'z kuser_scheme) kop" where
  "sys_getpid = kget (\<lambda>s. p_pid (cur s))"

definition sys_sbrk :: "(int, 'z kuser_scheme) kop" where
  "sys_sbrk =
     kopt (argint 0) (kret (-1)) (\<lambda>n.
     kbind (kget (\<lambda>s. p_sz (cur s))) (\<lambda>addr.
     kbind (growproc (int_of32 n)) (\<lambda>r.
     if r < 0 then kret (-1) else kret (int_of32 addr))))"

text \<open>The loop of \<open>sys_sleep\<close>, in which the process also resumes; the comparison is unsigned.\<close>

definition sys_sleep_loop :: "nat \<Rightarrow> nat \<Rightarrow> (int, 'z kuser_scheme) kop" where
  "sys_sleep_loop ticks0 n =
     kbind (kget (\<lambda>s. sub32 (ticks s) ticks0 < n)) (\<lambda>early.
     if early then
       kbind (kget (\<lambda>s. p_killed (cur s))) (\<lambda>killed.
       if killed then kthen (krelease LTicks) (kret (-1)) else sleep ChTicks LTicks)
     else kthen (krelease LTicks) (kret 0))"

definition sys_sleep :: "(int, 'z kuser_scheme) kop" where
  "sys_sleep =
     kopt (argint 0) (kret (-1)) (\<lambda>n.
     kthen (kacquire LTicks)
    (kbind (kget ticks) (\<lambda>ticks0. sys_sleep_loop ticks0 n)))"

definition sys_uptime :: "(int, 'z kuser_scheme) kop" where
  "sys_uptime =
     kthen (kacquire LTicks)
    (kbind (kget ticks) (\<lambda>xticks.
     kthen (krelease LTicks) (kret (int_of32 xticks))))"

section \<open>Dispatch\<close>

definition syscalls :: "nat \<Rightarrow> (int, 'z kuser_scheme) kop option" where
  "syscalls n =
     (if n \<in> {1..21} then Some ([sys_fork, sys_exit, sys_wait, sys_pipe, sys_read, sys_kill, sys_exec, sys_fstat,
        sys_chdir, sys_dup, sys_getpid, sys_sbrk, sys_sleep, sys_uptime, sys_open, sys_write, sys_mknod,
        sys_unlink, sys_link, sys_mkdir, sys_close] ! (n - 1))
      else None)"

definition set_eax :: "u32 \<Rightarrow> proc \<Rightarrow> proc" where
  "set_eax v p = p\<lparr>p_tf := (p_tf p)\<lparr>tf_eax := v\<rparr>\<rparr>"

definition syscall :: "(unit, 'z kuser_scheme) kop" where
  "syscall =
     kbind (kget (\<lambda>s. tf_eax (p_tf (cur s)))) (\<lambda>num.
     case (if 0 < sint num then syscalls (unat num) else None) of
       Some f \<Rightarrow> kbind f (\<lambda>r. kmod (upd_cur (set_eax (of_int r))))
     | None \<Rightarrow>
         kbind (kget cur) (\<lambda>p.
         kthen (cprintf (''%d %s: unknown sys call %d'' @ [CHR 0x0A]) [AInt (of_int (p_pid p)), AStr (p_name p), AInt num])
               (kmod (upd_cur (set_eax (-1))))))"

section \<open>Traps\<close>

abbreviation (input) "T_SYSCALL \<equiv> (64 :: u32)"

definition user_mode :: "trapframe \<Rightarrow> bool" where
  "user_mode tf \<longleftrightarrow> tf_cs tf AND 3 = 3"

definition trap_tick :: "nat \<Rightarrow> (unit, 'z kuser_scheme) kop" where
  "trap_tick c =
     (if c = 0 then
        kthen (kacquire LTicks)
       (kthen (kmod (\<lambda>s. s\<lparr>ticks := (ticks s + 1) mod W32\<rparr>))
       (kthen (wakeup ChTicks)
              (krelease LTicks)))
      else kret ())"

text \<open>The trap a process or the kernel should not have caused; \<open>cr2\<close> is the faulting address.\<close>

definition trap_bad :: "nat \<Rightarrow> u32 \<Rightarrow> trapframe \<Rightarrow> (unit, 'z kuser_scheme) kop" where
  "trap_bad c cr2 tf =
     kbind (kget curproc) (\<lambda>me.
     if me = None \<or> tf_cs tf AND 3 = 0 then
       kthen (cprintf (''unexpected trap %d from cpu %d eip %x (cr2=0x%x)'' @ [CHR 0x0A])
                [AInt (tf_trapno tf), AInt (of_nat c), AInt (tf_eip tf), AInt cr2])
             (kpanic ''trap'')
     else
       kbind (kget cur) (\<lambda>p.
       kthen (cprintf (''pid %d %s: trap %d err %d on cpu %d eip 0x%x addr 0x%x--kill proc'' @ [CHR 0x0A])
                [AInt (of_int (p_pid p)), AStr (p_name p), AInt (tf_trapno tf), AInt (tf_err tf), AInt (of_nat c),
                 AInt (tf_eip tf), AInt cr2])
             (kmod (upd_cur (\<lambda>p. p\<lparr>p_killed := True\<rparr>)))))"

text \<open>The \<open>switch\<close> on the trap number; \<open>ideintr\<close> of the memory disk does nothing.\<close>

definition trap_dispatch :: "nat \<Rightarrow> u32 \<Rightarrow> trapframe \<Rightarrow> (unit, 'z kuser_scheme) kop" where
  "trap_dispatch c cr2 tf =
     (let no = unat (tf_trapno tf) in
      if no = T_IRQ0 + IRQ_TIMER then kthen (trap_tick c) lapiceoi
      else if no = T_IRQ0 + IRQ_IDE then lapiceoi
      else if no = T_IRQ0 + IRQ_IDE + 1 then kret ()
      else if no = T_IRQ0 + IRQ_KBD then kthen kbdintr lapiceoi
      else if no = T_IRQ0 + IRQ_COM1 then kthen uartintr lapiceoi
      else if no = T_IRQ0 + 7 \<or> no = T_IRQ0 + IRQ_SPURIOUS then
        kthen (cprintf (''cpu%d: spurious interrupt at %x:%x'' @ [CHR 0x0A])
                 [AInt (of_nat c), AInt (tf_cs tf), AInt (tf_eip tf)])
              lapiceoi
      else trap_bad c cr2 tf)"

definition exit_if_killed :: "trapframe \<Rightarrow> (unit, 'z kuser_scheme) kop" where
  "exit_if_killed tf =
     kbind (kget (\<lambda>s. curproc s \<noteq> None \<and> p_killed (cur s))) (\<lambda>killed.
     if killed \<and> user_mode tf then exit else kret ())"

definition trap_syscall :: "trapframe \<Rightarrow> (unit, 'z kuser_scheme) kop" where
  "trap_syscall tf =
     kthen (kbind (kget (\<lambda>s. p_killed (cur s))) (\<lambda>k. if k then exit else kret ()))
    (kthen (kmod (upd_cur (\<lambda>p. p\<lparr>p_tf := tf\<rparr>)))
    (kthen syscall
           (kbind (kget (\<lambda>s. p_killed (cur s))) (\<lambda>k. if k then exit else kret ()))))"

text \<open>The last part of \<open>trap\<close>, after the call of \<open>yield\<close>: has the process been killed since?\<close>

definition trap_tail :: "trapframe \<Rightarrow> (unit, 'z kuser_scheme) kop" where
  "trap_tail tf = exit_if_killed tf"

definition trap :: "nat \<Rightarrow> u32 \<Rightarrow> trapframe \<Rightarrow> (unit, 'z kuser_scheme) kop" where
  "trap c cr2 tf =
     (if tf_trapno tf = T_SYSCALL then trap_syscall tf
      else
        kthen (trap_dispatch c cr2 tf)
       (kthen (exit_if_killed tf)
       (kthen (kbind (kget (\<lambda>s. curproc s \<noteq> None \<and> p_state (cur s) = RUNNING)) (\<lambda>running.
               if running \<and> unat (tf_trapno tf) = T_IRQ0 + IRQ_TIMER then yield else kret ()))
              (trap_tail tf))))"

text \<open>What \<open>trap\<close> does when the process that yielded in it runs again: the rest of \<open>yield\<close>, and the same last part.\<close>

definition trap_resume :: "bool \<Rightarrow> trapframe \<Rightarrow> (unit, 'z kuser_scheme) kop" where
  "trap_resume ien tf = kthen (yield_return ien) (trap_tail tf)"

section \<open>Starting the machine\<close>

definition lapicstartap :: "nat \<Rightarrow> nat \<Rightarrow> (unit, 'z kuser_scheme) kop" where
  "lapicstartap apicid addr =
     kthen (outb 0x70 0xF)
    (kthen (outb 0x71 0x0A)
    (kthen (kmod (\<lambda>s. let pg = p2v 0 in s\<lparr>mem := (mem s)(pg := wr16 (wr16 (mem s pg) 0x467 0) 0x469 (addr div 16))\<rparr>))
    (kthen (kfor [(0x310 div 4, push_bit 24 apicid), (0x300 div 4, 0x500 OR 0x8000 OR 0x4000), (0x300 div 4, 0x500 OR 0x8000)]
              (\<lambda>(i, v). lapicw i v))
           (kfor [0..<2] (\<lambda>_. kthen (lapicw (0x310 div 4) (push_bit 24 apicid))
                                    (lapicw (0x300 div 4) (0x600 OR (addr div 4096))))))))"

text \<open>
  \<open>startothers\<close>: the entry code goes to physical address \<open>0x7000\<close>; each further CPU gets a stack, the
  address of \<open>mpenter\<close> and the boot page directory in the three words below it.  The wait for the CPU
  is not modelled.
\<close>

definition start_cpu :: "nat \<Rightarrow> nat \<Rightarrow> nat \<Rightarrow> (unit, 'z kuser_scheme) kop" where
  "start_cpu mpenter entrypgdir apicid =
     kbind kalloc (\<lambda>stack.
     kthen (kmod (\<lambda>s. let pg = p2v 0x6000 in s\<lparr>mem := (mem s)(pg :=
              wr32 (wr32 (wr32 (mem s pg) 4092 (stack + KSTACKSIZE)) 4088 mpenter) 4084 (v2p entrypgdir))\<rparr>))
           (lapicstartap apicid 0x7000))"

definition startothers :: "u8 list \<Rightarrow> nat \<Rightarrow> nat \<Rightarrow> nat list \<Rightarrow> (unit, 'z kuser_scheme) kop" where
  "startothers code mpenter entrypgdir others =
     kthen (kmod (\<lambda>s. let pg = p2v 0x7000 in s\<lparr>mem := (mem s)(pg := blit (mem s pg) 0 code)\<rparr>))
           (kfor others (start_cpu mpenter entrypgdir))"

text \<open>
  The sequence of \<open>main\<close> up to \<open>mpmain\<close>, for the disk image \<open>img\<close>.  \<open>mpinit\<close> has set \<open>ismp\<close> and the list of
  further CPUs; \<open>seginit\<close> and \<open>tvinit\<close> only fill descriptor tables, and \<open>pinit\<close>, \<open>fileinit\<close> and \<open>iinit\<close> only
  initialise locks.
\<close>

definition main_init :: "(nat \<Rightarrow> bytes) \<Rightarrow> nat \<Rightarrow> u8 list \<Rightarrow> u8 list \<Rightarrow> nat \<Rightarrow> nat \<Rightarrow> nat list \<Rightarrow> (unit, 'z kuser_scheme) kop" where
  "main_init img imgsize initcode entrycode mpenter entrypgdir others =
     kthen (kbind (kget kend) (\<lambda>e. kinit1 e (p2v 0x400000)))
    (kthen kvmalloc
    (kthen lapicinit
    (kthen (cprintf ([CHR 0x0A] @ ''cpu%d: starting xv6'' @ [CHR 0x0A, CHR 0x0A]) [AInt 0])
    (kthen picinit
    (kthen ioapicinit
    (kthen consoleinit
    (kthen uartinit
    (kthen binit
    (kthen (ideinit img imgsize)
    (kthen (kbind (kget ismp) (\<lambda>mp. if mp then kret () else timerinit))
    (kthen (startothers entrycode mpenter entrypgdir others)
    (kthen (kinit2 (p2v 0x400000) (p2v PHYSTOP))
           (userinit initcode)))))))))))))"

end
