(* ===== verification/Discipline.thy ===== *)
theory Discipline
  imports Trap States
begin

text \<open>
  The lock discipline of the whole kernel.  Every kernel operation returns with exactly the spin locks held that it
  was called with, on the process that called it; and whenever it gives up its CPU instead, only \<open>ptable.lock\<close> is held
  and the process is not RUNNING any more.  One rule per combinator and per operation; the proof follows the code.
\<close>

section \<open>The judgement\<close>

text \<open>
  How an operation called by the process \<open>c\<close> may end: it returns with the locks \<open>H\<close> and the same current process, it panics, or
  it leaves the CPU to the scheduler.
\<close>

definition lands :: "lockid list \<Rightarrow> nat option \<Rightarrow> ('a, 'z kproc_scheme) res \<Rightarrow> bool" where
  "lands H c r \<longleftrightarrow>
     (case r of
        Ok a t \<Rightarrow> held t = H \<and> curproc t = c
      | Panic m \<Rightarrow> True
      | Switch w t \<Rightarrow> w = Frozen \<or> held t = [LPtable] \<and> curproc t = c \<and> p_state (cur t) \<noteq> RUNNING)"

text \<open>Called with the locks \<open>H\<close>, the operation returns with the locks \<open>H'\<close>.\<close>

definition hold :: "lockid list \<Rightarrow> ('a, 'z kproc_scheme) kop \<Rightarrow> lockid list \<Rightarrow> bool" where
  "hold H f H' \<longleftrightarrow> (\<forall>s. held s = H \<longrightarrow> lands H' (curproc s) (f s))"

named_theorems hold_rules "rules of the lock discipline"

lemma hold_kret [hold_rules]: "hold H (kret a) H"
  by (simp add: hold_def lands_def kop_simps)

lemma hold_kget [hold_rules]: "hold H (kget f) H"
  by (simp add: hold_def lands_def kop_simps)

lemma hold_kmod [hold_rules]: "(\<And>s. held (f s) = held s \<and> curproc (f s) = curproc s) \<Longrightarrow> hold H (kmod f) H"
  by (simp add: hold_def lands_def kop_simps)

lemma hold_kpanic [hold_rules]: "hold H (kpanic m) H'"
  by (simp add: hold_def lands_def kop_simps)

lemma hold_kassert [hold_rules]: "hold H (kassert c m) H"
  by (simp add: hold_def lands_def kop_simps)

lemma hold_kbind [hold_rules]:
  fixes f :: "('a, 'z kproc_scheme) kop" and g :: "'a \<Rightarrow> ('b, 'z kproc_scheme) kop"
  assumes "hold H f H1" and "\<And>a. hold H1 (g a) H2"
  shows "hold H (kbind f g) H2"
  unfolding hold_def
proof (intro allI impI)
  fix s :: "'z kproc_scheme"
  assume H: "held s = H"
  with assms(1) have l: "lands H1 (curproc s) (f s)" by (simp add: hold_def)
  show "lands H2 (curproc s) (kbind f g s)"
  proof (cases "f s")
    case (Ok a t)
    with l have t: "held t = H1" "curproc t = curproc s" by (simp_all add: lands_def)
    with assms(2) [of a] have "lands H2 (curproc s) (g a t)" by (auto simp: hold_def)
    with Ok show ?thesis by simp
  qed (use l in \<open>auto simp: kop_simps lands_def\<close>)
qed

lemma hold_kthen [hold_rules]: "hold H f H1 \<Longrightarrow> hold H1 g H2 \<Longrightarrow> hold H (kthen f g) H2"
  unfolding kthen_def by (rule hold_kbind)

lemma hold_kfor [hold_rules]: "(\<And>i. hold H (f i) H) \<Longrightarrow> hold H (kfor is f) H"
  by (induction "is") (auto intro: hold_rules)

lemma hold_if [hold_rules]: "(c \<Longrightarrow> hold H f H') \<Longrightarrow> (\<not> c \<Longrightarrow> hold H g H') \<Longrightarrow> hold H (if c then f else g) H'"
  by simp

lemma hold_let [hold_rules]: "hold H (f e) H' \<Longrightarrow> hold H (let x = e in f x) H'"
  by simp

lemma hold_option [hold_rules]:
  "(r = None \<Longrightarrow> hold H f H') \<Longrightarrow> (\<And>x. r = Some x \<Longrightarrow> hold H (g x) H') \<Longrightarrow>
    hold H (case r of None \<Rightarrow> f | Some x \<Rightarrow> g x) H'"
  by (cases r) simp_all

lemma hold_list [hold_rules]:
  "(xs = [] \<Longrightarrow> hold H f H') \<Longrightarrow> (\<And>y ys. xs = y # ys \<Longrightarrow> hold H (g y ys) H') \<Longrightarrow>
    hold H (case xs of [] \<Rightarrow> f | y # ys \<Rightarrow> g y ys) H'"
  by (cases xs) simp_all

lemma hold_device [hold_rules]: "hold H f H' \<Longrightarrow> hold H (case d of DevConsole \<Rightarrow> f) H'"
  by (cases d) simp

lemma hold_prod [hold_rules]: "(\<And>x y. p = (x, y) \<Longrightarrow> hold H (f x y) H') \<Longrightarrow> hold H (case p of (x, y) \<Rightarrow> f x y) H'"
  by (cases p) simp

lemma hold_kopt [hold_rules]: "hold H f H1 \<Longrightarrow> hold H1 bad H2 \<Longrightarrow> (\<And>x. hold H1 (g x) H2) \<Longrightarrow> hold H (kopt f bad g) H2"
  unfolding kopt_def by (rule hold_rules | assumption)+

text \<open>The updates of the model change neither the locks nor the current process.\<close>

lemma upd_locks [simp]:
  "held (set_pte e v s0) = held s0" "curproc (set_pte e v s0) = curproc s0"
  "held (upd_buf b g s1) = held s1" "curproc (upd_buf b g s1) = curproc s1"
  "held (disk_write n d s2) = held s2" "curproc (disk_write n d s2) = curproc s2"
  "held (upd_inode i h s3) = held s3" "curproc (upd_inode i h s3) = curproc s3"
  "held (upd_pipe p j s4) = held s4" "curproc (upd_pipe p j s4) = curproc s4"
  "held (upd_file k m s5) = held s5" "curproc (upd_file k m s5) = curproc s5"
  "held (ustore va c s6) = held s6" "curproc (ustore va c s6) = curproc s6"
  by (simp_all add: set_pte_def upd_buf_def disk_write_def upd_inode_def upd_pipe_def upd_file_def ustore_def Let_def)

lemma hold_kacquire [hold_rules]: "hold H (kacquire l) (l # H)"
  by (simp add: hold_def lands_def kop_simps)

lemma hold_krelease [hold_rules]: "hold (l # H) (krelease l) H"
  by (simp add: hold_def lands_def kop_simps)

lemma hold_sched [hold_rules]: "hold H (sched w) H'"
  by (auto simp: hold_def lands_def sched_def kop_simps length_Suc_conv)

lemma hold_frozen [hold_rules]: "hold H (Switch Frozen) H'"
  by (simp add: hold_def lands_def)

lemma hold_sleep [hold_rules]: "hold H (sleep ch lk :: ('a, 'z kproc_scheme) kop) H'"
proof (cases "lk = LPtable")
  case True
  show ?thesis by (auto simp: True hold_def lands_def sleep_def sleep_enter_def sched_def kop_simps length_Suc_conv)
next
  case False
  have "hold (LPtable # H) (krelease lk :: (unit, 'z kproc_scheme) kop) (LPtable # remove1 lk H)"
    using False by (auto simp: hold_def lands_def kop_simps)
  note rel = this
  have sl: "run_acts (sleep_enter ch lk) = (kthen (kacquire LPtable) (kthen (krelease lk) (kthen (kmod (upd_cur (go_to_sleep ch))) (kret ()))) ::
      (unit, 'z kproc_scheme) kop)"
    using False by (simp add: sleep_enter_def)
  show ?thesis unfolding sleep_def sl by (rule hold_rules rel | (simp; fail))+
qed

lemma hold_wakeup1 [hold_rules]: "hold H (wakeup1 ch) H"
  by (simp add: hold_def lands_def kop_simps)

lemma hold_wakeup [hold_rules]: "hold H (wakeup ch) H"
  by (simp add: hold_def lands_def kop_simps)

lemma hold_yield [hold_rules]: "hold H yield H'"
  unfolding yield_def by (rule hold_rules | (simp; fail))+

lemma hold_kalloc [hold_rules]: "hold H kalloc H"
  by (simp add: hold_def lands_def run_kalloc)

lemma hold_kfree [hold_rules]: "hold H (kfree v) H"
  by (simp add: hold_def lands_def run_kfree)

section \<open>Sched\<close>

lemma hold_kill [hold_rules]: "hold H (kill a) H"
  unfolding kill_def by (rule hold_rules | (simp; fail))+

lemma hold_switchkvm [hold_rules]: "hold H switchkvm H"
  unfolding switchkvm_def by (rule hold_rules | (simp; fail))+

lemma hold_switchuvm [hold_rules]: "hold H (switchuvm a) H"
  unfolding switchuvm_def by (rule hold_rules | (simp; fail))+

section \<open>Kalloc\<close>

lemma hold_freerange_loop [hold_rules]: "hold H (freerange_loop a b) H"
proof (induction a b rule: freerange_loop.induct)
  case (1 a b)
  show ?case by (subst freerange_loop.simps) (rule hold_rules 1 | (simp; fail) | assumption)+
qed

lemma hold_freerange [hold_rules]: "hold H (freerange a b) H"
  unfolding freerange_def by (rule hold_rules)

lemma hold_kinit [hold_rules]: "hold H (kinit1 a b) H" "hold H (kinit2 a b) H"
  unfolding kinit1_def kinit2_def by (rule hold_rules | (simp; fail))+


section \<open>Vm\<close>

lemma hold_walkpgdir [hold_rules]: "hold H (walkpgdir a b c) H"
  unfolding walkpgdir_def by (rule hold_rules | (simp; fail))+

lemma hold_mappages_loop [hold_rules]: "hold H (mappages_loop a b c d e f) H"
proof (induction a b c d e f rule: mappages_loop.induct)
qed (unfold mappages_loop.simps, (rule hold_rules | assumption | (simp; fail))+)

lemma hold_mappages [hold_rules]: "hold H (mappages a b c d e) H"
  unfolding mappages_def by (rule hold_rules | (simp; fail))+

lemma hold_setupkvm_loop [hold_rules]: "hold H (setupkvm_loop a b) H"
proof (induction a b rule: setupkvm_loop.induct)
qed (unfold setupkvm_loop.simps, (rule hold_rules | assumption | (simp; fail))+)

lemma hold_setupkvm [hold_rules]: "hold H setupkvm H"
  unfolding setupkvm_def by (rule hold_rules | (simp; fail))+

lemma hold_kvmalloc [hold_rules]: "hold H kvmalloc H"
  unfolding kvmalloc_def by (rule hold_rules | (simp; fail))+

lemma hold_inituvm [hold_rules]: "hold H (inituvm a b) H"
  unfolding inituvm_def by (rule hold_rules | (simp; fail))+

lemma hold_deallocuvm_loop [hold_rules]: "hold H (deallocuvm_loop a b c) H"
proof (induction a b c rule: deallocuvm_loop.induct)
  case (1 a b c)
  show ?case by (subst deallocuvm_loop.simps) (rule hold_rules 1 | (simp; fail) | assumption)+
qed

lemma hold_deallocuvm [hold_rules]: "hold H (deallocuvm a b c) H"
  unfolding deallocuvm_def by (rule hold_rules | (simp; fail))+

lemma hold_allocuvm_loop [hold_rules]: "hold H (allocuvm_loop a b c d) H"
proof (induction a b c d rule: allocuvm_loop.induct)
  case (1 a b c d)
  show ?case by (subst allocuvm_loop.simps) (rule hold_rules 1 | (simp; fail) | assumption)+
qed

lemma hold_allocuvm [hold_rules]: "hold H (allocuvm a b c) H"
  unfolding allocuvm_def by (rule hold_rules | (simp; fail))+

lemma hold_free_table [hold_rules]: "hold H (free_table a b) H"
  unfolding free_table_def by (rule hold_rules | (simp; fail))+

lemma hold_freevm [hold_rules]: "hold H (freevm a) H"
  unfolding freevm_def by (rule hold_rules | (simp; fail))+

lemma hold_clearpteu [hold_rules]: "hold H (clearpteu a b) H"
  unfolding clearpteu_def by (rule hold_rules | (simp; fail))+

lemma hold_copyuvm_loop [hold_rules]: "hold H (copyuvm_loop a b c d) H"
proof (induction a b c d rule: copyuvm_loop.induct)
  case (1 a b c d)
  show ?case by (subst copyuvm_loop.simps) (rule hold_rules 1 | (simp; fail) | assumption)+
qed

lemma hold_copyuvm [hold_rules]: "hold H (copyuvm a b) H"
  unfolding copyuvm_def by (rule hold_rules | (simp; fail))+

lemma hold_uva2ka [hold_rules]: "hold H (uva2ka a b) H"
  unfolding uva2ka_def by (rule hold_rules | (simp; fail))+

lemma hold_copyout [hold_rules]: "hold H (copyout a b c) H"
proof (induction a b c rule: copyout.induct)
  case (1 a b c)
  show ?case by (subst copyout.simps) (rule hold_rules 1 | (simp; fail) | assumption)+
qed

section \<open>Bio\<close>

lemma hold_ideinit [hold_rules]: "hold H (ideinit a b) H"
  unfolding ideinit_def by (rule hold_rules | (simp; fail))+

lemma hold_iderw [hold_rules]: "hold H (iderw a) H"
  unfolding iderw_def by (rule hold_rules | (simp; fail))+

lemma hold_binit [hold_rules]: "hold H binit H"
  unfolding binit_def by (rule hold_rules | (simp; fail))+

lemma hold_bget [hold_rules]: "hold H (bget a b) H"
  unfolding bget_def by (rule hold_rules | (simp; fail))+

lemma hold_bread [hold_rules]: "hold H (bread a b) H"
  unfolding bread_def by (rule hold_rules | (simp; fail))+

lemma hold_bwrite [hold_rules]: "hold H (bwrite a) H"
  unfolding bwrite_def by (rule hold_rules | (simp; fail))+

lemma hold_brelse [hold_rules]: "hold H (brelse a) H"
  unfolding brelse_def by (rule hold_rules | (simp; fail))+

section \<open>Log\<close>

lemma hold_readsb [hold_rules]: "hold H (readsb a) H"
  unfolding readsb_def by (rule hold_rules | (simp; fail))+

lemma hold_copy_block [hold_rules]: "hold H (copy_block a b) H"
  unfolding copy_block_def by (rule hold_rules | (simp; fail))+

lemma hold_install_one [hold_rules]: "hold H (install_one a) H"
  unfolding install_one_def by (rule hold_rules | (simp; fail))+

lemma hold_install_trans [hold_rules]: "hold H install_trans H"
  unfolding install_trans_def by (rule hold_rules | (simp; fail))+

lemma hold_read_head [hold_rules]: "hold H read_head H"
  unfolding read_head_def by (rule hold_rules | (simp; fail))+

lemma hold_write_head [hold_rules]: "hold H write_head H"
  unfolding write_head_def by (rule hold_rules | (simp; fail))+

lemma hold_recover_from_log [hold_rules]: "hold H recover_from_log H"
  unfolding recover_from_log_def by (rule hold_rules | (simp; fail))+

lemma hold_initlog [hold_rules]: "hold H initlog H"
  unfolding initlog_def by (rule hold_rules | (simp; fail))+

lemma hold_begin_op [hold_rules]: "hold H begin_op H"
  unfolding begin_op_def by (rule hold_rules | (simp; fail))+

lemma hold_write_log_one [hold_rules]: "hold H (write_log_one a) H"
  unfolding write_log_one_def by (rule hold_rules | (simp; fail))+

lemma hold_write_log [hold_rules]: "hold H write_log H"
  unfolding write_log_def by (rule hold_rules | (simp; fail))+

lemma hold_commit [hold_rules]: "hold H commit H"
  unfolding commit_def by (rule hold_rules | (simp; fail))+

lemma hold_end_op [hold_rules]: "hold H end_op H"
  unfolding end_op_def by (rule hold_rules | (simp; fail))+

lemma hold_log_write [hold_rules]: "hold H (log_write a) H"
  unfolding log_write_def by (rule hold_rules | (simp; fail))+

section \<open>Inode\<close>

lemma hold_bzero [hold_rules]: "hold H (bzero a b) H"
  unfolding bzero_def by (rule hold_rules | (simp; fail))+

lemma hold_balloc_loop [hold_rules]: "hold H (balloc_loop a b c) H"
proof (induction a b c rule: balloc_loop.induct)
  case (1 a b c)
  show ?case by (subst balloc_loop.simps) (rule hold_rules 1 | (simp; fail) | assumption)+
qed

lemma hold_balloc [hold_rules]: "hold H (balloc a) H"
  unfolding balloc_def by (rule hold_rules | (simp; fail))+

lemma hold_bfree [hold_rules]: "hold H (bfree a b) H"
  unfolding bfree_def by (rule hold_rules | (simp; fail))+

lemma hold_iget [hold_rules]: "hold H (iget a b) H"
  unfolding iget_def by (rule hold_rules | (simp; fail))+

lemma hold_ialloc_loop [hold_rules]: "hold H (ialloc_loop a b c d) H"
proof (induction a b c d rule: ialloc_loop.induct)
  case (1 a b c d)
  show ?case by (subst ialloc_loop.simps) (rule hold_rules 1 | (simp; fail) | assumption)+
qed

lemma hold_ialloc [hold_rules]: "hold H (ialloc a b) H"
  unfolding ialloc_def by (rule hold_rules | (simp; fail))+

lemma hold_iupdate [hold_rules]: "hold H (iupdate a) H"
  unfolding iupdate_def by (rule hold_rules | (simp; fail))+

lemma hold_idup [hold_rules]: "hold H (idup a) H"
  unfolding idup_def by (rule hold_rules | (simp; fail))+

lemma hold_ilock_load [hold_rules]: "hold H (ilock_load a) H"
  unfolding ilock_load_def by (rule hold_rules | (simp; fail))+

lemma hold_ilock [hold_rules]: "hold H (ilock a) H"
  unfolding ilock_def by (rule hold_rules | (simp; fail))+

lemma hold_iunlock [hold_rules]: "hold H (iunlock a) H"
  unfolding iunlock_def by (rule hold_rules | (simp; fail))+

lemma hold_bmap [hold_rules]: "hold H (bmap a b) H"
  unfolding bmap_def by (rule hold_rules | (simp; fail))+

lemma hold_itrunc_direct [hold_rules]: "hold H (itrunc_direct a b) H"
  unfolding itrunc_direct_def by (rule hold_rules | (simp; fail))+

lemma hold_itrunc_indirect [hold_rules]: "hold H (itrunc_indirect a) H"
  unfolding itrunc_indirect_def by (rule hold_rules | (simp; fail))+

lemma hold_itrunc [hold_rules]: "hold H (itrunc a) H"
  unfolding itrunc_def by (rule hold_rules | (simp; fail))+

lemma hold_iput [hold_rules]: "hold H (iput a) H"
  unfolding iput_def by (rule hold_rules | (simp; fail))+

lemma hold_iunlockput [hold_rules]: "hold H (iunlockput a) H"
  unfolding iunlockput_def by (rule hold_rules | (simp; fail))+

section \<open>Devices\<close>

lemma hold_outb [hold_rules]: "hold H (outb a b) H"
  unfolding outb_def by (rule hold_rules | (simp; fail))+

lemma hold_inb [hold_rules]: "hold H (inb a) H"
  unfolding inb_def by (rule hold_rules | (simp; fail))+

lemma hold_picsetmask [hold_rules]: "hold H (picsetmask a) H"
  unfolding picsetmask_def by (rule hold_rules | (simp; fail))+

lemma hold_picenable [hold_rules]: "hold H (picenable a) H"
  unfolding picenable_def by (rule hold_rules | (simp; fail))+

lemma hold_picinit [hold_rules]: "hold H picinit H"
  unfolding picinit_def by (rule hold_rules | (simp; fail))+

lemma hold_ioapicread [hold_rules]: "hold H (ioapicread a) H"
  unfolding ioapicread_def by (rule hold_rules | (simp; fail))+

lemma hold_ioapicwrite [hold_rules]: "hold H (ioapicwrite a b) H"
  unfolding ioapicwrite_def by (rule hold_rules | (simp; fail))+

lemma hold_ioapicenable [hold_rules]: "hold H (ioapicenable a b) H"
  unfolding ioapicenable_def by (rule hold_rules | (simp; fail))+

lemma hold_lapicw [hold_rules]: "hold H (lapicw a b) H"
  unfolding lapicw_def by (rule hold_rules | (simp; fail))+

lemma hold_lapicinit [hold_rules]: "hold H lapicinit H"
  unfolding lapicinit_def by (rule hold_rules | (simp; fail))+

lemma hold_lapiceoi [hold_rules]: "hold H lapiceoi H"
  unfolding lapiceoi_def by (rule hold_rules | (simp; fail))+

lemma hold_timerinit [hold_rules]: "hold H timerinit H"
  unfolding timerinit_def by (rule hold_rules | (simp; fail))+

lemma hold_uartputc [hold_rules]: "hold H (uartputc a) H"
  unfolding uartputc_def by (rule hold_rules | (simp; fail))+

lemma hold_uartinit [hold_rules]: "hold H uartinit H"
  unfolding uartinit_def by (rule hold_rules | (simp; fail))+

lemma hold_uartgetc [hold_rules]: "hold H uartgetc H"
  unfolding uartgetc_def by (rule hold_rules | (simp; fail))+

lemma hold_drain [hold_rules]: "hold H getc H \<Longrightarrow> hold H (drain n getc) H"
proof (induction n)
qed (unfold drain.simps, (rule hold_rules | assumption)+)


section \<open>Console\<close>

lemma hold_consputc [hold_rules]: "hold H (consputc c) H"
  unfolding consputc_def by (rule hold_rules | (simp add: Let_def split_def; fail))+


lemma hold_cprintf [hold_rules]: "hold H (cprintf fmt args) H"
proof -
  have "hold H (kthen (if locking then kacquire LCons else kret ()) (kthen (case cfmt fmt args of
      Some out \<Rightarrow> kfor out (\<lambda>c. consputc (of_char c)) | None \<Rightarrow> kpanic ''cprintf: undefined argument'')
      (if locking then krelease LCons else kret ()))) H" for locking
    by (cases locking; simp only: if_True if_False; (rule hold_rules)+)
  then show ?thesis unfolding cprintf_def by (rule hold_kbind [OF hold_kget])
qed

lemma hold_panic [hold_rules]: "hold H (panic c ra m) H'"
  unfolding panic_def by (rule hold_rules | (simp; fail))+


lemma hold_procdump_one [hold_rules]: "hold H (procdump_one a) H"
  unfolding procdump_one_def by (rule hold_rules | (simp; fail))+

lemma hold_procdump [hold_rules]: "hold H procdump H"
  unfolding procdump_def by (rule hold_rules | (simp; fail))+

lemma hold_erase_one [hold_rules]: "hold H erase_one H"
  unfolding erase_one_def by (rule hold_rules | (simp; fail))+

lemma hold_kill_line [hold_rules]: "hold H (kill_line a) H"
proof (induction a rule: kill_line.induct)
qed (unfold kill_line.simps, (rule hold_rules | assumption | (simp; fail))+)

lemma hold_input_char [hold_rules]: "hold H (input_char a) H"
  unfolding input_char_def by (rule hold_rules | (simp; fail))+

lemma hold_consoleintr_char [hold_rules]: "hold H (consoleintr_char a) H"
  unfolding consoleintr_char_def by (rule hold_rules | (simp; fail))+

lemma hold_consoleintr [hold_rules]: "hold H (consoleintr a) H"
  unfolding consoleintr_def by (rule hold_rules | (simp; fail))+

lemma hold_consoleread_loop [hold_rules]: "hold (LInput # H) (consoleread_loop ip target n acc) H"
proof (induction ip target n acc rule: consoleread_loop.induct)
qed (unfold consoleread_loop.simps, (rule hold_rules | assumption | (simp; fail))+)


lemma hold_consoleread [hold_rules]: "hold H (consoleread a b) H"
  unfolding consoleread_def by (rule hold_rules | (simp; fail))+

lemma hold_consolewrite [hold_rules]: "hold H (consolewrite a b) H"
  unfolding consolewrite_def by (rule hold_rules | (simp; fail))+

lemma hold_consoleinit [hold_rules]: "hold H consoleinit H"
  unfolding consoleinit_def by (rule hold_rules | (simp; fail))+

lemma hold_ioapicinit [hold_rules]: "hold H ioapicinit H"
  unfolding ioapicinit_def by (rule hold_rules | (simp; fail))+

section \<open>Kbd\<close>

lemma hold_kbdgetc [hold_rules]: "hold H kbdgetc H"
  unfolding kbdgetc_def by (rule hold_rules | (simp; fail))+

lemma hold_kbdintr [hold_rules]: "hold H kbdintr H"
  unfolding kbdintr_def by (rule hold_rules | (simp; fail))+

lemma hold_uartintr [hold_rules]: "hold H uartintr H"
  unfolding uartintr_def by (rule hold_rules | (simp; fail))+

section \<open>Fs\<close>

lemma hold_readi_loop [hold_rules]: "hold H (readi_loop a b c d) H"
proof (induction a b c d rule: readi_loop.induct)
  case (1 a b c d)
  show ?case by (subst readi_loop.simps) (rule hold_rules 1 | (simp; fail) | assumption)+
qed

lemma hold_readi [hold_rules]: "hold H (readi a b c) H"
  unfolding readi_def by (rule hold_rules | (simp; fail))+

lemma hold_writei_loop [hold_rules]: "hold H (writei_loop a b c) H"
proof (induction a b c rule: writei_loop.induct)
  case (1 a b c)
  show ?case by (subst writei_loop.simps) (rule hold_rules 1 | (simp; fail) | assumption)+
qed

lemma hold_writei [hold_rules]: "hold H (writei a b c) H"
  unfolding writei_def by (rule hold_rules | (simp; fail))+

lemma hold_dirlookup_loop [hold_rules]: "hold H (dirlookup_loop a b c d) H"
proof (induction a b c d rule: dirlookup_loop.induct)
  case (1 a b c d)
  show ?case by (subst dirlookup_loop.simps) (rule hold_rules 1 | (simp; fail) | assumption)+
qed

lemma hold_dirlookup [hold_rules]: "hold H (dirlookup a b) H"
  unfolding dirlookup_def by (rule hold_rules | (simp; fail))+

lemma hold_dirlink_slot [hold_rules]: "hold H (dirlink_slot a b c) H"
proof (induction a b c rule: dirlink_slot.induct)
  case (1 a b c)
  show ?case by (subst dirlink_slot.simps) (rule hold_rules 1 | (simp; fail) | assumption)+
qed

lemma hold_dirlink [hold_rules]: "hold H (dirlink a b c) H"
  unfolding dirlink_def by (rule hold_rules | (simp; fail))+

lemma hold_namex_loop [hold_rules]: "hold H (namex_loop a b c) H"
proof (induction a b c rule: namex_loop.induct)
  case (1 a b c)
  show ?case by (subst namex_loop.simps) (rule hold_rules 1 | (simp; fail) | assumption)+
qed

lemma hold_namex [hold_rules]: "hold H (namex a b) H"
  unfolding namex_def by (rule hold_rules | (simp; fail))+

lemma hold_namei [hold_rules]: "hold H (namei a) H"
  unfolding namei_def by (rule hold_rules | (simp; fail))+

lemma hold_nameiparent [hold_rules]: "hold H (nameiparent a) H"
  unfolding nameiparent_def by (rule hold_rules | (simp; fail))+

section \<open>Pipe\<close>

lemma hold_pipeclose [hold_rules]: "hold H (pipeclose a b) H"
  unfolding pipeclose_def by (rule hold_rules | (simp; fail))+

lemma hold_pipewrite_loop [hold_rules]: "hold (LPipe p # H) (pipewrite_loop p n bs) H"
proof (induction p n bs rule: pipewrite_loop.induct)
qed (unfold pipewrite_loop.simps, (rule hold_rules | assumption | (simp; fail))+)


lemma hold_pipewrite [hold_rules]: "hold H (pipewrite a b c) H"
  unfolding pipewrite_def by (rule hold_rules | (simp; fail))+

lemma hold_piperead_copy [hold_rules]: "hold H (piperead_copy a b c) H"
proof (induction a b c rule: piperead_copy.induct)
qed (unfold piperead_copy.simps, (rule hold_rules | assumption | (simp; fail))+)

lemma hold_piperead_loop [hold_rules]: "hold (LPipe p # H) (piperead_loop p n) H"
  unfolding piperead_loop_def by (rule hold_rules | (simp; fail))+


lemma hold_piperead [hold_rules]: "hold H (piperead a b) H"
  unfolding piperead_def by (rule hold_rules | (simp; fail))+

section \<open>File\<close>

lemma hold_filealloc [hold_rules]: "hold H filealloc H"
  unfolding filealloc_def by (rule hold_rules | (simp; fail))+

lemma hold_filedup [hold_rules]: "hold H (filedup a) H"
  unfolding filedup_def by (rule hold_rules | (simp; fail))+

lemma hold_fileclose [hold_rules]: "hold H (fileclose a) H"
  unfolding fileclose_def by (rule hold_rules | (simp; fail))+

lemma hold_filestat [hold_rules]: "hold H (filestat a) H"
  unfolding filestat_def by (rule hold_rules | (simp; fail))+

lemma hold_fileread [hold_rules]: "hold H (fileread a b) H"
  unfolding fileread_def by (rule hold_rules | (simp; fail))+

lemma hold_filewrite_piece [hold_rules]: "hold H (filewrite_piece a b c) H"
  unfolding filewrite_piece_def by (rule hold_rules | (simp; fail))+

lemma hold_filewrite_loop [hold_rules]: "hold H (filewrite_loop a b) H"
proof (induction a b rule: filewrite_loop.induct)
  case (1 a b)
  show ?case by (subst filewrite_loop.simps) (rule hold_rules 1 | (simp; fail) | assumption)+
qed

lemma hold_filewrite [hold_rules]: "hold H (filewrite a b c) H"
  unfolding filewrite_def by (rule hold_rules | (simp; fail))+

lemma hold_pipealloc [hold_rules]: "hold H pipealloc H"
  unfolding pipealloc_def by (rule hold_rules | (simp; fail))+

section \<open>Proc\<close>

lemma hold_allocproc [hold_rules]: "hold H allocproc H"
  unfolding allocproc_def by (rule hold_rules | (simp; fail))+

lemma hold_userinit [hold_rules]: "hold H (userinit a) H"
  unfolding userinit_def by (rule hold_rules | (simp; fail))+

lemma hold_growproc [hold_rules]: "hold H (growproc a) H"
  unfolding growproc_def by (rule hold_rules | (simp; fail))+

lemma hold_fork_file [hold_rules]: "hold H (fork_file a b) H"
  unfolding fork_file_def by (rule hold_rules | (simp; fail))+

lemma hold_fork [hold_rules]: "hold H fork H"
  unfolding fork_def by (rule hold_rules | (simp; fail))+

lemma hold_exit_file [hold_rules]: "hold H (exit_file a) H"
  unfolding exit_file_def by (rule hold_rules | (simp; fail))+

lemma hold_wakeup_proc [hold_rules]: "hold H (wakeup_proc a) H"
  unfolding wakeup_proc_def by (rule hold_rules | (simp; fail))+

lemma hold_exit_child [hold_rules]: "hold H (exit_child a) H"
  unfolding exit_child_def by (rule hold_rules | (simp; fail))+

lemma hold_exit [hold_rules]: "hold H exit H"
  unfolding exit_def by (rule hold_rules | (simp; fail))+

lemma hold_reap [hold_rules]: "hold H (reap a) H"
  unfolding reap_def by (rule hold_rules | (simp; fail))+

lemma hold_wait_loop [hold_rules]: "hold (LPtable # H) wait_loop H"
  unfolding wait_loop_def by (rule hold_rules | (simp; fail))+


lemma hold_wait [hold_rules]: "hold H wait H"
  unfolding wait_def by (rule hold_rules | (simp; fail))+

lemma hold_forkret [hold_rules]: "hold (LPtable # H) forkret H"
  unfolding forkret_def by (rule hold_rules | (simp; fail))+


section \<open>Syscall\<close>

lemma hold_rd_user [hold_rules]: "hold H (rd_user a b) H"
proof (induction a b rule: rd_user.induct)
qed (unfold rd_user.simps, (rule hold_rules | assumption | (simp; fail))+)

lemma hold_wr_user [hold_rules]: "hold H (wr_user a b) H"
proof (induction a b rule: wr_user.induct)
qed (unfold wr_user.simps, (rule hold_rules | assumption | (simp; fail))+)

lemma hold_fetchint [hold_rules]: "hold H (fetchint a) H"
  unfolding fetchint_def by (rule hold_rules | (simp; fail))+

lemma hold_fetchstr_loop [hold_rules]: "hold H (fetchstr_loop a b c) H"
proof (induction a b c rule: fetchstr_loop.induct)
  case (1 a b c)
  show ?case by (subst fetchstr_loop.simps) (rule hold_rules 1 | (simp; fail) | assumption)+
qed

lemma hold_fetchstr [hold_rules]: "hold H (fetchstr a) H"
  unfolding fetchstr_def by (rule hold_rules | (simp; fail))+

lemma hold_argint [hold_rules]: "hold H (argint a) H"
  unfolding argint_def by (rule hold_rules | (simp; fail))+

lemma hold_argptr [hold_rules]: "hold H (argptr a b) H"
  unfolding argptr_def by (rule hold_rules | (simp; fail))+

lemma hold_argstr [hold_rules]: "hold H (argstr a) H"
  unfolding argstr_def by (rule hold_rules | (simp; fail))+

section \<open>Exec\<close>

lemma hold_loaduvm_loop [hold_rules]: "hold H (loaduvm_loop a b c d e f) H"
proof (induction a b c d e f rule: loaduvm_loop.induct)
  case (1 a b c d e f)
  show ?case by (subst loaduvm_loop.simps) (rule hold_rules 1 | (simp; fail) | assumption)+
qed

lemma hold_loaduvm [hold_rules]: "hold H (loaduvm a b c d e) H"
  unfolding loaduvm_def by (rule hold_rules | (simp; fail))+

lemma hold_load_segments [hold_rules]: "hold H (load_segments a b c d e) H"
proof (induction a b c d e rule: load_segments.induct)
qed (unfold load_segments.simps, (rule hold_rules | assumption | (simp; fail))+)

lemma hold_push_args [hold_rules]: "hold H (push_args a b c d e) H"
proof (induction a b c d e rule: push_args.induct)
qed (unfold push_args.simps, (rule hold_rules | assumption | (simp; fail))+)

lemma hold_exec_bad [hold_rules]: "hold H (exec_bad a b) H"
  unfolding exec_bad_def by (rule hold_rules | (simp; fail))+

lemma hold_exec_commit [hold_rules]: "hold H (exec_commit a b c d e) H"
  unfolding exec_commit_def by (rule hold_rules | (simp; fail))+

lemma hold_exec_stack [hold_rules]: "hold H (exec_stack a b c d e) H"
  unfolding exec_stack_def by (rule hold_rules | (simp; fail))+

lemma hold_exec [hold_rules]: "hold H (exec a b) H"
  unfolding exec_def by (rule hold_rules | (simp; fail))+

section \<open>Sysfile\<close>

lemma hold_argfd [hold_rules]: "hold H (argfd a) H"
  unfolding argfd_def by (rule hold_rules | (simp; fail))+

lemma hold_fdalloc [hold_rules]: "hold H (fdalloc a) H"
  unfolding fdalloc_def by (rule hold_rules | (simp; fail))+

lemma hold_clear_fd [hold_rules]: "hold H (clear_fd a) H"
  unfolding clear_fd_def by (rule hold_rules | (simp; fail))+

lemma hold_sys_dup [hold_rules]: "hold H sys_dup H"
  unfolding sys_dup_def by (rule hold_rules | (simp; fail))+

lemma hold_sys_read [hold_rules]: "hold H sys_read H"
  unfolding sys_read_def by (rule hold_rules | (simp; fail))+

lemma hold_sys_write [hold_rules]: "hold H sys_write H"
  unfolding sys_write_def by (rule hold_rules | (simp; fail))+

lemma hold_sys_close [hold_rules]: "hold H sys_close H"
  unfolding sys_close_def by (rule hold_rules | (simp; fail))+

lemma hold_put_stat [hold_rules]: "hold H (put_stat a b) H"
  unfolding put_stat_def by (rule hold_rules | (simp; fail))+

lemma hold_sys_fstat [hold_rules]: "hold H sys_fstat H"
  unfolding sys_fstat_def by (rule hold_rules | (simp; fail))+

lemma hold_add_nlink [hold_rules]: "hold H (add_nlink a b) H"
  unfolding add_nlink_def by (rule hold_rules | (simp; fail))+

lemma hold_link_bad [hold_rules]: "hold H (link_bad a) H"
  unfolding link_bad_def by (rule hold_rules | (simp; fail))+

lemma hold_sys_link [hold_rules]: "hold H sys_link H"
  unfolding sys_link_def by (rule hold_rules | (simp; fail))+

lemma hold_isdirempty_loop [hold_rules]: "hold H (isdirempty_loop a b c) H"
proof (induction a b c rule: isdirempty_loop.induct)
  case (1 a b c)
  show ?case by (subst isdirempty_loop.simps) (rule hold_rules 1 | (simp; fail) | assumption)+
qed

lemma hold_isdirempty [hold_rules]: "hold H (isdirempty a) H"
  unfolding isdirempty_def by (rule hold_rules | (simp; fail))+

lemma hold_unlink_bad [hold_rules]: "hold H (unlink_bad a) H"
  unfolding unlink_bad_def by (rule hold_rules | (simp; fail))+

lemma hold_unlink_entry [hold_rules]: "hold H (unlink_entry a b c d) H"
  unfolding unlink_entry_def by (rule hold_rules | (simp; fail))+

lemma hold_sys_unlink [hold_rules]: "hold H sys_unlink H"
  unfolding sys_unlink_def by (rule hold_rules | (simp; fail))+

lemma hold_create_dots [hold_rules]: "hold H (create_dots a b) H"
  unfolding create_dots_def by (rule hold_rules | (simp; fail))+

lemma hold_create_new [hold_rules]: "hold H (create_new a b c d e) H"
  unfolding create_new_def by (rule hold_rules | (simp; fail))+

lemma hold_create [hold_rules]: "hold H (create a b c d) H"
  unfolding create_def by (rule hold_rules | (simp; fail))+

lemma hold_open_inode [hold_rules]: "hold H (open_inode a b) H"
  unfolding open_inode_def by (rule hold_rules | (simp; fail))+

lemma hold_open_fail [hold_rules]: "hold H (open_fail a) H"
  unfolding open_fail_def by (rule hold_rules | (simp; fail))+

lemma hold_sys_open [hold_rules]: "hold H sys_open H"
  unfolding sys_open_def by (rule hold_rules | (simp; fail))+

lemma hold_sys_mkdir [hold_rules]: "hold H sys_mkdir H"
  unfolding sys_mkdir_def by (rule hold_rules | (simp; fail))+

lemma hold_sys_mknod [hold_rules]: "hold H sys_mknod H"
  unfolding sys_mknod_def by (rule hold_rules | (simp; fail))+

lemma hold_sys_chdir [hold_rules]: "hold H sys_chdir H"
  unfolding sys_chdir_def by (rule hold_rules | (simp; fail))+

lemma hold_fetch_argv [hold_rules]: "hold H (fetch_argv a b c d) H"
proof (induction a b c d rule: fetch_argv.induct)
qed (unfold fetch_argv.simps, (rule hold_rules | assumption | (simp; fail))+)

lemma hold_sys_exec [hold_rules]: "hold H sys_exec H"
  unfolding sys_exec_def by (rule hold_rules | (simp; fail))+

lemma hold_sys_pipe [hold_rules]: "hold H sys_pipe H"
  unfolding sys_pipe_def by (rule hold_rules | (simp; fail))+

section \<open>Trap\<close>

lemma hold_sys_fork [hold_rules]: "hold H sys_fork H"
  unfolding sys_fork_def by (rule hold_rules | (simp; fail))+

lemma hold_sys_exit [hold_rules]: "hold H sys_exit H"
  unfolding sys_exit_def by (rule hold_rules | (simp; fail))+

lemma hold_sys_wait [hold_rules]: "hold H sys_wait H"
  unfolding sys_wait_def by (rule hold_rules | (simp; fail))+

lemma hold_sys_kill [hold_rules]: "hold H sys_kill H"
  unfolding sys_kill_def by (rule hold_rules | (simp; fail))+

lemma hold_sys_getpid [hold_rules]: "hold H sys_getpid H"
  unfolding sys_getpid_def by (rule hold_rules | (simp; fail))+

lemma hold_sys_sbrk [hold_rules]: "hold H sys_sbrk H"
  unfolding sys_sbrk_def by (rule hold_rules | (simp; fail))+

lemma hold_sys_sleep_loop [hold_rules]: "hold (LTicks # H) (sys_sleep_loop t n) H"
  unfolding sys_sleep_loop_def by (rule hold_rules | (simp; fail))+


lemma hold_sys_sleep [hold_rules]: "hold H sys_sleep H"
  unfolding sys_sleep_def by (rule hold_rules | (simp; fail))+

lemma hold_sys_uptime [hold_rules]: "hold H sys_uptime H"
  unfolding sys_uptime_def by (rule hold_rules | (simp; fail))+

lemma syscalls_table:
  assumes "syscalls n = Some f"
  shows "f \<in> set [sys_fork, sys_exit, sys_wait, sys_pipe, sys_read, sys_kill, sys_exec, sys_fstat,
        sys_chdir, sys_dup, sys_getpid, sys_sbrk, sys_sleep, sys_uptime, sys_open, sys_write, sys_mknod,
        sys_unlink, sys_link, sys_mkdir, sys_close]"
proof -
  have n: "n \<in> {1..21}" "f = [sys_fork, sys_exit, sys_wait, sys_pipe, sys_read, sys_kill, sys_exec, sys_fstat,
        sys_chdir, sys_dup, sys_getpid, sys_sbrk, sys_sleep, sys_uptime, sys_open, sys_write, sys_mknod,
        sys_unlink, sys_link, sys_mkdir, sys_close] ! (n - 1)"
    using assms by (simp_all add: syscalls_def split: if_splits)
  show ?thesis unfolding n(2) by (rule nth_mem) (use n(1) in auto)
qed

lemma hold_syscalls: "syscalls n = Some f \<Longrightarrow> hold H f H"
  by (drule syscalls_table) (auto intro: hold_rules)

lemma hold_syscall [hold_rules]: "hold H syscall H"
  unfolding syscall_def by (rule hold_rules | (simp; fail) | (erule hold_syscalls; fail) |
    (rule hold_syscalls, simp split: if_splits; fail))+


lemma hold_trap_tick [hold_rules]: "hold H (trap_tick a) H"
  unfolding trap_tick_def by (rule hold_rules | (simp; fail))+

lemma hold_trap_bad [hold_rules]: "hold H (trap_bad a b c) H"
  unfolding trap_bad_def by (rule hold_rules | (simp; fail))+

lemma hold_trap_dispatch [hold_rules]: "hold H (trap_dispatch a b c) H"
  unfolding trap_dispatch_def by (rule hold_rules | (simp; fail))+

lemma hold_exit_if_killed [hold_rules]: "hold H (exit_if_killed a) H"
  unfolding exit_if_killed_def by (rule hold_rules | (simp; fail))+

lemma hold_trap_tail [hold_rules]: "hold H (trap_tail a) H"
  unfolding trap_tail_def by (rule hold_rules | (simp; fail))+

lemma hold_trap_syscall [hold_rules]: "hold H (trap_syscall a) H"
  unfolding trap_syscall_def by (rule hold_rules | (simp; fail))+

lemma hold_trap [hold_rules]: "hold H (trap a b c) H"
  unfolding trap_def by (rule hold_rules | (simp; fail))+

lemma hold_trap_resume [hold_rules]: "hold (LPtable # H) (trap_resume ien tf) H"
  unfolding trap_resume_def yield_return_def sched_return_def by (rule hold_rules | (simp; fail))+


lemma hold_lapicstartap [hold_rules]: "hold H (lapicstartap a b) H"
  unfolding lapicstartap_def by (rule hold_rules | (simp add: Let_def split_def; fail))+


lemma hold_start_cpu [hold_rules]: "hold H (start_cpu a b c) H"
  unfolding start_cpu_def by (rule hold_rules | (simp add: Let_def split_def; fail))+


lemma hold_startothers [hold_rules]: "hold H (startothers a b c d) H"
  unfolding startothers_def by (rule hold_rules | (simp add: Let_def split_def; fail))+


lemma hold_main_init [hold_rules]: "hold H (main_init a b c d e f g) H"
  unfolding main_init_def by (rule hold_rules | (simp; fail))+

section \<open>The kernel as a whole\<close>

text \<open>
  C2.  A trap, system call or interrupt, that enters the kernel with no spin lock held either returns with no lock held, on the
  process it interrupted, or panics, or gives up the CPU with exactly \<open>ptable.lock\<close> held and its process not RUNNING
  any more (unless the machine was stopped by an earlier panic).  No path through any of the 21 system calls leaks a lock.
\<close>

theorem trap_lock_discipline:
  fixes s :: "'z kuser_scheme"
  assumes "held s = []"
  shows "lands [] (curproc s) (trap c cr2 tf s)"
proof -
  have "hold [] (trap c cr2 tf :: (unit, 'z kuser_scheme) kop) []" by (rule hold_trap)
  with assms show ?thesis by (simp add: hold_def)
qed

theorem trap_lock_discipline_witness: "lands [] (Some 0) (trap 0 0 (zero_tf\<lparr>tf_trapno := 64\<rparr>) idle_kernel)"
  using trap_lock_discipline [of idle_kernel 0 0 "zero_tf\<lparr>tf_trapno := 64\<rparr>"] by simp

text \<open>\<open>exit\<close> does not return.\<close>

lemma exit_no_Ok [simp]: "exit s \<noteq> Ok a t"
  by (auto simp: exit_def sched_def kthen_Ok)

lemma exit_if_killed_Ok:
  "exit_if_killed tf s = Ok u t \<Longrightarrow> t = s \<and> \<not> (curproc s \<noteq> None \<and> p_killed (cur s) \<and> user_mode tf)"
  by (auto simp: exit_if_killed_def kop_simps split: if_splits)

text \<open>
  C13.  A killed process never returns to user mode: when a system call returns, or a trap or interrupt taken in user mode, the
  process it returns to has not been killed.  This covers the clock interrupt in which the process gave up the CPU and was killed
  before it ran again.
\<close>

theorem killed_never_returns:
  assumes "trap c cr2 tf s = Ok u t \<and> (tf_trapno tf = T_SYSCALL \<or> user_mode tf) \<or> trap_resume ien tf s = Ok u t \<and> user_mode tf"
    and "curproc t \<noteq> None"
  shows "\<not> p_killed (cur t)"
proof (cases "trap c cr2 tf s = Ok u t \<and> tf_trapno tf = T_SYSCALL")
  case True
  then show ?thesis
    by (auto simp: trap_def trap_syscall_def kthen_Ok kbind_Ok run_kret run_kget split: if_splits)
next
  case False
  with assms(1) have "user_mode tf" "\<exists>u v. exit_if_killed tf v = Ok u t"
    by (auto simp: trap_def trap_resume_def trap_tail_def kthen_Ok)
  with assms(2) show ?thesis using exit_if_killed_Ok by blast
qed

text \<open>The process calls \<open>getpid\<close>.\<close>

lemma getpid_returns:
  "\<exists>t. trap 0 0 (zero_tf\<lparr>tf_trapno := 64, tf_eax := 11\<rparr>) idle_kernel = Ok () t \<and> curproc t = Some 0 \<and> tf_eax (p_tf (cur t)) = 1"
  by (simp add: trap_def trap_syscall_def syscall_def syscalls_def sys_getpid_def kop_simps cur_def upd_cur_def upd_proc_def
      blank_proc_def set_eax_def)

text \<open>A clock interrupt in user mode, and the scheduler back at the process that yielded in it.\<close>

definition user_tick :: trapframe where
  "user_tick = zero_tf\<lparr>tf_trapno := 32, tf_cs := 0x23\<rparr>"

lemma resume_returns:
  "\<exists>t. trap_resume True user_tick (idle_kernel\<lparr>held := [LPtable]\<rparr>) = Ok () t \<and> curproc t = Some 0"
  by (simp add: trap_resume_def trap_tail_def exit_if_killed_def yield_return_def sched_return_def kop_simps cur_def blank_proc_def)

theorem killed_never_returns_witness:
  "(\<exists>t. trap 0 0 (zero_tf\<lparr>tf_trapno := 64, tf_eax := 11\<rparr>) idle_kernel = Ok () t \<and> \<not> p_killed (cur t)) \<and>
   (\<exists>t. trap_resume True user_tick (idle_kernel\<lparr>held := [LPtable]\<rparr>) = Ok () t \<and> \<not> p_killed (cur t))"
proof -
  obtain t where t: "trap 0 0 (zero_tf\<lparr>tf_trapno := 64, tf_eax := 11\<rparr>) idle_kernel = Ok () t" "curproc t = Some 0"
    using getpid_returns by blast
  obtain t' where t': "trap_resume True user_tick (idle_kernel\<lparr>held := [LPtable]\<rparr>) = Ok () t'" "curproc t' = Some 0"
    using resume_returns by blast
  have "user_mode user_tick" by (simp add: user_mode_def user_tick_def)
  with t' killed_never_returns [of 0 0 user_tick "idle_kernel\<lparr>held := [LPtable]\<rparr>" "()" t' True] have "\<not> p_killed (cur t')" by simp
  moreover have "\<not> p_killed (cur t)" using t killed_never_returns [of 0 0 "zero_tf\<lparr>tf_trapno := 64, tf_eax := 11\<rparr>" idle_kernel "()" t] by simp
  ultimately show ?thesis using t(1) t'(1) by blast
qed

end
