(* ===== verification/Life.thy ===== *)
theory Life
  imports Refs CacheOps Discipline
begin

text \<open>
  What \<open>exit\<close>, \<open>wait\<close> and \<open>fork\<close> do to the process table.  The file and disk code that \<open>exit\<close> runs through only ever wakes
  processes; a frame judgement with one rule per operation says so.
\<close>

section \<open>Operations that leave the processes alone\<close>

definition pkept :: "'z kproc_scheme \<Rightarrow> 'z kproc_scheme \<Rightarrow> bool" where
  "pkept s t \<longleftrightarrow> only_woken (ptable s) (ptable t) \<and> curproc t = curproc s \<and> initproc t = initproc s"

definition keep :: "('a, 'z kproc_scheme) kop \<Rightarrow> bool" where
  "keep f \<longleftrightarrow> (\<forall>s. case f s of Ok a t \<Rightarrow> pkept s t | Panic m \<Rightarrow> True | Switch w t \<Rightarrow> w \<noteq> Exited)"

named_theorems keep_rules "rules of the frame judgement"

lemma pkept_refl [simp]: "pkept s s"
  by (simp add: pkept_def)

lemma pkept_trans: "pkept s t \<Longrightarrow> pkept t u \<Longrightarrow> pkept s u"
  unfolding pkept_def using only_woken_trans by metis

lemma keep_kret [keep_rules]: "keep (kret a)"
  by (simp add: keep_def kop_simps)

lemma keep_kget [keep_rules]: "keep (kget f)"
  by (simp add: keep_def kop_simps)

lemma keep_kmod [keep_rules]: "(\<And>s. pkept s (f s)) \<Longrightarrow> keep (kmod f)"
  by (simp add: keep_def kop_simps)

lemma keep_kpanic [keep_rules]: "keep (kpanic m)"
  by (simp add: keep_def kop_simps)

lemma keep_kassert [keep_rules]: "keep (kassert c m)"
  by (simp add: keep_def kop_simps)

lemma keep_kbind [keep_rules]:
  assumes "keep f" and "\<And>a. keep (g a)"
  shows "keep (kbind f g)"
  unfolding keep_def
proof
  fix s
  show "case kbind f g s of Ok a t \<Rightarrow> pkept s t | Panic m \<Rightarrow> True | Switch w t \<Rightarrow> w \<noteq> Exited"
  proof (cases "f s")
    case (Ok a t)
    with assms(1) have "pkept s t" by (auto simp: keep_def dest: spec [of _ s])
    moreover have "case g a t of Ok b u \<Rightarrow> pkept t u | Panic m \<Rightarrow> True | Switch w u \<Rightarrow> w \<noteq> Exited"
      using assms(2) [of a] by (simp add: keep_def)
    ultimately show ?thesis using Ok by (auto split: res.splits intro: pkept_trans)
  qed (use assms(1) in \<open>auto simp: keep_def kop_simps dest: spec [of _ s]\<close>)
qed

lemma keep_kthen [keep_rules]: "keep f \<Longrightarrow> keep g \<Longrightarrow> keep (kthen f g)"
  unfolding kthen_def by (rule keep_kbind)

lemma keep_kfor [keep_rules]: "(\<And>i. keep (f i)) \<Longrightarrow> keep (kfor is f)"
  by (induction "is") (auto intro: keep_rules)

lemma keep_if [keep_rules]: "keep f \<Longrightarrow> keep g \<Longrightarrow> keep (if c then f else g)"
  by simp

lemma keep_let [keep_rules]: "keep (f e) \<Longrightarrow> keep (let x = e in f x)"
  by simp

lemma keep_option [keep_rules]: "keep f \<Longrightarrow> (\<And>x. keep (g x)) \<Longrightarrow> keep (case r of None \<Rightarrow> f | Some x \<Rightarrow> g x)"
  by (cases r) simp_all

lemma keep_prod [keep_rules]: "(\<And>x y. keep (f x y)) \<Longrightarrow> keep (case p of (x, y) \<Rightarrow> f x y)"
  by (cases p) simp

lemma keep_locks [keep_rules]: "keep (kacquire l)" "keep (krelease l)"
  by (simp_all add: keep_def kop_simps pkept_def)

lemma keep_sleep [keep_rules]: "keep (sleep ch lk)"
  by (auto simp: keep_def sleep_def sleep_enter_def sched_def kop_simps split: res.splits)

lemma keep_wakeup [keep_rules]: "keep (wakeup ch)"
  by (simp add: keep_def kop_simps pkept_def)

lemma keep_kfree [keep_rules]: "keep (kfree v)"
  by (simp add: keep_def run_kfree pkept_def)

lemma upd_procs [simp]:
  "ptable (upd_buf b g s1) = ptable s1" "initproc (upd_buf b g s1) = initproc s1"
  "ptable (disk_write n d s2) = ptable s2" "initproc (disk_write n d s2) = initproc s2"
  "ptable (upd_inode i h s3) = ptable s3" "initproc (upd_inode i h s3) = initproc s3"
  "ptable (upd_pipe p j s4) = ptable s4" "initproc (upd_pipe p j s4) = initproc s4"
  "ptable (upd_file k m s5) = ptable s5" "initproc (upd_file k m s5) = initproc s5"
  by (simp_all add: upd_buf_def disk_write_def upd_inode_def upd_pipe_def upd_file_def)

lemma keep_iderw [keep_rules]: "keep (iderw a)"
  unfolding iderw_def by (rule keep_rules | (simp add: pkept_def; fail))+

lemma keep_bget [keep_rules]: "keep (bget a b)"
  unfolding bget_def by (rule keep_rules | (simp add: pkept_def; fail))+

lemma keep_bread [keep_rules]: "keep (bread a b)"
  unfolding bread_def by (rule keep_rules | (simp add: pkept_def; fail))+

lemma keep_bwrite [keep_rules]: "keep (bwrite a)"
  unfolding bwrite_def by (rule keep_rules | (simp add: pkept_def; fail))+

lemma keep_brelse [keep_rules]: "keep (brelse a)"
  unfolding brelse_def by (rule keep_rules | (simp add: pkept_def; fail))+

lemma keep_readsb [keep_rules]: "keep (readsb a)"
  unfolding readsb_def by (rule keep_rules | (simp add: pkept_def; fail))+

lemma keep_copy_block [keep_rules]: "keep (copy_block a b)"
  unfolding copy_block_def by (rule keep_rules | (simp add: pkept_def; fail))+

lemma keep_install_one [keep_rules]: "keep (install_one a)"
  unfolding install_one_def by (rule keep_rules | (simp add: pkept_def; fail))+

lemma keep_install_trans [keep_rules]: "keep install_trans"
  unfolding install_trans_def by (rule keep_rules | (simp add: pkept_def; fail))+

lemma keep_write_head [keep_rules]: "keep write_head"
  unfolding write_head_def by (rule keep_rules | (simp add: pkept_def; fail))+

lemma keep_begin_op [keep_rules]: "keep begin_op"
  unfolding begin_op_def by (rule keep_rules | (simp add: pkept_def; fail))+

lemma keep_write_log_one [keep_rules]: "keep (write_log_one a)"
  unfolding write_log_one_def by (rule keep_rules | (simp add: pkept_def; fail))+

lemma keep_write_log [keep_rules]: "keep write_log"
  unfolding write_log_def by (rule keep_rules | (simp add: pkept_def; fail))+

lemma keep_commit [keep_rules]: "keep commit"
  unfolding commit_def by (rule keep_rules | (simp add: pkept_def; fail))+

lemma keep_end_op [keep_rules]: "keep end_op"
  unfolding end_op_def by (rule keep_rules | (simp add: pkept_def; fail))+

lemma keep_log_write [keep_rules]: "keep (log_write a)"
  unfolding log_write_def by (rule keep_rules | (simp add: pkept_def; fail))+

lemma keep_bfree [keep_rules]: "keep (bfree a b)"
  unfolding bfree_def by (rule keep_rules | (simp add: pkept_def; fail))+

lemma keep_iupdate [keep_rules]: "keep (iupdate a)"
  unfolding iupdate_def by (rule keep_rules | (simp add: pkept_def; fail))+

lemma keep_itrunc_direct [keep_rules]: "keep (itrunc_direct a b)"
  unfolding itrunc_direct_def by (rule keep_rules | (simp add: pkept_def; fail))+

lemma keep_itrunc_indirect [keep_rules]: "keep (itrunc_indirect a)"
  unfolding itrunc_indirect_def by (rule keep_rules | (simp add: pkept_def; fail))+

lemma keep_itrunc [keep_rules]: "keep (itrunc a)"
  unfolding itrunc_def by (rule keep_rules | (simp add: pkept_def; fail))+

lemma keep_iput [keep_rules]: "keep (iput a)"
  unfolding iput_def by (rule keep_rules | (simp add: pkept_def; fail))+

lemma keep_pipeclose [keep_rules]: "keep (pipeclose a b)"
  unfolding pipeclose_def by (rule keep_rules | (simp add: pkept_def; fail))+

lemma keep_fileclose [keep_rules]: "keep (fileclose a)"
  unfolding fileclose_def by (rule keep_rules | (simp add: pkept_def; fail))+


lemma keepD: "keep f \<Longrightarrow> f s = Ok a t \<Longrightarrow> pkept s t" "keep f \<Longrightarrow> f s \<noteq> Switch Exited u"
  by (force simp: keep_def dest: spec [of _ s])+

lemma keep_wlp: "keep f \<Longrightarrow> (\<And>a t. pkept s t \<Longrightarrow> Q a t) \<Longrightarrow> wlp f Q s"
  by (rule wlpI) (blast dest: keepD(1))

section \<open>exit\<close>

lemma kfor_append: "kfor (xs @ ys) f s = kthen (kfor xs f) (kfor ys f) s"
  by (induction xs arbitrary: s) (auto simp: kop_simps split: res.splits)

lemma wlp_kfor_upt:
  assumes "P 0 s" and "\<And>i t. i < n \<Longrightarrow> P i t \<Longrightarrow> wlp (f i) (\<lambda>_. P (Suc i)) t"
  shows "wlp (kfor [0..<n] f) (\<lambda>_. P n) s"
  using assms
proof (induction n)
  case 0
  then show ?case by (simp add: wlp_kret)
next
  case (Suc n)
  then have "wlp (kfor [0..<n] f) (\<lambda>_. P n) s" by simp
  then have "wlp (kthen (kfor [0..<n] f) (kfor [n] f)) (\<lambda>_. P (Suc n)) s"
    unfolding wlp_kthen
  proof (rule wlp_mono)
    fix t assume "P n t"
    then have "wlp (f n) (\<lambda>_. P (Suc n)) t" by (rule Suc.prems(2) [OF lessI])
    then show "wlp (kfor [n] f) (\<lambda>_. P (Suc n)) t"
      unfolding kfor.simps wlp_kthen by (rule wlp_mono) (simp add: wlp_kret)
  qed
  then show ?case by (simp add: wlp_def kfor_append)
qed

text \<open>No \<open>Switch Exited\<close> comes out of the operation.\<close>

definition quiet :: "('a, 's) kop \<Rightarrow> bool" where
  "quiet f \<longleftrightarrow> (\<forall>s t. f s \<noteq> Switch Exited t)"

lemma quiet_keep: "keep f \<Longrightarrow> quiet f"
  using keepD(2) by (auto simp: quiet_def)

lemma quiet_kfor: "(\<And>i. quiet (f i)) \<Longrightarrow> quiet (kfor is f)"
  by (induction "is") (auto simp: quiet_def kop_simps split: res.splits)

lemma kthen_Exited: "kthen f g s = Switch Exited t \<Longrightarrow> quiet f \<Longrightarrow> \<exists>a u. f s = Ok a u \<and> g u = Switch Exited t"
  by (auto simp: kop_simps quiet_def split: res.splits)

text \<open>The links and descriptors of the processes, and that a process is a zombie, stay as they are.\<close>

definition psame :: "(nat \<Rightarrow> proc) \<Rightarrow> (nat \<Rightarrow> proc) \<Rightarrow> bool" where
  "psame p q \<longleftrightarrow> (\<forall>k. p_parent (q k) = p_parent (p k) \<and> (p_state (q k) = ZOMBIE \<longleftrightarrow> p_state (p k) = ZOMBIE))"

lemma only_woken_psame: "only_woken p q \<Longrightarrow> psame p q"
  unfolding only_woken_def psame_def
proof
  fix k
  assume "\<forall>i. q i = p i \<or> p_state (p i) = SLEEPING \<and> q i = (p i)\<lparr>p_state := RUNNABLE\<rparr>"
  then have "q k = p k \<or> p_state (p k) = SLEEPING \<and> q k = (p k)\<lparr>p_state := RUNNABLE\<rparr>" ..
  then show "p_parent (q k) = p_parent (p k) \<and> (p_state (q k) = ZOMBIE) = (p_state (p k) = ZOMBIE)" by auto
qed

lemma only_woken_fields: "only_woken p q \<Longrightarrow> p_ofile (q k) = p_ofile (p k) \<and> p_cwd (q k) = p_cwd (p k) \<and> p_parent (q k) = p_parent (p k)"
  unfolding only_woken_def by (drule spec [of _ k]) auto

lemma psame_refl [simp]: "psame p p"
  by (simp add: psame_def)

lemma psame_trans: "psame p q \<Longrightarrow> psame q r \<Longrightarrow> psame p r"
  by (simp add: psame_def)

text \<open>
  The state after the first \<open>fd\<close> descriptors of process \<open>i\<close> were closed: they are gone from its table, and with them the references
  to the open files.
\<close>

definition closed_to :: "'z kuser_scheme \<Rightarrow> nat \<Rightarrow> nat \<Rightarrow> 'z kuser_scheme \<Rightarrow> bool" where
  "closed_to s i fd t \<longleftrightarrow> psame (ptable s) (ptable t) \<and> curproc t = Some i \<and> initproc t = initproc s \<and>
     (\<forall>k<fd. p_ofile (ptable t i) k = None) \<and> (\<forall>k\<ge>fd. p_ofile (ptable t i) k = p_ofile (ptable s i) k) \<and>
     p_cwd (ptable t i) = p_cwd (ptable s i)"

lemma closed_to_kept: "closed_to s i fd t \<Longrightarrow> pkept t u \<Longrightarrow> closed_to s i fd u"
  unfolding closed_to_def pkept_def
  using only_woken_psame [of "ptable t" "ptable u"] only_woken_fields [of "ptable t" "ptable u" i] by (auto intro: psame_trans)

lemma exit_file_step:
  assumes "closed_to s i fd t \<and> given_back (ptable s i) s fd t"
  shows "wlp (exit_file fd) (\<lambda>_ t. closed_to s i (Suc fd) t \<and> given_back (ptable s i) s (Suc fd) t) t"
proof -
  from assms have c: "closed_to s i fd t" and g: "given_back (ptable s i) s fd t" by simp_all
  then have cur: "cur t = ptable t i" and o: "p_ofile (ptable t i) fd = p_ofile (ptable s i) fd" by (simp_all add: closed_to_def cur_def)
  show ?thesis
  proof (cases "p_ofile (ptable s i) fd")
    case None
    with c cur o given_back_skip [OF g None] show ?thesis by (auto simp: exit_file_def wp_simps closed_to_def less_Suc_eq)
  next
    case (Some f)
    have "wlp (fileclose f) (\<lambda>_ u. closed_to s i fd u \<and> given_back (ptable s i) s (Suc fd) u) t"
      using closed_to_kept [OF c keepD(1) [OF keep_fileclose]] given_back_close [OF g Some] by (blast intro: wlpI)
    then have "wlp (kthen (fileclose f) (kmod (upd_cur (\<lambda>x. x\<lparr>p_ofile := (p_ofile x)(fd := None)\<rparr>))))
        (\<lambda>_ t. closed_to s i (Suc fd) t \<and> given_back (ptable s i) s (Suc fd) t) t"
      unfolding wlp_kthen
    proof (rule wlp_mono)
      fix u assume u: "closed_to s i fd u \<and> given_back (ptable s i) s (Suc fd) u"
      have "given_back (ptable s i) s (Suc fd) (upd_proc i g u)" for g
        using u by (simp add: given_back_def upd_proc_def i_refs_def)
      with u show "wlp (kmod (upd_cur (\<lambda>x. x\<lparr>p_ofile := (p_ofile x)(fd := None)\<rparr>)))
          (\<lambda>_ t. closed_to s i (Suc fd) t \<and> given_back (ptable s i) s (Suc fd) t) u"
        by (auto simp: wlp_kmod closed_to_def upd_cur_def psame_def less_Suc_eq)
    qed
    with Some cur o show ?thesis by (simp add: exit_file_def wlp_kbind wlp_kget)
  qed
qed

lemma quiet_exit_file: "quiet (exit_file fd)"
  unfolding quiet_def exit_file_def
  using keepD(2) [OF keep_fileclose] by (auto simp: kop_simps split: option.splits res.splits)

text \<open>The loop that hands the children to \<open>init\<close>.\<close>

definition not_waiting :: "(nat \<Rightarrow> proc) \<Rightarrow> nat \<Rightarrow> bool" where
  "not_waiting p q \<longleftrightarrow> \<not> (p_state (p q) = SLEEPING \<and> p_chan (p q) = Some (ChProc q))"

lemma not_waiting_woken: "q < NPROC \<Longrightarrow> not_waiting (woken (ChProc q) p) q" "not_waiting p q \<Longrightarrow> not_waiting (woken ch p) q"
  by (auto simp: not_waiting_def woken_def)

lemma woken_fields [simp]:
  "p_parent (woken ch p k) = p_parent (p k)" "p_ofile (woken ch p k) = p_ofile (p k)" "p_cwd (woken ch p k) = p_cwd (p k)"
  "p_state (woken ch p k) = ZOMBIE \<longleftrightarrow> p_state (p k) = ZOMBIE"
  by (simp_all add: woken_def)

text \<open>\<open>wakeup_proc\<close> on the table.\<close>

definition woken_by :: "nat option \<Rightarrow> (nat \<Rightarrow> proc) \<Rightarrow> nat \<Rightarrow> proc" where
  "woken_by q pt = (case q of Some i \<Rightarrow> woken (ChProc i) pt
     | None \<Rightarrow> (\<lambda>i. if i < NPROC \<and> p_state (pt i) = SLEEPING \<and> p_chan (pt i) = None then (pt i)\<lparr>p_state := RUNNABLE\<rparr> else pt i))"

lemma run_wakeup_proc: "wakeup_proc q s = Ok () (s\<lparr>ptable := woken_by q (ptable s)\<rparr>)"
  by (simp add: wakeup_proc_def woken_by_def kop_simps Let_def split: option.splits)

lemma woken_by_fields [simp]:
  "p_parent (woken_by q p k) = p_parent (p k)" "p_ofile (woken_by q p k) = p_ofile (p k)" "p_cwd (woken_by q p k) = p_cwd (p k)"
  "p_state (woken_by q p k) = ZOMBIE \<longleftrightarrow> p_state (p k) = ZOMBIE"
  by (simp_all add: woken_by_def split: option.splits)

lemma not_waiting_woken_by: "q < NPROC \<Longrightarrow> not_waiting (woken_by (Some q) p) q" "not_waiting p k \<Longrightarrow> not_waiting (woken_by r p) k"
  by (auto simp: woken_by_def not_waiting_woken not_waiting_def woken_def split: option.splits)

definition orphaned :: "'z kproc_scheme \<Rightarrow> nat \<Rightarrow> nat \<Rightarrow> 'z kproc_scheme \<Rightarrow> bool" where
  "orphaned b i j t \<longleftrightarrow> curproc t = Some i \<and> initproc t = initproc b \<and>
     (\<forall>k. p_parent (ptable t k) = (if k < j \<and> p_parent (ptable b k) = Some i then initproc b else p_parent (ptable b k)) \<and>
        (p_state (ptable t k) = ZOMBIE \<longleftrightarrow> p_state (ptable b k) = ZOMBIE) \<and>
        p_ofile (ptable t k) = p_ofile (ptable b k) \<and> p_cwd (ptable t k) = p_cwd (ptable b k) \<and>
        (not_waiting (ptable b) k \<longrightarrow> not_waiting (ptable t) k)) \<and>
     (\<forall>k<j. \<forall>n<NPROC. p_parent (ptable b k) = Some i \<and> p_state (ptable b k) = ZOMBIE \<and> initproc b = Some n \<longrightarrow> not_waiting (ptable t) n)"

lemma not_waiting_parent [simp]: "not_waiting (p(j := (p j)\<lparr>p_parent := r\<rparr>)) k = not_waiting p k"
  by (simp add: not_waiting_def)

lemma orphaned_0: "curproc b = Some i \<Longrightarrow> orphaned b i 0 b"
  by (simp add: orphaned_def)

text \<open>One round of the loop.\<close>

definition orphan_state :: "nat \<Rightarrow> 'z kuser_scheme \<Rightarrow> 'z kuser_scheme" where
  "orphan_state j t =
     (if p_parent (ptable t j) = curproc t \<and> curproc t \<noteq> None
      then let u = upd_proc j (\<lambda>x. x\<lparr>p_parent := initproc t\<rparr>) t in
        if p_state (ptable t j) = ZOMBIE then u\<lparr>ptable := woken_by (initproc t) (ptable u)\<rparr> else u
      else t)"

lemma run_exit_child: "exit_child j t = Ok () (orphan_state j t)"
  by (auto simp: exit_child_def orphan_state_def kop_simps run_wakeup_proc Let_def)

lemma orphaned_step:
  assumes o: "orphaned b i j t" and init: "initproc b \<noteq> Some i"
  shows "orphaned b i (Suc j) (orphan_state j t)"
proof -
  have t: "curproc t = Some i" "initproc t = initproc b" using o by (simp_all add: orphaned_def)
  have par: "p_parent (ptable t j) = p_parent (ptable b j)" and zom: "p_state (ptable t j) = ZOMBIE \<longleftrightarrow> p_state (ptable b j) = ZOMBIE"
    using o by (simp_all add: orphaned_def)
  show ?thesis
  proof (cases "p_parent (ptable b j) = Some i")
    case False
    then have "orphan_state j t = t" using par t by (auto simp: orphan_state_def)
    with o False show ?thesis by (auto simp: orphaned_def less_Suc_eq)
  next
    case True
    let ?u = "upd_proc j (\<lambda>x. x\<lparr>p_parent := initproc b\<rparr>) t"
    show ?thesis
    proof (cases "p_state (ptable b j) = ZOMBIE")
      case False
      then have "orphan_state j t = ?u" using True par t zom by (auto simp: orphan_state_def Let_def)
      moreover have "orphaned b i (Suc j) ?u"
        using o True False by (auto simp: orphaned_def less_Suc_eq not_waiting_def)
      ultimately show ?thesis by simp
    next
      case zb: True
      have "orphan_state j t = ?u\<lparr>ptable := woken_by (initproc b) (ptable ?u)\<rparr>"
        using True zb par t zom by (simp add: orphan_state_def Let_def)
      moreover have "orphaned b i (Suc j) (?u\<lparr>ptable := woken_by (initproc b) (ptable ?u)\<rparr>)"
        using o True not_waiting_woken_by not_waiting_parent [of "ptable t" j "initproc b"]
        by (simp add: orphaned_def less_Suc_eq)
      ultimately show ?thesis by simp
    qed
  qed
qed

lemma orphan_state_only: "t = b\<lparr>ptable := p\<rparr> \<Longrightarrow> orphan_state n t = b\<lparr>ptable := ptable (orphan_state n t)\<rparr>"
  by (simp add: orphan_state_def Let_def upd_proc_def)

lemma run_exit_children:
  assumes "curproc b = Some i" "initproc b \<noteq> Some i"
  shows "\<exists>t. kfor [0..<n] exit_child b = Ok () t \<and> orphaned b i n t \<and> held t = held b \<and> t = b\<lparr>ptable := ptable t\<rparr>"
proof (induction n)
  case 0
  then show ?case using orphaned_0 [OF assms(1)] by (simp add: kop_simps)
next
  case (Suc n)
  then obtain t where t: "kfor [0..<n] exit_child b = Ok () t" "orphaned b i n t" "held t = held b" "t = b\<lparr>ptable := ptable t\<rparr>" by blast
  have "kfor [0..<Suc n] exit_child b = Ok () (orphan_state n t)"
    using t(1) by (simp add: kfor_append run_exit_child kop_simps)
  moreover have "held (orphan_state n t) = held b"
    using t(3) by (auto simp: orphan_state_def Let_def)
  moreover have "orphan_state n t = b\<lparr>ptable := ptable (orphan_state n t)\<rparr>"
    by (rule orphan_state_only [OF t(4)])
  ultimately show ?case using orphaned_step [OF t(2) assms(2)] by blast
qed

lemma upd_proc_only: "x = v\<lparr>ptable := p\<rparr> \<Longrightarrow> upd_proc i f x = v\<lparr>ptable := ptable (upd_proc i f x)\<rparr>"
  by (simp add: upd_proc_def)

text \<open>The last part of \<open>exit\<close>, under \<open>ptable.lock\<close>.\<close>

definition exit_tail :: "('a, 'z kuser_scheme) kop" where
  "exit_tail =
     kthen (kbind (kget (\<lambda>s. p_parent (cur s))) wakeup_proc)
    (kthen (kfor [0..<NPROC] exit_child)
    (kthen (kmod (upd_cur (\<lambda>x. x\<lparr>p_state := ZOMBIE\<rparr>)))
           (sched Exited)))"

text \<open>The part of \<open>exit\<close> before that: descriptors and working directory are given back.\<close>

lemma exit_front:
  fixes s :: "'z kuser_scheme"
  assumes ex: "exit s = (Switch Exited t :: ('a, 'z kuser_scheme) res)" and me: "curproc s = Some i"
  shows "initproc s \<noteq> Some i \<and> (\<exists>u. closed_to s i NOFILE u \<and>
    (\<forall>f. ftable u f = closed_file (ftable s f) (uses (ptable s i) NOFILE f)) \<and>
    (\<forall>ip. i_refs u ip = i_refs s ip - int (card (last_uses (ptable s i) (ftable s) NOFILE ip)) - (if p_cwd (ptable s i) = Some ip then 1 else 0)) \<and>
    kthen (kmod (upd_cur (\<lambda>x. x\<lparr>p_cwd := None\<rparr>))) (kthen (kacquire LPtable) exit_tail) u = (Switch Exited t :: ('a, 'z kuser_scheme) res))"
proof -
  let ?cwd = "kbind (kget (\<lambda>s. p_cwd (cur s))) (\<lambda>c. case c of Some ip \<Rightarrow> iput ip | None \<Rightarrow> kpanic ''iput: null inode'')"
  let ?r = "kthen (kmod (upd_cur (\<lambda>x. x\<lparr>p_cwd := None\<rparr>))) (kthen (kacquire LPtable) exit_tail) :: ('a, 'z kuser_scheme) kop"
  have k: "keep begin_op" "keep ?cwd" "keep end_op" by (rule keep_rules)+
  have "kthen (kassert (\<lambda>s. curproc s \<noteq> initproc s) ''init exiting'') (kthen (kfor [0..<NOFILE] exit_file)
      (kthen begin_op (kthen ?cwd (kthen end_op ?r)))) s = Switch Exited t"
    using ex by (simp only: exit_def exit_tail_def)
  with me have ini: "initproc s \<noteq> Some i"
    and r0: "kthen (kfor [0..<NOFILE] exit_file) (kthen begin_op (kthen ?cwd (kthen end_op ?r))) s = Switch Exited t"
    by (auto simp: run_kthen [of "kassert _ _"] run_kassert split: if_splits)
  from kthen_Exited [OF r0 quiet_kfor, OF quiet_exit_file] obtain a u1 where 1: "kfor [0..<NOFILE] exit_file s = Ok a u1"
    and r1: "kthen begin_op (kthen ?cwd (kthen end_op ?r)) u1 = Switch Exited t" by blast
  have "closed_to s i 0 s \<and> given_back (ptable s i) s 0 s" using me by (simp add: closed_to_def given_back_0)
  then have "wlp (kfor [0..<NOFILE] exit_file) (\<lambda>_ t. closed_to s i NOFILE t \<and> given_back (ptable s i) s NOFILE t) s"
    by (rule wlp_kfor_upt [where P = "\<lambda>n t. closed_to s i n t \<and> given_back (ptable s i) s n t"]) (rule exit_file_step)
  from wlpD [OF this 1] have c1: "closed_to s i NOFILE u1" and g1: "given_back (ptable s i) s NOFILE u1" by simp_all
  from kthen_Exited [OF r1 quiet_keep [OF k(1)]] obtain u2 where u2: "begin_op u1 = Ok () u2"
    and r2: "kthen ?cwd (kthen end_op ?r) u2 = Switch Exited t" by auto
  have c2: "closed_to s i NOFILE u2" by (rule closed_to_kept [OF c1 keepD(1) [OF k(1) u2]])
  from kthen_Exited [OF r2 quiet_keep [OF k(2)]] obtain u3 where u3: "?cwd u2 = Ok () u3" and r3: "kthen end_op ?r u3 = Switch Exited t" by auto
  have c3: "closed_to s i NOFILE u3" by (rule closed_to_kept [OF c2 keepD(1) [OF k(2) u3]])
  from kthen_Exited [OF r3 quiet_keep [OF k(3)]] obtain u4 where u4: "end_op u3 = Ok () u4" and r4: "?r u4 = Switch Exited t" by auto
  have c4: "closed_to s i NOFILE u4" by (rule closed_to_kept [OF c3 keepD(1) [OF k(3) u4]])
  have "p_cwd (cur u2) = p_cwd (ptable s i)" using c2 by (simp add: closed_to_def cur_def)
  with u3 obtain ip where ip: "p_cwd (ptable s i) = Some ip" "iput ip u2 = Ok () u3"
    by (cases "p_cwd (ptable s i)") (auto simp: kop_simps)
  have e: "ftable u4 = ftable u1" "i_refs u4 = (i_refs u1)(ip := i_refs u1 ip - 1)"
    using keepsD [OF refs_begin_op u2] iput_refs [OF ip(2)] keepsD [OF refs_end_op u4] by (simp_all add: refs_kept_def)
  have "ftable u4 f = closed_file (ftable s f) (uses (ptable s i) NOFILE f)" for f using g1 e(1) by (simp add: given_back_def)
  moreover have "i_refs u4 j = i_refs s j - int (card (last_uses (ptable s i) (ftable s) NOFILE j)) - (if p_cwd (ptable s i) = Some j then 1 else 0)" for j
    using g1 ip(1) by (simp add: given_back_def e(2))
  ultimately show ?thesis using ini c4 r4 by blast
qed

lemma run_exit_tail:
  fixes v :: "'z kuser_scheme"
  assumes r: "exit_tail v = (Switch Exited t :: ('a, 'z kuser_scheme) res)" and v: "curproc v = Some i" "initproc v \<noteq> Some i"
  shows "\<exists>w x. orphaned w i NPROC x \<and> held t = [LPtable] \<and> t = upd_proc i (\<lambda>p. p\<lparr>p_state := ZOMBIE\<rparr>) x \<and> initproc w = initproc v \<and>
    ptable w = woken_by (p_parent (ptable v i)) (ptable v) \<and> t = v\<lparr>ptable := ptable t\<rparr>"
proof -
  let ?w = "v\<lparr>ptable := woken_by (p_parent (ptable v i)) (ptable v)\<rparr>"
  have w: "curproc ?w = Some i" "initproc ?w = initproc v" using v by simp_all
  obtain x where x: "kfor [0..<NPROC] exit_child ?w = Ok () x" "orphaned ?w i NPROC x" "x = ?w\<lparr>ptable := ptable x\<rparr>"
    using run_exit_children [OF w(1)] w(2) v(2) by metis
  have "kbind (kget (\<lambda>s. p_parent (cur s))) wakeup_proc v = Ok () ?w"
    using v by (simp add: kop_simps run_wakeup_proc cur_def)
  then have "kthen (kmod (upd_cur (\<lambda>x. x\<lparr>p_state := ZOMBIE\<rparr>))) (sched Exited) x = (Switch Exited t :: ('a, 'z kuser_scheme) res)"
    using r x(1) by (simp add: exit_tail_def)
  then have t: "t = upd_proc i (\<lambda>p. p\<lparr>p_state := ZOMBIE\<rparr>) x" "held t = [LPtable]"
    using x(2) by (auto simp: kop_simps sched_def upd_cur_def orphaned_def length_Suc_conv split: if_splits)
  have "x = v\<lparr>ptable := ptable x\<rparr>" using x(3) by simp
  then have "t = v\<lparr>ptable := ptable t\<rparr>" unfolding t(1) by (metis upd_proc_only)
  then show ?thesis using x(2) t w by (intro exI [of _ ?w] exI [of _ x]) auto
qed

text \<open>
  C5.  A process that has gone through \<open>exit\<close> is a zombie with no open descriptor and no working directory; it holds
  \<open>ptable.lock\<close> and nothing else.  Each open file has lost one reference for each descriptor that named it, and is free if these
  were all; the inode of such a file has lost a reference, as has the working directory, and no other count has changed.  All its children, and no other process, now have \<open>init\<close> as their parent.  Its parent does not sleep in
  \<open>wait\<close> any more, and neither does \<open>init\<close> if one of the children handed over was a zombie.
\<close>

theorem exit_effect:
  fixes s :: "'z kuser_scheme"
  assumes ex: "exit s = (Switch Exited t :: ('a, 'z kuser_scheme) res)" and me: "curproc s = Some i" and i: "i < NPROC"
  shows "p_state (ptable t i) = ZOMBIE \<and> (\<forall>fd<NOFILE. p_ofile (ptable t i) fd = None) \<and> p_cwd (ptable t i) = None \<and> held t = [LPtable] \<and>
    (\<forall>f. ftable t f = closed_file (ftable s f) (uses (ptable s i) NOFILE f)) \<and>
    (\<forall>ip. i_ref (icache t ip) = i_ref (icache s ip) - int (card (last_uses (ptable s i) (ftable s) NOFILE ip)) -
      (if p_cwd (ptable s i) = Some ip then 1 else 0)) \<and>
    (\<forall>j<NPROC. p_parent (ptable t j) = (if p_parent (ptable s j) = Some i then initproc s else p_parent (ptable s j))) \<and>
    (\<forall>q<NPROC. p_parent (ptable s i) = Some q \<longrightarrow> not_waiting (ptable t) q) \<and>
    (\<forall>j<NPROC. \<forall>n<NPROC. p_parent (ptable s j) = Some i \<and> p_state (ptable s j) = ZOMBIE \<and> initproc s = Some n \<longrightarrow>
      not_waiting (ptable t) n)"
proof -
  from exit_front [OF ex me] obtain u where ini: "initproc s \<noteq> Some i" and c: "closed_to s i NOFILE u"
    and fu: "\<forall>f. ftable u f = closed_file (ftable s f) (uses (ptable s i) NOFILE f)"
    and iu: "\<forall>ip. i_refs u ip = i_refs s ip - int (card (last_uses (ptable s i) (ftable s) NOFILE ip)) - (if p_cwd (ptable s i) = Some ip then 1 else 0)"
    and r: "kthen (kmod (upd_cur (\<lambda>x. x\<lparr>p_cwd := None\<rparr>))) (kthen (kacquire LPtable) exit_tail) u =
      (Switch Exited t :: ('a, 'z kuser_scheme) res)" by blast
  have u: "psame (ptable s) (ptable u)" "curproc u = Some i" "initproc u = initproc s" "\<forall>k<NOFILE. p_ofile (ptable u i) k = None"
    using c by (simp_all add: closed_to_def)
  let ?v = "upd_proc i (\<lambda>x. x\<lparr>p_cwd := None\<rparr>) u\<lparr>held := LPtable # held u\<rparr>"
  have v: "curproc ?v = Some i" "initproc ?v = initproc s" "initproc ?v \<noteq> Some i" using u(2,3) ini by simp_all
  have "exit_tail ?v = (Switch Exited t :: ('a, 'z kuser_scheme) res)"
    using r u(2) by (simp add: run_kthen run_kmod run_kacquire upd_cur_def split: if_splits)
  from run_exit_tail [OF this v(1,3)] obtain w x where x: "orphaned w i NPROC x" "held t = [LPtable]"
      "t = upd_proc i (\<lambda>p. p\<lparr>p_state := ZOMBIE\<rparr>) x" and w4: "initproc w = initproc ?v"
      and pw: "ptable w = woken_by (p_parent (ptable ?v i)) (ptable ?v)"
      and tv: "t = ?v\<lparr>ptable := ptable t\<rparr>"
    by blast
  have x4: "initproc w = initproc s" using w4 v(2) by simp
  have nw: "not_waiting (ptable x) q \<Longrightarrow> not_waiting (ptable t) q" for q
    by (simp add: x(3) not_waiting_def)
  have w: "p_parent (ptable w k) = p_parent (ptable s k)" "p_state (ptable w k) = ZOMBIE \<longleftrightarrow> p_state (ptable s k) = ZOMBIE"
    "p_ofile (ptable w k) = p_ofile (ptable u k)" "p_cwd (ptable w i) = None" for k
    using u(1) by (auto simp: pw psame_def)
  have q: "not_waiting (ptable w) q" if "p_parent (ptable s i) = Some q" "q < NPROC" for q
    using that u(1) by (simp add: pw psame_def not_waiting_woken_by)
  note o = x(1) [unfolded orphaned_def w x4]
  have "p_ofile (ptable x i) = p_ofile (ptable u i)" "p_cwd (ptable x i) = None" using o w(4) by simp_all
  then have 1: "p_state (ptable t i) = ZOMBIE" "\<forall>fd<NOFILE. p_ofile (ptable t i) fd = None" "p_cwd (ptable t i) = None"
    using u(4) by (simp_all add: x(3))
  have 2: "\<forall>j<NPROC. p_parent (ptable t j) = (if p_parent (ptable s j) = Some i then initproc s else p_parent (ptable s j))"
    using o by (simp add: x(3))
  have 3: "\<forall>q<NPROC. p_parent (ptable s i) = Some q \<longrightarrow> not_waiting (ptable t) q"
    using o q nw by blast
  have 4: "\<forall>j<NPROC. \<forall>n<NPROC. p_parent (ptable s j) = Some i \<and> p_state (ptable s j) = ZOMBIE \<and> initproc s = Some n \<longrightarrow>
      not_waiting (ptable t) n"
    using o nw by blast
  have "ftable t = ftable ?v" "icache t = icache ?v" by (subst tv, simp)+
  then have "ftable t = ftable u" "icache t = icache u" by (simp_all add: upd_proc_def)
  with fu iu have 5: "\<forall>f. ftable t f = closed_file (ftable s f) (uses (ptable s i) NOFILE f)"
    "\<forall>ip. i_ref (icache t ip) = i_ref (icache s ip) - int (card (last_uses (ptable s i) (ftable s) NOFILE ip)) -
      (if p_cwd (ptable s i) = Some ip then 1 else 0)" by (simp_all add: i_refs_def)
  show ?thesis using 1 2 3 4 5 x(2) by blast
qed

text \<open>A child of \<open>init\<close>, with the file 5 on inode 7 open as descriptor 0, exits while \<open>init\<close> sleeps in \<open>wait\<close>.\<close>

definition exiting :: kuser where
  "exiting = idle_kernel\<lparr>curproc := Some 2,
     ptable := (ptable idle_kernel)(0 := (ptable idle_kernel 0)\<lparr>p_state := SLEEPING, p_chan := Some (ChProc 0)\<rparr>,
       2 := (ptable idle_kernel 0)\<lparr>p_parent := Some 0, p_pid := 2, p_ofile := [0 \<mapsto> 5]\<rparr>),
     ftable := (ftable idle_kernel)(5 := (ftable idle_kernel 5)\<lparr>f_ref := 1, f_type := FD_INODE, f_ip := 7\<rparr>),
     icache := (icache idle_kernel)(0 := (icache idle_kernel 0)\<lparr>i_ref := 2\<rparr>, 7 := (icache idle_kernel 7)\<lparr>i_ref := 2\<rparr>)\<rparr>"

lemma exiting_fields [simp]: "held exiting = []" "curproc exiting = Some 2" "initproc exiting = Some 0"
  "ptable exiting 0 = blank_proc\<lparr>p_state := SLEEPING, p_pid := 1, p_cwd := Some 0, p_chan := Some (ChProc 0)\<rparr>"
  "ptable exiting 2 = blank_proc\<lparr>p_state := RUNNING, p_pid := 2, p_cwd := Some 0, p_parent := Some 0, p_ofile := [0 \<mapsto> 5]\<rparr>"
  "f_ref (ftable exiting 5) = 1" "f_type (ftable exiting 5) = FD_INODE" "f_ip (ftable exiting 5) = 7"
  "i_ref (icache exiting 0) = 2" "i_ref (icache exiting 7) = 2" "log_committing exiting = False" "log_outstanding exiting = 0" "lh_n exiting = 0"
  by (simp_all add: exiting_def)

lemma exit_tail_runs:
  assumes "curproc v = Some i" "initproc v \<noteq> Some i" "held v = [LPtable]"
  shows "\<exists>t. exit_tail v = Switch Exited t"
proof -
  let ?w = "v\<lparr>ptable := woken_by (p_parent (ptable v i)) (ptable v)\<rparr>"
  have w: "curproc ?w = Some i" "initproc ?w \<noteq> Some i" "held ?w = [LPtable]" using assms by simp_all
  from run_exit_children [OF w(1,2)] w(3) obtain x where x: "kfor [0..<NPROC] exit_child ?w = Ok () x" "orphaned ?w i NPROC x" "held x = [LPtable]"
    by metis
  have "kbind (kget (\<lambda>s. p_parent (cur s))) wakeup_proc v = Ok () ?w"
    using assms(1) by (simp add: kop_simps run_wakeup_proc cur_def)
  with x show ?thesis
    by (simp add: exit_tail_def) (simp add: kop_simps sched_def upd_cur_def orphaned_def cur_def interruptible_def)
qed

lemma kfor_idle: "(\<And>i. i \<in> set is \<Longrightarrow> f i s = Ok () s) \<Longrightarrow> kfor is f s = Ok () s"
  by (induction "is") (simp_all add: kop_simps)

lemma exiting_exits: "\<exists>t. (exit exiting :: (unit, kuser) res) = Switch Exited t"
proof -
  have "\<exists>z. exit_file 0 exiting = Ok () z \<and> held z = [] \<and> curproc z = Some 2 \<and> initproc z = Some 0 \<and> p_cwd (ptable z 2) = Some 0 \<and>
      p_ofile (ptable z 2) = Map.empty \<and> i_ref (icache z 0) = 2 \<and> \<not> log_committing z \<and> log_outstanding z = 0 \<and> lh_n z = 0"
    by (simp add: exit_file_def fileclose_def begin_op_def end_op_def commit_def iput_def upd_inode_def upd_file_def upd_cur_def upd_proc_def
        kop_simps cur_def blank_proc_def woken_def)
  then obtain z where z: "exit_file 0 exiting = Ok () z" "held z = []" "curproc z = Some 2" "initproc z = Some 0" "p_cwd (ptable z 2) = Some 0"
      "p_ofile (ptable z 2) = Map.empty" "i_ref (icache z 0) = 2" "\<not> log_committing z" "log_outstanding z = 0" "lh_n z = 0" by blast
  have "kfor [1..<NOFILE] exit_file z = Ok () z"
    by (rule kfor_idle) (simp add: exit_file_def kop_simps cur_def z)
  moreover have "[0..<NOFILE] = 0 # [1..<NOFILE]" by (simp add: upt_rec)
  ultimately have 1: "kfor [0..<NOFILE] exit_file exiting = Ok () z" using z(1) by (simp add: run_kthen del: upt_Suc)
  let ?a = "z\<lparr>log_outstanding := 1\<rparr>"
  have 2: "begin_op z = Ok () ?a" using z by (simp add: begin_op_def kop_simps)
  let ?b = "upd_inode 0 (\<lambda>x. x\<lparr>i_ref := 1\<rparr>) ?a"
  have 3: "kbind (kget (\<lambda>s. p_cwd (cur s))) (\<lambda>c. case c of Some ip \<Rightarrow> iput ip | None \<Rightarrow> kpanic ''iput: null inode'') ?a = Ok () ?b"
    using z by (simp add: kop_simps cur_def iput_def upd_inode_def)
  have "\<exists>c. end_op ?b = Ok () c \<and> held c = [] \<and> curproc c = Some 2 \<and> initproc c = Some 0"
    using z by (simp add: end_op_def commit_def kop_simps upd_inode_def)
  then obtain c where 4: "end_op ?b = Ok () c" "held c = []" "curproc c = Some 2" "initproc c = Some 0" by blast
  let ?d = "upd_cur (\<lambda>x. x\<lparr>p_cwd := None\<rparr>) c\<lparr>held := [LPtable]\<rparr>"
  have "\<exists>t. (exit_tail ?d :: (unit, kuser) res) = Switch Exited t" using 4 by (intro exit_tail_runs [of _ 2]) simp_all
  then show ?thesis unfolding exit_def using 1 2 3 4 by (simp add: run_kthen run_kassert run_kmod run_kacquire exit_tail_def del: kfor.simps)
qed

theorem exit_effect_witness:
  "\<exists>t. (exit exiting :: (unit, kuser) res) = Switch Exited t \<and> p_state (ptable t 2) = ZOMBIE \<and> not_waiting (ptable t) 0 \<and>
    f_ref (ftable t 5) = 0 \<and> f_type (ftable t 5) = FD_NONE \<and> i_ref (icache t 7) = 1 \<and> i_ref (icache t 0) = 1"
proof -
  from exiting_exits obtain t where t: "(exit exiting :: (unit, kuser) res) = Switch Exited t" by blast
  have u: "uses (ptable exiting 2) NOFILE f = (if f = 5 then 1 else 0)" for f
  proof -
    have "{fd. fd < NOFILE \<and> p_ofile (ptable exiting 2) fd = Some f} = (if f = 5 then {0} else {})" by auto
    then show ?thesis by (simp add: uses_def)
  qed
  then have l: "last_uses (ptable exiting 2) (ftable exiting) NOFILE ip = (if ip = 7 then {5} else {})" for ip
    by (auto simp: last_uses_def)
  note e = exit_effect [OF t exiting_fields(2)]
  from e have f: "\<And>f. ftable t f = closed_file (ftable exiting f) (uses (ptable exiting 2) NOFILE f)"
    and i: "\<And>ip. i_ref (icache t ip) = i_ref (icache exiting ip) - int (card (last_uses (ptable exiting 2) (ftable exiting) NOFILE ip)) -
      (if p_cwd (ptable exiting 2) = Some ip then 1 else 0)"
    and z: "p_state (ptable t 2) = ZOMBIE" "not_waiting (ptable t) 0" by simp_all
  have "f_ref (ftable t 5) = 0" "f_type (ftable t 5) = FD_NONE" unfolding f u by (simp_all add: closed_file_def)
  moreover have "i_ref (icache t 7) = 1" "i_ref (icache t 0) = 1" unfolding i l by simp_all
  ultimately show ?thesis using t z by blast
qed

end
