(* ===== verification/Args.thy ===== *)
theory Args
  imports Syscall States
begin

text \<open>
  What the system-call argument functions promise: on a process whose memory below \<open>sz\<close> is mapped they never
  fault in the kernel, and what they accept lies in that memory.
\<close>

definition user_ok :: "'z kmem_scheme \<Rightarrow> bool" where
  "user_ok s \<longleftrightarrow> p_sz (cur s) \<le> KERNBASE \<and>
     (\<forall>va<p_sz (cur s). pte_present (pte_of (mem s) (p_pgdir (cur s)) va))"

text \<open>The byte of the process at a user address.\<close>

abbreviation user_byte :: "'z kmem_scheme \<Rightarrow> nat \<Rightarrow> u8" where
  "user_byte s va \<equiv> ubyte (mem s) (p_pgdir (cur s)) va"

lemma uload_ok: "user_ok s \<Longrightarrow> va < p_sz (cur s) \<Longrightarrow> uload s va = Some (user_byte s va)"
  by (simp add: user_ok_def uload_def Let_def)

lemma uload32_ok:
  assumes "user_ok s" "va + 4 \<le> p_sz (cur s)"
  shows "uload32 s va = Some (rd32 (user_byte s) va)"
  using assms by (simp add: uload32_def uload_ok rd32_def)

lemma range_check:
  assumes "sz \<le> KERNBASE" "a < W32" "n < KERNBASE"
  shows "\<not> (a \<ge> sz \<or> (a + n) mod W32 > sz) \<longleftrightarrow> a < sz \<and> a + n \<le> sz"
proof (cases "a < sz")
  case True
  with assms have "(a + n) mod W32 = a + n" by simp
  with True show ?thesis by auto
qed simp

text \<open>
  Fetching a 32-bit word never faults: an address whose four bytes do not all lie below \<open>sz\<close> gives the error,
  also where the sum wraps around.
\<close>

lemma run_fetchint:
  assumes "user_ok s" "addr < W32"
  shows "fetchint addr s = Ok (if addr + 4 \<le> p_sz (cur s) then Some (rd32 (user_byte s) addr) else None) s"
proof -
  have "\<not> (addr \<ge> p_sz (cur s) \<or> (addr + 4) mod W32 > p_sz (cur s)) \<longleftrightarrow> addr + 4 \<le> p_sz (cur s)"
    using range_check [of "p_sz (cur s)" addr 4] assms by (auto simp: user_ok_def)
  then show ?thesis using uload32_ok [OF assms(1)] by (auto simp: fetchint_def kop_simps)
qed

definition arg_word :: "'z kuser_scheme \<Rightarrow> nat \<Rightarrow> nat option" where
  "arg_word s n = (let a = (unat (tf_esp (p_tf (cur s))) + 4 + 4 * n) mod W32 in
     if a + 4 \<le> p_sz (cur s) then Some (rd32 (user_byte s) a) else None)"

lemma run_argint: "user_ok s \<Longrightarrow> argint n s = Ok (arg_word s n) s"
  by (simp add: argint_def kop_simps run_fetchint arg_word_def Let_def)

lemma arg_word_less: "arg_word s n = Some v \<Longrightarrow> v < W32"
  by (auto simp: arg_word_def Let_def rd32_less split: if_splits)

lemma slice_Suc: "slice b d (Suc n) = b d # slice b (d + 1) n"
  by (simp add: slice_def upt_conv_Cons del: upt_Suc)

lemma run_rd_user: "user_ok s \<Longrightarrow> va + n \<le> p_sz (cur s) \<Longrightarrow> rd_user va n s = Ok (slice (user_byte s) va n) s"
proof (induction n arbitrary: va)
  case 0
  then show ?case by (simp add: kop_simps)
next
  case (Suc n)
  then show ?case by (simp add: kop_simps uload_ok slice_Suc)
qed

lemma of_int32_small: "0 \<le> i \<Longrightarrow> i < 4294967296 \<Longrightarrow> of_int32 i = nat i"
  by (simp add: of_int32_def)

text \<open>
  C11.  A pointer argument with a size is checked so that the kernel cannot be made to fault on it: \<open>argptr\<close> returns
  the pointer, in an unchanged state, exactly when the argument itself can be fetched, the pointer lies below \<open>sz\<close> and
  the whole buffer ends at or below \<open>sz\<close>; the kernel then reads all of the buffer without a page fault.
\<close>

theorem argptr_safe:
  assumes "user_ok s" "0 \<le> sz" "sz < 2147483648"
  shows "argptr n sz s =
      Ok (case arg_word s n of
            Some p \<Rightarrow> if p < p_sz (cur s) \<and> p + nat sz \<le> p_sz (cur s) then Some p else None
          | None \<Rightarrow> None) s \<and>
    (\<forall>p. argptr n sz s = Ok (Some p) s \<longrightarrow> rd_user p (nat sz) s = Ok (slice (user_byte s) p (nat sz)) s)"
proof -
  have check: "\<not> (p \<ge> p_sz (cur s) \<or> (p + of_int32 sz) mod W32 > p_sz (cur s)) \<longleftrightarrow> p < p_sz (cur s) \<and> p + nat sz \<le> p_sz (cur s)"
    if "p < W32" for p
    using range_check [of "p_sz (cur s)" p "nat sz"] assms that by (simp add: user_ok_def of_int32_small)
  have eq: "argptr n sz s = Ok (case arg_word s n of
      Some p \<Rightarrow> if p < p_sz (cur s) \<and> p + nat sz \<le> p_sz (cur s) then Some p else None | None \<Rightarrow> None) s"
  proof (cases "arg_word s n")
    case None
    then show ?thesis by (simp add: argptr_def kop_simps run_argint [OF assms(1)])
  next
    case (Some p)
    with check [OF arg_word_less [OF Some]] show ?thesis
      by (auto simp: argptr_def kop_simps run_argint [OF assms(1)])
  qed
  moreover have "rd_user p (nat sz) s = Ok (slice (user_byte s) p (nat sz)) s" if "argptr n sz s = Ok (Some p) s" for p
    using that eq run_rd_user [OF assms(1)] by (auto split: option.splits if_splits)
  ultimately show ?thesis by blast
qed

text \<open>The string at an address: its bytes up to the first zero, if there is one below \<open>sz\<close>.\<close>

lemma run_fetchstr_loop:
  assumes "user_ok s" "a \<le> p_sz (cur s)"
  shows "fetchstr_loop a (p_sz (cur s)) acc s =
    Ok (let bs = slice (user_byte s) a (p_sz (cur s) - a) in
        if 0 \<in> set bs then Some (acc @ takeWhile (\<lambda>c. c \<noteq> 0) bs) else None) s"
  using assms(2)
proof (induction "p_sz (cur s) - a" arbitrary: a acc)
  case 0
  then show ?case by (simp add: fetchstr_loop.simps kop_simps)
next
  case (Suc k)
  then have lt: "a < p_sz (cur s)" by simp
  have sl: "slice (user_byte s) a (p_sz (cur s) - a) = user_byte s a # slice (user_byte s) (a + 1) (p_sz (cur s) - (a + 1))"
    using lt slice_Suc [of "user_byte s" a "p_sz (cur s) - (a + 1)"] by (simp add: Suc_diff_Suc)
  have "fetchstr_loop a (p_sz (cur s)) acc s = (if user_byte s a = 0 then Ok (Some acc) s
      else fetchstr_loop (a + 1) (p_sz (cur s)) (acc @ [user_byte s a]) s)"
    using lt by (simp add: fetchstr_loop.simps [of a] kop_simps uload_ok [OF assms(1)])
  also have "\<dots> = Ok (let bs = slice (user_byte s) a (p_sz (cur s) - a) in
        if 0 \<in> set bs then Some (acc @ takeWhile (\<lambda>c. c \<noteq> 0) bs) else None) s"
    unfolding sl using Suc.hyps(1) [of "a + 1"] Suc.hyps(2) lt by (auto simp: Let_def)
  finally show ?case .
qed

text \<open>
  C12.  A string argument never faults either: \<open>argstr\<close> returns the bytes from the pointer up to the first zero if there is a
  zero below \<open>sz\<close>, and the error otherwise, for an argument that cannot be fetched and for a string that runs up to
  the end of the process's memory.
\<close>

theorem argstr_safe:
  assumes "user_ok s"
  shows "argstr n s =
    Ok (case arg_word s n of
          None \<Rightarrow> None
        | Some a \<Rightarrow>
            let bs = slice (user_byte s) a (p_sz (cur s) - a) in
            if 0 \<in> set bs then Some (takeWhile (\<lambda>c. c \<noteq> 0) bs) else None) s"
proof (cases "arg_word s n")
  case None
  then show ?thesis by (simp add: argstr_def kop_simps run_argint [OF assms])
next
  case (Some a)
  then show ?thesis
    using run_fetchstr_loop [OF assms, of a "[]"]
    by (cases "a < p_sz (cur s)") (simp_all add: argstr_def fetchstr_def kop_simps run_argint [OF assms] Let_def)
qed

text \<open>
  C15.  With a negative size the check of \<open>argptr\<close> wraps around: a size of \<open>-k\<close> is accepted for every pointer
  from \<open>k\<close> up to \<open>sz\<close>, because the 32-bit sum is the pointer less \<open>k\<close>.
\<close>

theorem argptr_negative_size:
  assumes "user_ok s" "arg_word s n = Some p" "p < p_sz (cur s)" "0 < k" "k \<le> p"
  shows "argptr n (- int k) s = Ok (Some p) s"
proof -
  have p: "p < W32" by (rule arg_word_less [OF assms(2)])
  with assms(5) have "(- int k) mod 4294967296 = 4294967296 - int k"
    using assms(4) by (subst zmod_zminus1_eq_if) auto
  then have "of_int32 (- int k) = W32 - k" using p assms(5) by (simp add: of_int32_def)
  then have "(p + of_int32 (- int k)) mod W32 = (p - k + W32) mod W32" using p assms(5) by simp
  also have "\<dots> = p - k" using p unfolding mod_add_self2 by simp
  finally have "(p + of_int32 (- int k)) mod W32 = p - k" .
  then show ?thesis using assms by (simp add: argptr_def kop_simps run_argint [OF assms(1)])
qed

text \<open>
  A process with one page of memory: the argument words start at 20, the first one is the address 100, and there the
  string "hi" is stored.
\<close>

definition calling :: kuser where
  "calling = idle_kernel\<lparr>
     ptable := (ptable idle_kernel)(0 := (ptable idle_kernel 0)\<lparr>p_sz := 4096, p_pgdir := 0x80300000, p_tf := zero_tf\<lparr>tf_esp := 16\<rparr>\<rparr>),
     mem := (\<lambda>_ _. 0)(0x80300000 := wr32 (\<lambda>_. 0) 0 0x301007, 0x80301000 := wr32 (\<lambda>_. 0) 0 0x302007,
       0x80302000 := (\<lambda>_. 0)(20 := 100, 100 := 104, 101 := 105))\<rparr>"

lemma calling_fields: "p_sz (cur calling) = 4096" "p_pgdir (cur calling) = 0x80300000" "tf_esp (p_tf (cur calling)) = 16"
  "mem calling = (\<lambda>_ _. 0)(0x80300000 := wr32 (\<lambda>_. 0) 0 0x301007, 0x80301000 := wr32 (\<lambda>_. 0) 0 0x302007,
       0x80302000 := (\<lambda>_. 0)(20 := 100, 100 := 104, 101 := 105))"
  by (simp_all add: calling_def cur_def)

lemma calling_pte: "va < 4096 \<Longrightarrow> pte_of (mem calling) 0x80300000 va = 0x302007"
proof -
  assume "va < 4096"
  then have i: "PDX va = 0" "PTX va = 0" by (simp_all add: PDX_def PTX_def)
  have "pde_of (mem calling) 0x80300000 0 = 0x301007" by (simp add: pde_of_def calling_fields(4))
  moreover have "p2v (PTE_ADDR 0x301007) = 0x80301000" by (simp add: PTE_ADDR_def p2v_def)
  moreover have "rd32 (mem calling 0x80301000) (4 * 0) = 0x302007" by (simp add: calling_fields(4))
  ultimately show ?thesis unfolding pte_of_def tbl_def i by simp
qed

lemma calling_byte: "va < 4096 \<Longrightarrow> user_byte calling va = ((\<lambda>_. 0)(20 := 100, 100 := 104, 101 := 105)) va"
proof -
  assume "va < 4096"
  moreover have "p2v (PTE_ADDR 0x302007) = 0x80302000" by (simp add: PTE_ADDR_def p2v_def)
  ultimately show ?thesis by (simp only: ubyte_def upage_def calling_fields(2) calling_pte) (simp add: calling_fields(4))
qed

lemma calling_ok: "user_ok calling" "arg_word calling 0 = Some 100"
proof -
  show "user_ok calling"
    unfolding user_ok_def calling_fields(1,2) using calling_pte by simp
  show "arg_word calling 0 = Some 100"
  proof -
    have "user_byte calling 20 = 100" "user_byte calling 21 = 0" "user_byte calling 22 = 0" "user_byte calling 23 = 0"
      by (simp_all only: calling_byte) simp_all
    then have "rd32 (user_byte calling) 20 = 100" unfolding rd32_def by simp
    moreover have "(unat (tf_esp (p_tf (cur calling))) + 4 + 4 * 0) mod W32 = 20" by (simp add: calling_fields(3))
    ultimately show ?thesis unfolding arg_word_def calling_fields(1) Let_def by simp
  qed
qed

theorem argptr_safe_witness: "argptr 0 12 calling = Ok (Some 100) calling"
  using argptr_safe [THEN conjunct1, of calling 12 0] calling_ok by (simp add: calling_fields(1))

theorem argstr_safe_witness: "argstr 0 calling = Ok (Some [104, 105]) calling"
proof -
  have "slice (user_byte calling) 100 3996 = [104, 105, 0] @ slice (user_byte calling) 103 3993"
    using slice_add [of "user_byte calling" 100 3 3993] calling_byte [of 100] calling_byte [of 101] calling_byte [of 102]
    by (simp add: numeral_3_eq_3 slice_Suc)
  then show ?thesis using argstr_safe [of calling 0] calling_ok by (simp add: calling_fields(1))
qed

theorem argptr_negative_size_witness: "argptr 0 (- int 1) calling = Ok (Some 100) calling"
  using argptr_negative_size [of calling 0 100 1] calling_ok by (simp add: calling_fields(1))

end
