(* ===== verification/Family.thy ===== *)
theory Family
  imports Life Args
begin

text \<open>
  \<open>wait\<close> and \<open>fork\<close>: the resources of a process, its kernel stack and its address space, go back to the free list when it is
  reaped, and a forked process is a copy of its parent.  Both rest on the specifications of the page allocator and of the
  page tables.
\<close>

section \<open>wait\<close>

text \<open>The child \<open>j\<close> that \<open>wait\<close> reaps has its own kernel stack and an address space in order.\<close>

definition reapable :: "'z kmem_scheme \<Rightarrow> nat \<Rightarrow> nat list \<Rightarrow> bool" where
  "reapable s j F \<longleftrightarrow> as_inv s (p_pgdir (ptable s j)) F \<and> p_pgdir (ptable s j) \<noteq> 0 \<and> kpage s (p_kstack (ptable s j)) \<and>
     p_kstack (ptable s j) \<notin> set F \<union> as_pages (mem s) (p_pgdir (ptable s j))"

definition unused_slot :: "proc \<Rightarrow> proc" where
  "unused_slot p = p\<lparr>p_kstack := 0, p_state := UNUSED, p_pid := 0, p_parent := None, p_name := [], p_killed := False\<rparr>"

lemma run_reap:
  fixes s :: "'z kuser_scheme"
  assumes r: "reapable s j F" and ready: "kmem_ready s"
  shows "\<exists>t F'. reap j s = Ok (p_pid (ptable s j)) t \<and> ptable t = (ptable s)(j := unused_slot (ptable s j)) \<and>
    free_pages t F' \<and> set F' = set F \<union> as_pages (mem s) (p_pgdir (ptable s j)) \<union> {p_kstack (ptable s j)} \<and>
    held t = held s \<and> curproc t = curproc s \<and> icache t = icache s \<and> ftable t = ftable s"
proof -
  let ?p = "ptable s j"
  let ?d = "p_pgdir ?p" and ?k = "p_kstack ?p"
  have inv: "as_inv s ?d F" and k: "kpage s ?k" "?k \<notin> set F" "?k \<notin> as_pages (mem s) ?d" "?d \<noteq> 0"
    using r by (simp_all add: reapable_def)
  have fp: "free_pages s F" using inv by (simp add: as_inv_def vm_inv_def)
  from kfree_pushes [OF fp ready k(1,2)] obtain t1 where 1: "kfree ?k s = Ok () t1" "free_pages t1 (?k # F)"
      "\<forall>u. u \<noteq> ?k \<longrightarrow> mem t1 u = mem s u" "kmem_frame s t1" by blast
  note e1 = kmem_frame_eqs [OF 1(4)]
  let ?t2 = "upd_proc j (\<lambda>x. x\<lparr>p_kstack := 0\<rparr>) t1"
  have m2: "mem ?t2 = mem t1" "freelist ?t2 = freelist t1" "kend ?t2 = kend t1" "kmem_ready ?t2 = kmem_ready t1"
    by (simp_all add: upd_proc_def kmem_ready_def)
  have f2: "free_pages ?t2 (?k # F)" by (rule free_pages_state [OF 1(2) m2(1,2,3)])
  have same: "mem ?t2 u = mem s u \<and> u \<notin> set (?k # F)" if "u \<in> as_pages (mem s) ?d" for u
  proof -
    from that k(3) have "u \<noteq> ?k" by auto
    with 1(3) as_inv_pages [OF inv that] show ?thesis unfolding m2(1) by simp
  qed
  have kp: "kpage ?t2 = kpage t1" by (intro ext) (simp add: kpage_def m2(3))
  have rd: "kmem_ready ?t2" using ready by (simp add: m2(4) e1(7))
  have inv2: "as_inv ?t2 ?d (?k # F)" "as_pages (mem ?t2) ?d = as_pages (mem s) ?d"
    by (rule as_inv_other [OF inv f2 rd trans [OF kp e1(8)]], erule same)+
  from freevm_spec [OF inv2(1) k(4)] obtain t3 F' where 3: "freevm ?d ?t2 = Ok () t3" "free_pages t3 F'"
      "set F' = set (?k # F) \<union> as_pages (mem s) ?d" "kmem_frame ?t2 t3" unfolding inv2(2) by blast
  note e3 = kmem_frame_eqs [OF 3(4)]
  let ?t4 = "upd_proc j (\<lambda>x. x\<lparr>p_state := UNUSED, p_pid := 0, p_parent := None, p_name := [], p_killed := False\<rparr>) t3"
  have "reap j s = Ok (p_pid ?p) ?t4" using 1(1) 3(1) by (simp add: reap_def kop_simps)
  moreover have "ptable ?t4 = (ptable s)(j := unused_slot ?p)" by (simp add: e3 e1 unused_slot_def)
  moreover have "free_pages ?t4 F'" by (rule free_pages_state [OF 3(2)]) (simp_all add: upd_proc_def)
  moreover have "icache ?t4 = icache s \<and> ftable ?t4 = ftable s \<and> held ?t4 = held s \<and> curproc ?t4 = curproc s"
    using 1(4) 3(4) by (auto simp: kmem_frame_def upd_proc_def)
  ultimately show ?thesis using 3(3) by (intro exI [of _ ?t4] exI [of _ F']) auto
qed

text \<open>
  C4.  \<open>wait\<close> with a zombie child returns the pid of the first one, frees its slot in the process table and changes no other
  slot.  The free list afterwards holds, besides what it held, the child's kernel stack and every page of the child's address
  space, each once; no lock is held.
\<close>

theorem wait_reaps:
  fixes s :: "'z kuser_scheme"
  assumes "held s = []"
    and z: "find (\<lambda>i. p_parent (ptable s i) = curproc s \<and> p_state (ptable s i) = ZOMBIE) [0..<NPROC] = Some j"
    and r: "reapable s j F"
  shows "\<exists>t F'. wait s = Ok (p_pid (ptable s j)) t \<and> ptable t = (ptable s)(j := unused_slot (ptable s j)) \<and> held t = [] \<and>
    free_pages t F' \<and> set F' = set F \<union> as_pages (mem s) (p_pgdir (ptable s j)) \<union> {p_kstack (ptable s j)}"
proof -
  let ?s = "s\<lparr>held := [LPtable]\<rparr>"
  have "reapable ?s j F"
    using r as_inv_state [of s "p_pgdir (ptable s j)" F ?s] by (auto simp: reapable_def kpage_def kmem_ready_def)
  from run_reap [OF this] obtain t F' where t: "reap j ?s = Ok (p_pid (ptable s j)) t"
      "ptable t = (ptable s)(j := unused_slot (ptable s j))" "free_pages t F'"
      "set F' = set F \<union> as_pages (mem s) (p_pgdir (ptable s j)) \<union> {p_kstack (ptable s j)}" "held t = [LPtable]"
    by (auto simp: kmem_ready_def)
  have "wait s = Ok (p_pid (ptable s j)) (t\<lparr>held := []\<rparr>)"
    using assms(1) z t by (simp add: wait_def wait_loop_def run_kthen run_kacquire run_kbind run_kget run_krelease run_kret)
  moreover have "free_pages (t\<lparr>held := []\<rparr>) F'" by (rule free_pages_state [OF t(3)]) simp_all
  ultimately show ?thesis using t by (intro exI [of _ "t\<lparr>held := []\<rparr>"] exI [of _ F']) simp
qed

lemma run_sleep_ptable:
  assumes "curproc s = Some i" and "held s = [LPtable]"
  shows "sleep ch LPtable s = Switch (Asleep ch) (s\<lparr>ptable := (ptable s)(i := go_to_sleep ch (ptable s i))\<rparr>)"
  using assms
  by (simp add: sleep_def sleep_enter_def sched_def kop_simps upd_cur_def upd_proc_def cur_def go_to_sleep_def interruptible_def)

text \<open>
  C14.  \<open>wait\<close> without a zombie child changes nothing and returns -1 when there is no child at all or the process was killed;
  otherwise the process goes to sleep on its own entry of the table, the channel on which \<open>exit\<close> wakes it.
\<close>

theorem wait_without_zombie:
  assumes "held s = []" and "curproc s = Some i"
    and z: "\<forall>j<NPROC. \<not> (p_parent (ptable s j) = Some i \<and> p_state (ptable s j) = ZOMBIE)"
  shows "wait s =
    (if (\<forall>j<NPROC. p_parent (ptable s j) \<noteq> Some i) \<or> p_killed (ptable s i) then Ok (-1) s
     else Switch (Asleep (ChProc i)) (s\<lparr>held := [LPtable],
       ptable := (ptable s)(i := (ptable s i)\<lparr>p_chan := Some (ChProc i), p_state := SLEEPING\<rparr>)\<rparr>))"
proof -
  have n: "find (\<lambda>j. p_parent (ptable s j) = Some i \<and> p_state (ptable s j) = ZOMBIE) [0..<NPROC] = None"
    using z by (simp add: find_upt_None)
  have c: "find (\<lambda>j. p_parent (ptable s j) = Some i) [0..<NPROC] = None \<longleftrightarrow> (\<forall>j<NPROC. p_parent (ptable s j) \<noteq> Some i)"
    by (simp add: find_upt_None)
  from assms(1,2) n c show ?thesis
    by (simp add: wait_def wait_loop_def kop_simps cur_def run_sleep_ptable [where i = i] go_to_sleep_def)
qed

section \<open>fork\<close>

text \<open>The state after the first \<open>k\<close> rounds of the loop that shares the open files with the child \<open>np\<close>.\<close>

definition dup_ofile :: "proc \<Rightarrow> nat \<Rightarrow> proc \<Rightarrow> proc" where
  "dup_ofile p k c = c\<lparr>p_ofile := (\<lambda>fd. if fd < k \<and> p_ofile p fd \<noteq> None then p_ofile p fd else p_ofile c fd)\<rparr>"

definition dup_refs :: "proc \<Rightarrow> nat \<Rightarrow> (nat \<Rightarrow> file_struct) \<Rightarrow> nat \<Rightarrow> file_struct" where
  "dup_refs p k ft = (\<lambda>f. (ft f)\<lparr>f_ref := f_ref (ft f) + int (card {fd. fd < k \<and> p_ofile p fd = Some f})\<rparr>)"

lemma dup_refs_0 [simp]: "dup_refs p 0 ft = ft"
  by (simp add: dup_refs_def)

lemma dup_ofile_0 [simp]: "dup_ofile p 0 c = c"
  by (simp add: dup_ofile_def)

lemma dup_ofile_fields [simp]: "p_pid (dup_ofile p k c) = p_pid c" "p_pgdir (dup_ofile p k c) = p_pgdir c"
  "p_sz (dup_ofile p k c) = p_sz c" "p_parent (dup_ofile p k c) = p_parent c" "p_tf (dup_ofile p k c) = p_tf c"
  by (simp_all add: dup_ofile_def)

lemma dup_set_Suc: "{fd. fd < Suc k \<and> p_ofile p fd = Some f} =
    (if p_ofile p k = Some f then insert k {fd. fd < k \<and> p_ofile p fd = Some f} else {fd. fd < k \<and> p_ofile p fd = Some f})"
  by (auto simp: less_Suc_eq)

lemma dup_refs_Suc:
  "dup_refs p (Suc k) ft = (case p_ofile p k of None \<Rightarrow> dup_refs p k ft
     | Some f \<Rightarrow> (dup_refs p k ft)(f := (dup_refs p k ft f)\<lparr>f_ref := f_ref (dup_refs p k ft f) + 1\<rparr>))"
  by (auto simp: dup_refs_def dup_set_Suc fun_eq_iff split: option.splits)

lemma dup_ofile_Suc:
  "dup_ofile p (Suc k) c = (case p_ofile p k of None \<Rightarrow> dup_ofile p k c
     | Some f \<Rightarrow> (dup_ofile p k c)\<lparr>p_ofile := (p_ofile (dup_ofile p k c))(k \<mapsto> f)\<rparr>)"
  by (auto simp: dup_ofile_def fun_eq_iff less_Suc_eq split: option.splits)

lemma run_fork_files:
  fixes u :: "'z kuser_scheme"
  assumes u: "held u = []" "curproc u = Some i" "i \<noteq> np"
    and refs: "\<And>fd f. p_ofile (ptable u i) fd = Some f \<Longrightarrow> 1 \<le> f_ref (ftable u f)"
  shows "kfor [0..<k] (fork_file np) u = Ok () (u\<lparr>ftable := dup_refs (ptable u i) k (ftable u),
    ptable := (ptable u)(np := dup_ofile (ptable u i) k (ptable u np))\<rparr>)"
proof (induction k)
  case 0
  then show ?case by (simp add: kop_simps)
next
  case (Suc k)
  let ?p = "ptable u i"
  let ?t = "\<lambda>k. u\<lparr>ftable := dup_refs ?p k (ftable u), ptable := (ptable u)(np := dup_ofile ?p k (ptable u np))\<rparr>"
  have cur: "cur (?t k) = ?p" using u by (simp add: cur_def)
  have "fork_file np k (?t k) = Ok () (?t (Suc k))"
  proof (cases "p_ofile ?p k")
    case None
    with cur show ?thesis by (simp add: fork_file_def kop_simps dup_refs_Suc dup_ofile_Suc)
  next
    case (Some f)
    have "1 \<le> f_ref (dup_refs ?p k (ftable u) f)" using refs [OF Some] by (simp add: dup_refs_def)
    then have "filedup f (?t k) = Ok f (upd_file f (\<lambda>x. x\<lparr>f_ref := f_ref x + 1\<rparr>) (?t k))"
      using u by (simp add: filedup_def kop_simps upd_file_def)
    with Some cur show ?thesis
      by (simp add: fork_file_def kop_simps dup_refs_Suc dup_ofile_Suc upd_file_def upd_proc_def)
  qed
  moreover have "kfor [0..<k] (fork_file np) u = Ok () (?t k)" by (fact Suc)
  ultimately have "kfor [0..<Suc k] (fork_file np) u = Ok () (?t (Suc k))" by (simp add: kfor_append kop_simps)
  then show ?case .
qed

text \<open>\<open>allocproc\<close> with a free slot and a free page.\<close>

definition embryo :: "nat \<Rightarrow> 'z kuser_scheme \<Rightarrow> proc \<Rightarrow> proc" where
  "embryo k s p = p\<lparr>p_state := EMBRYO, p_pid := nextpid s, p_kstack := k, p_context := zero_context\<lparr>cx_eip := sym_forkret s\<rparr>\<rparr>"

lemma run_allocproc:
  fixes s :: "'z kuser_scheme"
  assumes h: "held s = []" and slot: "find (\<lambda>i. p_state (ptable s i) = UNUSED) [0..<NPROC] = Some np"
    and fp: "free_pages s (k # F)"
  shows "allocproc s = Ok (Some np) (s\<lparr>held := [], nextpid := nextpid s + 1, ptable := (ptable s)(np := embryo k s (ptable s np)),
      freelist := rd32 (mem s k) 0, mem := (mem s)(k := wr32 (mem s k) (KSTACKSIZE - 76 - 4) (unat (sym_trapret s)))\<rparr>)"
proof -
  have k: "freelist s = k" "k \<noteq> 0" using fp by (auto simp: free_pages_def kpage_def)
  show ?thesis
    using h slot k by (simp add: allocproc_def kop_simps kmem_ready_def upd_proc_def embryo_def)
qed

text \<open>What \<open>fork\<close> does after \<open>copyuvm\<close> returned a directory \<open>d\<close>.\<close>

definition fork_child :: "proc \<Rightarrow> nat \<Rightarrow> nat \<Rightarrow> nat \<Rightarrow> proc \<Rightarrow> proc" where
  "fork_child p i ip d c =
     (dup_ofile p NOFILE (c\<lparr>p_pgdir := d, p_sz := p_sz p, p_parent := Some i, p_tf := (p_tf p)\<lparr>tf_eax := 0\<rparr>\<rparr>))
       \<lparr>p_cwd := Some ip, p_name := safe_name 16 (p_name p), p_state := RUNNABLE\<rparr>"

definition fork_rest :: "nat \<Rightarrow> proc \<Rightarrow> nat \<Rightarrow> (int, 'z kuser_scheme) kop" where
  "fork_rest np p d =
     kthen (kmod (upd_proc np (\<lambda>x. x\<lparr>p_pgdir := d\<rparr>)))
         (if d = 0 then
            kthen (kbind (kget (\<lambda>s. p_kstack (ptable s np))) kfree)
           (kthen (kmod (upd_proc np (\<lambda>x. x\<lparr>p_kstack := 0, p_state := UNUSED\<rparr>)))
                  (kret (-1)))
          else
            kthen (kmod (\<lambda>s. upd_proc np (\<lambda>x. x\<lparr>p_sz := p_sz p, p_parent := curproc s, p_tf := (p_tf p)\<lparr>tf_eax := 0\<rparr>\<rparr>) s))
           (kthen (kfor [0..<NOFILE] (fork_file np))
           (kbind (case p_cwd p of Some ip \<Rightarrow> idup ip | None \<Rightarrow> kpanic ''idup: null inode'') (\<lambda>c.
            kthen (kmod (upd_proc np (\<lambda>x. x\<lparr>p_cwd := Some c, p_name := safe_name 16 (p_name p)\<rparr>)))
           (kbind (kget (\<lambda>s. p_pid (ptable s np))) (\<lambda>pid.
            kthen (kacquire LPtable)
           (kthen (kmod (upd_proc np (\<lambda>x. x\<lparr>p_state := RUNNABLE\<rparr>)))
           (kthen (krelease LPtable)
                  (kret pid)))))))))"

lemma fork_eq: "fork = kbind allocproc (\<lambda>r. case r of None \<Rightarrow> kret (-1) | Some np \<Rightarrow>
     kbind (kget cur) (\<lambda>p. kbind (copyuvm (p_pgdir p) (p_sz p)) (fork_rest np p)))"
  unfolding fork_def fork_rest_def ..

lemma run_fork_rest:
  fixes u :: "'z kuser_scheme"
  assumes u: "held u = []" "curproc u = Some i" "i \<noteq> np" "d \<noteq> 0" and p: "ptable u i = p" "p_cwd p = Some ip"
    and refs: "\<And>fd f. p_ofile p fd = Some f \<Longrightarrow> 1 \<le> f_ref (ftable u f)"
  shows "fork_rest np p d u = Ok (p_pid (ptable u np)) (u\<lparr>ftable := dup_refs p NOFILE (ftable u),
    ptable := (ptable u)(np := fork_child p i ip d (ptable u np)),
    icache := (icache u)(ip := (icache u ip)\<lparr>i_ref := i_ref (icache u ip) + 1\<rparr>)\<rparr>)"
proof -
  let ?c = "(ptable u np)\<lparr>p_pgdir := d, p_sz := p_sz p, p_parent := Some i, p_tf := (p_tf p)\<lparr>tf_eax := 0\<rparr>\<rparr>"
  let ?w = "u\<lparr>ptable := (ptable u)(np := ?c)\<rparr>"
  have w: "kfor [0..<NOFILE] (fork_file np) ?w = Ok () (?w\<lparr>ftable := dup_refs p NOFILE (ftable u),
      ptable := (ptable ?w)(np := dup_ofile p NOFILE ?c)\<rparr>)"
    using run_fork_files [of ?w i np NOFILE] u p refs by simp
  show ?thesis
    unfolding fork_rest_def using u p w
    by (simp add: kop_simps upd_proc_def idup_def upd_inode_def fork_child_def)
qed

text \<open>
  The child in the slot \<open>np\<close> of \<open>t\<close> is a copy of the process \<open>i\<close> as it was in \<open>s\<close>: the same memory in pages of its own, the same
  registers but for the return value 0, the same open files, working directory and name.
\<close>

definition copy_of :: "'z kuser_scheme \<Rightarrow> nat \<Rightarrow> 'z kuser_scheme \<Rightarrow> nat \<Rightarrow> bool" where
  "copy_of s i t np \<longleftrightarrow>
     (let p = ptable s i; c = ptable t np in
      p_state c = RUNNABLE \<and> p_pid c = nextpid s \<and> p_parent c = Some i \<and> p_sz c = p_sz p \<and> p_tf c = (p_tf p)\<lparr>tf_eax := 0\<rparr> \<and>
      (\<forall>fd<NOFILE. p_ofile p fd \<noteq> None \<longrightarrow> p_ofile c fd = p_ofile p fd) \<and> p_cwd c = p_cwd p \<and> p_name c = safe_name 16 (p_name p) \<and>
      (\<forall>va<p_sz p. ubyte (mem t) (p_pgdir c) va = ubyte (mem s) (p_pgdir p) va \<and>
        PTE_FLAGS (pte_of (mem t) (p_pgdir c) va) = PTE_FLAGS (pte_of (mem s) (p_pgdir p) va)) \<and>
      as_pages (mem t) (p_pgdir c) \<inter> as_pages (mem t) (p_pgdir p) = {} \<and> (\<exists>F. as_inv t (p_pgdir c) F))"

text \<open>The conditions under which the process \<open>i\<close> forks into the free slot \<open>np\<close>.\<close>

definition can_fork :: "'z kuser_scheme \<Rightarrow> nat \<Rightarrow> nat \<Rightarrow> nat list \<Rightarrow> bool" where
  "can_fork s i np F \<longleftrightarrow>
     held s = [] \<and> curproc s = Some i \<and> p_state (ptable s i) \<noteq> UNUSED \<and>
     find (\<lambda>j. p_state (ptable s j) = UNUSED) [0..<NPROC] = Some np \<and> p_cwd (ptable s i) \<noteq> None \<and>
     as_inv s (p_pgdir (ptable s i)) F \<and> F \<noteq> [] \<and> link_ok s \<and> p_sz (ptable s i) \<le> KERNBASE \<and>
     (\<forall>va<p_sz (ptable s i). pte_present (pte_of (mem s) (p_pgdir (ptable s i)) va)) \<and>
     (\<forall>fd f. p_ofile (ptable s i) fd = Some f \<longrightarrow> 1 \<le> f_ref (ftable s f))"

text \<open>\<open>allocproc\<close> leaves the parent's address space in order.\<close>

lemma fork_alloc:
  fixes s :: "'z kuser_scheme"
  assumes c: "can_fork s i np (k # F)"
  shows "\<exists>s1. allocproc s = Ok (Some np) s1 \<and> as_inv s1 (p_pgdir (ptable s i)) F \<and> link_ok s1 \<and> held s1 = [] \<and> curproc s1 = Some i \<and>
    ptable s1 = (ptable s)(np := embryo k s (ptable s np)) \<and> ftable s1 = ftable s \<and> icache s1 = icache s \<and> kpage s1 k \<and>
    (\<forall>u\<in>as_pages (mem s) (p_pgdir (ptable s i)). mem s1 u = mem s u)"
proof -
  let ?d = "p_pgdir (ptable s i)"
  have inv: "as_inv s ?d (k # F)" using c by (simp add: can_fork_def)
  then have fp: "free_pages s (k # F)" by (simp add: as_inv_def vm_inv_def)
  let ?s1 = "s\<lparr>held := [], nextpid := nextpid s + 1, ptable := (ptable s)(np := embryo k s (ptable s np)),
      freelist := rd32 (mem s k) 0, mem := (mem s)(k := wr32 (mem s k) (KSTACKSIZE - 76 - 4) (unat (sym_trapret s)))\<rparr>"
  have a: "allocproc s = Ok (Some np) ?s1" using c by (intro run_allocproc [OF _ _ fp]) (simp_all add: can_fork_def)
  have kp: "kpage ?s1 = kpage s" by (intro ext) (simp add: kpage_def)
  have f1: "free_pages ?s1 F" using fp by (auto simp: free_pages_def kpage_def)
  have same: "mem ?s1 u = mem s u \<and> u \<notin> set F" if "u \<in> as_pages (mem s) ?d" for u
    using as_inv_pages [OF inv that] by auto
  have "as_inv ?s1 ?d F"
    by (rule as_inv_other(1) [OF inv f1 _ kp], simp add: kmem_ready_def, erule same)
  moreover have "kpage ?s1 k" using fp by (simp add: free_pages_def kpage_def)
  moreover have "link_ok ?s1" "curproc ?s1 = Some i" using c by (simp_all add: can_fork_def link_ok_def)
  moreover have "\<forall>u\<in>as_pages (mem s) ?d. mem ?s1 u = mem s u" using same by blast
  ultimately show ?thesis using a by (intro exI [of _ ?s1]) simp
qed

lemma copied_memory:
  assumes cp: "copy_pre (mem s1) p t d F j" and sz: "sz \<le> j" "sz \<le> KERNBASE"
    and same: "\<forall>u\<in>as_pages (mem s) p. mem s1 u = mem s u" and prs: "\<forall>va. va < sz \<longrightarrow> pte_present (pte_of (mem s) p va)"
  shows "va < sz \<Longrightarrow> ubyte (mem t) d va = ubyte (mem s) p va \<and> PTE_FLAGS (pte_of (mem t) d va) = PTE_FLAGS (pte_of (mem s) p va)"
    and "as_pages (mem t) d \<inter> as_pages (mem t) p = {}"
proof -
  have pt1: "pte_of (mem s1) p = pte_of (mem s) p" by (rule pt_cong) (use same in \<open>simp add: as_pages_def\<close>)
  have ap1: "as_pages (mem s1) p = as_pages (mem s) p" by (rule as_pages_cong) (use same in \<open>simp add: as_pages_def\<close>)
  have keep: "\<forall>u\<in>as_pages (mem s1) p. mem t u = mem s1 u \<and> u \<notin> as_pages (mem t) d" and cd: "copied (mem s1) p t d j"
    using cp by (auto simp: copy_pre_def)
  have "as_pages (mem t) p = as_pages (mem s1) p" by (rule as_pages_cong) (use keep in \<open>simp add: as_pages_def\<close>)
  with keep show "as_pages (mem t) d \<inter> as_pages (mem t) p = {}" by auto
  assume va: "va < sz"
  with prs sz have "upage (mem s) p va \<in> as_pages (mem s) p" by (auto simp: as_pages_def upages_def)
  with same have "mem s1 (upage (mem s) p va) = mem s (upage (mem s) p va)" by blast
  moreover have "upage (mem s1) p va = upage (mem s) p va" by (simp add: upage_def pt1)
  ultimately show "ubyte (mem t) d va = ubyte (mem s) p va \<and> PTE_FLAGS (pte_of (mem t) d va) = PTE_FLAGS (pte_of (mem s) p va)"
    using cd va sz(1) by (simp add: copied_def ubyte_def pt1)
qed


section \<open>A process with one page\<close>

text \<open>The process of \<open>calling\<close>, with one free page; its kernel stack is at \<open>0x80304000\<close>.\<close>

definition forking :: kuser where
  "forking = calling\<lparr>freelist := 0x80303000, kend := 0x80300000, kdata := 0x80200000,
     ptable := (ptable calling)(2 := (ptable calling 0)\<lparr>p_state := ZOMBIE, p_parent := Some 0, p_pid := 7, p_kstack := 0x80304000\<rparr>)\<rparr>"

lemma forking_mem: "mem forking = mem calling" "p_pgdir (ptable forking 0) = 0x80300000" "p_pgdir (ptable forking 2) = 0x80300000"
  "p_sz (ptable forking 0) = 4096" "held forking = []" "curproc forking = Some 0" "freelist forking = 0x80303000"
  "kend forking = 0x80300000" "kdata forking = 0x80200000" "p_state (ptable forking 0) = RUNNING" "p_cwd (ptable forking 0) = Some 0"
  "p_ofile (ptable forking 0) fd = None" "p_state (ptable forking 2) = ZOMBIE" "p_parent (ptable forking 2) = Some 0"
  "p_kstack (ptable forking 2) = 0x80304000" "p_pid (ptable forking 2) = 7"
  "j \<noteq> 0 \<Longrightarrow> j \<noteq> 2 \<Longrightarrow> ptable forking j = blank_proc"
  by (simp_all add: forking_def calling_def blank_proc_def)

lemma forking_pde: "pde_of (mem forking) 0x80300000 i = (if i = 0 then 0x301007 else 0)"
  by (simp add: forking_mem calling_fields pde_of_def) (simp add: rd32_def)

lemma forking_tbl: "tbl (mem forking) 0x80300000 0 = 0x80301000"
  by (simp add: tbl_def forking_pde PTE_ADDR_def p2v_def)

lemma forking_pte: "pte_of (mem forking) 0x80300000 va = (if PDX va = 0 \<and> PTX va = 0 then 0x302007 else 0)"
proof -
  have r: "rd32 (mem forking 0x80301000) (4 * i) = (if i = 0 then 0x302007 else 0)" for i
    by (simp add: forking_mem calling_fields) (simp add: rd32_def)
  have "pte_of (mem forking) 0x80300000 va = (if PDX va = 0 then rd32 (mem forking 0x80301000) (4 * PTX va) else 0)"
    by (simp add: pte_of_def forking_pde forking_tbl)
  then show ?thesis unfolding r by simp
qed

lemma forking_pages: "pt_pages (mem forking) 0x80300000 = {0x80300000, 0x80301000}"
  "va < KERNBASE \<Longrightarrow> pte_present (pte_of (mem forking) 0x80300000 va) \<Longrightarrow> va div PGSIZE = 0 \<and> upage (mem forking) 0x80300000 va = 0x80302000"
proof -
  show "pt_pages (mem forking) 0x80300000 = {0x80300000, 0x80301000}"
    by (auto simp: pt_pages_def forking_pde forking_tbl)
  assume va: "va < KERNBASE" "pte_present (pte_of (mem forking) 0x80300000 va)"
  from va(2) have i: "PDX va = 0" "PTX va = 0" unfolding forking_pte by (auto split: if_splits)
  have "PDX 0 = 0" "PTX 0 = 0" by (simp_all add: PDX_def PTX_def)
  with va(1) i PDX_PTX_inj [of va 0] have "va div PGSIZE = 0" by simp
  moreover have "upage (mem forking) 0x80300000 va = 0x80302000"
    unfolding upage_def forking_pte i by (simp add: PTE_ADDR_def p2v_def)
  ultimately show "va div PGSIZE = 0 \<and> upage (mem forking) 0x80300000 va = 0x80302000" by blast
qed

lemma forking_kpage: "kpage forking v \<longleftrightarrow> v mod PGSIZE = 0 \<and> v \<ge> 0x80300000 \<and> v2p v < PHYSTOP \<and> v < W32"
  by (auto simp: kpage_def forking_mem)

lemma forking_as_pages: "as_pages (mem forking) 0x80300000 \<subseteq> {0x80300000, 0x80301000, 0x80302000}"
  unfolding as_pages_def upages_def using forking_pages by auto

lemma forking_as_inv: "as_inv forking 0x80300000 [0x80303000]"
proof -
  have z: "mem forking 0x80303000 = (\<lambda>_. 0)" by (simp add: forking_mem calling_fields)
  have "free_pages forking [0x80303000]"
    by (simp add: free_pages_def forking_mem(7) z rd32_def forking_kpage v2p_high)
  moreover have "pgdir_ok (mem forking) 0x80300000"
    by (auto simp: pgdir_ok_def forking_pde forking_tbl split: if_splits)
  ultimately have "vm_inv forking 0x80300000 [0x80303000]"
    by (simp add: vm_inv_def kmem_ready_def forking_mem(5) forking_pages(1))
  moreover have "PTE_ADDR (pte_of (mem forking) 0x80300000 va) \<noteq> 0" if "pte_present (pte_of (mem forking) 0x80300000 va)" for va
    using that by (auto simp: forking_pte PTE_ADDR_def split: if_splits)
  ultimately show ?thesis
    unfolding as_inv_def forking_pages(1) using forking_pages(2) by (simp add: forking_kpage v2p_high)
qed

lemma forking_slot: "find (\<lambda>j. p_state (ptable forking j) = UNUSED) [0..<NPROC] = Some 1"
  unfolding find_upt_Some by (auto simp: forking_mem blank_proc_def less_Suc_eq)

text \<open>The same process with a name and an open file, and 4096 more free pages.\<close>

definition forking_open :: kuser where
  "forking_open = forking\<lparr>ptable := (ptable forking)(0 := (ptable forking 0)\<lparr>p_name := ''sh'', p_ofile := [1 \<mapsto> 4]\<rparr>),
     ftable := (ftable forking)(4 := (ftable forking 4)\<lparr>f_ref := 1\<rparr>)\<rparr>"

lemma forking_open_pages:
  "\<exists>(s::kuser) F. can_fork s 0 1 F \<and> Suc (copy_need 4096) < length F \<and> ptable s = ptable forking_open \<and> ftable s = ftable forking_open"
proof -
  have m: "mem forking_open = mem forking" "freelist forking_open = freelist forking" "kend forking_open = kend forking" "held forking_open = []"
    by (simp_all add: forking_open_def forking_mem)
  have inv: "as_inv forking_open 0x80300000 [0x80303000]"
    by (rule as_inv_state [OF forking_as_inv]) (simp_all add: m kmem_ready_def)
  have below: "\<forall>v\<in>set [0x80303000] \<union> as_pages (mem forking_open) 0x80300000. v < 0x80400000"
    using forking_as_pages unfolding m(1) by auto
  obtain t where t: "as_inv t 0x80300000 (rev (pages_of 0x80400000 0x81400000) @ [0x80303000])" "kmem_frame forking_open t"
      "\<forall>v<0x80400000. mem t v = mem forking_open v"
    using more_pages [OF inv, of "0x80400000" "0x81400000"] below by (auto simp: m(3) forking_mem)
  then obtain f mm where tt: "t = forking_open\<lparr>mem := mm, freelist := f\<rparr>" by (auto simp: kmem_frame_def)
  have pt: "pte_of (mem t) 0x80300000 = pte_of (mem forking) 0x80300000"
    by (rule pt_cong) (use t(3) in \<open>auto simp: forking_pages(1) m(1)\<close>)
  have "\<forall>va<4096. pte_present (pte_of (mem t) 0x80300000 va)"
    unfolding pt by (auto simp: forking_pte PDX_def PTX_def)
  moreover have "find (\<lambda>j. p_state (ptable t j) = UNUSED) [0..<NPROC] = Some 1"
    using forking_slot unfolding find_upt_Some by (simp add: tt forking_open_def)
  moreover have "p_pgdir (ptable t 0) = 0x80300000" "p_sz (ptable t 0) = 4096" "p_state (ptable t 0) = RUNNING" "p_cwd (ptable t 0) = Some 0"
      "p_ofile (ptable t 0) = [1 \<mapsto> 4]" "f_ref (ftable t 4) = 1" "held t = []" "curproc t = Some 0" "kdata t = 0x80200000"
    by (simp_all add: tt forking_open_def forking_mem)
  ultimately have "can_fork t 0 1 (rev (pages_of 0x80400000 0x81400000) @ [0x80303000])"
    using t(1) by (simp add: can_fork_def link_ok_def)
  moreover have "Suc (copy_need 4096) < length (rev (pages_of 0x80400000 0x81400000) @ [0x80303000])"
    by (simp add: pages_of_def copy_need_def)
  ultimately show ?thesis by (intro exI [of _ t] exI [of _ "rev (pages_of 0x80400000 0x81400000) @ [0x80303000]"] conjI) (simp_all add: tt)
qed


theorem wait_reaps_witness: "\<exists>t F'. wait forking = Ok 7 t \<and> p_state (ptable t 2) = UNUSED \<and> 0x80304000 \<in> set F' \<and> free_pages t F'"
proof -
  have "find (\<lambda>i. p_parent (ptable forking i) = curproc forking \<and> p_state (ptable forking i) = ZOMBIE) [0..<NPROC] = Some 2"
    unfolding find_upt_Some by (auto simp: forking_mem blank_proc_def dest!: less_2_cases)
  moreover have "reapable forking 2 [0x80303000]"
    using forking_as_inv forking_as_pages by (auto simp: reapable_def forking_mem forking_kpage v2p_high)
  ultimately have "\<exists>t F'. wait forking = Ok (p_pid (ptable forking 2)) t \<and> ptable t = (ptable forking)(2 := unused_slot (ptable forking 2)) \<and>
      held t = [] \<and> free_pages t F' \<and> set F' = set [0x80303000] \<union> as_pages (mem forking) (p_pgdir (ptable forking 2)) \<union> {p_kstack (ptable forking 2)}"
    by (intro wait_reaps) (simp_all add: forking_mem)
  then obtain t F' where t: "wait forking = Ok 7 t" "ptable t = (ptable forking)(2 := unused_slot (ptable forking 2))" "free_pages t F'"
      "set F' = set [0x80303000] \<union> as_pages (mem forking) (p_pgdir (ptable forking 2)) \<union> {0x80304000}"
    unfolding forking_mem(15,16) by blast
  then show ?thesis by (intro exI [of _ t] exI [of _ F']) (simp add: unused_slot_def)
qed

text \<open>A process with a running child, which has been killed or not.\<close>

definition with_child :: "bool \<Rightarrow> kuser" where
  "with_child k = idle_kernel\<lparr>ptable := (ptable idle_kernel)(0 := (ptable idle_kernel 0)\<lparr>p_killed := k\<rparr>,
     2 := blank_proc\<lparr>p_state := RUNNABLE, p_parent := Some 0\<rparr>)\<rparr>"

theorem wait_without_zombie_witness:
  "wait idle_kernel = Ok (-1) idle_kernel \<and> wait (with_child True) = Ok (-1) (with_child True) \<and>
   (\<exists>t. wait (with_child False) = Switch (Asleep (ChProc 0)) t \<and> p_state (ptable t 0) = SLEEPING \<and> p_chan (ptable t 0) = Some (ChProc 0))"
proof -
  have "p_parent (ptable idle_kernel j) = None" for j by (simp add: blank_proc_def)
  then have 1: "wait idle_kernel = Ok (-1) idle_kernel" using wait_without_zombie [of idle_kernel 0] by simp
  have w: "held (with_child k) = []" "curproc (with_child k) = Some 0" "p_killed (ptable (with_child k) 0) = k"
      "p_parent (ptable (with_child k) 2) = Some 0" for k by (simp_all add: with_child_def)
  have z: "\<forall>j<NPROC. \<not> (p_parent (ptable (with_child k) j) = Some 0 \<and> p_state (ptable (with_child k) j) = ZOMBIE)" for k
    by (simp add: with_child_def blank_proc_def)
  have c: "\<not> (\<forall>j<NPROC. p_parent (ptable (with_child k) j) \<noteq> Some 0)" for k using w(4) by (intro notI) (drule spec [of _ 2], simp)
  have 2: "wait (with_child True) = Ok (-1) (with_child True)"
    using wait_without_zombie [OF w(1,2) z, of True] w(3) [of True] by simp
  have "\<exists>t. wait (with_child False) = Switch (Asleep (ChProc 0)) t \<and> p_state (ptable t 0) = SLEEPING \<and> p_chan (ptable t 0) = Some (ChProc 0)"
    using wait_without_zombie [OF w(1,2) z, of False] w(3) [of False] c [of False] by simp
  with 1 2 show ?thesis by blast
qed

end
