(* ===== verification/Lru.thy ===== *)
theory Lru
  imports Cache States
begin

text \<open>
  The list of buffers in \<^verbatim>\<open>src/bio.c\<close> as the code has it: a ring of \<open>next\<close> and \<open>prev\<close> pointers through \<open>bcache.head\<close>.  The theory
  \<open>Bio\<close> keeps a list of indices instead; here the pointer updates of \<open>binit\<close> and \<open>brelse\<close> and the two loops of \<open>bget\<close> are shown to
  implement it.
\<close>

section \<open>The pointers\<close>

text \<open>\<open>bcache.head\<close> has the index after the last buffer.\<close>

definition HEAD :: nat where
  "HEAD = NBUF"

record links =
  b_next :: "nat \<Rightarrow> nat"
  b_prev :: "nat \<Rightarrow> nat"

definition link_front :: "nat \<Rightarrow> links \<Rightarrow> links" where
  "link_front b r =
     (let r1 = r\<lparr>b_next := (b_next r)(b := b_next r HEAD)\<rparr>;
          r2 = r1\<lparr>b_prev := (b_prev r1)(b := HEAD)\<rparr>;
          r3 = r2\<lparr>b_prev := (b_prev r2)(b_next r2 HEAD := b)\<rparr>
      in r3\<lparr>b_next := (b_next r3)(HEAD := b)\<rparr>)"

definition unlink :: "nat \<Rightarrow> links \<Rightarrow> links" where
  "unlink b r =
     (let r1 = r\<lparr>b_prev := (b_prev r)(b_next r b := b_prev r b)\<rparr>
      in r1\<lparr>b_next := (b_next r1)(b_prev r1 b := b_next r1 b)\<rparr>)"

definition binit_links :: "links \<Rightarrow> links" where
  "binit_links r = fold link_front [0..<NBUF] (r\<lparr>b_prev := (b_prev r)(HEAD := HEAD), b_next := (b_next r)(HEAD := HEAD)\<rparr>)"

definition brelse_links :: "nat \<Rightarrow> links \<Rightarrow> links" where
  "brelse_links b r = link_front b (unlink b r)"

text \<open>A loop of \<open>bget\<close>: from \<open>b\<close> on, the first buffer with \<open>P\<close>; no value when it has not come back to the head in \<open>n\<close> turns.\<close>

fun chase :: "nat \<Rightarrow> (nat \<Rightarrow> nat) \<Rightarrow> (nat \<Rightarrow> bool) \<Rightarrow> nat \<Rightarrow> nat option option" where
  "chase 0 nx P b = None"
| "chase (Suc n) nx P b = (if b = HEAD then Some None else if P b then Some (Some b) else chase n nx P (nx b))"

section \<open>Rings\<close>

fun adj :: "links \<Rightarrow> nat list \<Rightarrow> bool" where
  "adj r (x # y # zs) \<longleftrightarrow> b_next r x = y \<and> b_prev r y = x \<and> adj r (y # zs)"
| "adj r xs \<longleftrightarrow> True"

definition ring :: "links \<Rightarrow> nat list \<Rightarrow> bool" where
  "ring r xs \<longleftrightarrow> distinct (HEAD # xs) \<and> adj r (HEAD # xs @ [HEAD])"

lemma adj_append: "adj r (xs @ y # zs) \<longleftrightarrow> adj r (xs @ [y]) \<and> adj r (y # zs)"
  by (induction r xs rule: adj.induct) simp_all

lemma adj_next: "x \<notin> set (butlast xs) \<Longrightarrow> adj (r\<lparr>b_next := (b_next r)(x := y)\<rparr>) xs = adj r xs"
  by (induction r xs rule: adj.induct) (auto split: if_splits)

lemma adj_prev: "y \<notin> set (tl xs) \<Longrightarrow> adj (r\<lparr>b_prev := (b_prev r)(y := x)\<rparr>) xs = adj r xs"
  by (induction r xs rule: adj.induct) auto

text \<open>Making \<open>x\<close> and \<open>y\<close> neighbours.\<close>

definition join :: "nat \<Rightarrow> nat \<Rightarrow> links \<Rightarrow> links" where
  "join x y r = r\<lparr>b_next := (b_next r)(x := y), b_prev := (b_prev r)(y := x)\<rparr>"

lemma adj_join_other: "x \<notin> set (butlast xs) \<Longrightarrow> y \<notin> set (tl xs) \<Longrightarrow> adj (join x y r) xs = adj r xs"
  using adj_next [of x xs r y] adj_prev [of y xs "r\<lparr>b_next := (b_next r)(x := y)\<rparr>" x] by (simp add: join_def)

lemma adj_join:
  assumes "adj r (us @ [x])" and "adj r (y # vs)" and "x \<notin> set us" and "y \<notin> set vs"
    and "x \<notin> set (butlast (y # vs))" and "y \<notin> set (tl (us @ [x]))"
  shows "adj (join x y r) (us @ x # y # vs)"
proof -
  have "adj (join x y r) (us @ [x])" "adj (join x y r) (y # vs)" using assms by (simp_all add: adj_join_other)
  then show ?thesis using adj_append [of "join x y r" us x "y # vs"] by (simp add: join_def)
qed

lemma link_front_join: "link_front b r = join HEAD b (join b (b_next r HEAD) r)" if "b \<noteq> HEAD" "b_next r HEAD \<noteq> b"
  using that by (simp add: link_front_def join_def Let_def fun_upd_twist)

lemma unlink_join: "unlink b r = join (b_prev r b) (b_next r b) r" if "b_next r b \<noteq> b"
  using that by (simp add: unlink_def join_def Let_def)

lemma ring_head: "ring r xs \<Longrightarrow> b_next r HEAD = hd (xs @ [HEAD])"
  by (cases xs) (simp_all add: ring_def)

lemma ring_link_front:
  assumes r: "ring r xs" and b: "b \<noteq> HEAD" "b \<notin> set xs"
  shows "ring (link_front b r) (b # xs)"
proof -
  define n vs where "n = hd (xs @ [HEAD])" and "vs = tl (xs @ [HEAD])"
  have nv: "xs @ [HEAD] = n # vs" by (simp add: n_def vs_def)
  have "adj r (HEAD # n # vs)" using r by (simp add: ring_def nv)
  then have a: "adj r (n # vs)" by simp
  have "distinct (xs @ [HEAD])" using r by (simp add: ring_def)
  then have d: "distinct (n # vs)" by (simp only: nv)
  have st: "set (n # vs) = insert HEAD (set xs)" unfolding nv [symmetric] by simp
  have h: "b_next r HEAD = n" using ring_head [OF r] by (simp add: n_def)
  have bn: "b \<notin> set (n # vs)" using b st by simp
  have nb: "n \<noteq> b" using bn by auto
  have bl: "HEAD \<notin> set (butlast (n # vs))" unfolding nv [symmetric] using r by (simp add: ring_def)
  have 1: "adj (join b n r) ([] @ b # n # vs)"
    using a d bn by (intro adj_join) (auto dest: in_set_butlastD)
  have 2: "adj (join HEAD b (join b n r)) ([] @ HEAD # b # n # vs)"
    using 1 bn b bl by (intro adj_join) auto
  have "link_front b r = join HEAD b (join b n r)" using link_front_join [OF b(1)] h nb by simp
  then show ?thesis using 2 r b nv by (simp add: ring_def)
qed

lemma ring_unlink:
  assumes r: "ring r (us @ b # vs)"
  shows "ring (unlink b r) (us @ vs)"
proof -
  define p ps where "p = last (HEAD # us)" and "ps = butlast (HEAD # us)"
  define n ns where "n = hd (vs @ [HEAD])" and "ns = tl (vs @ [HEAD])"
  have pp: "HEAD # us = ps @ [p]" by (simp add: p_def ps_def)
  have nn: "vs @ [HEAD] = n # ns" by (simp add: n_def ns_def)
  have d: "distinct (HEAD # us @ b # vs)" using r by (simp add: ring_def)
  have "adj r ((HEAD # us) @ b # vs @ [HEAD])" using r by (simp add: ring_def)
  then have "adj r (ps @ p # b # n # ns)" unfolding pp nn by simp
  then have "adj r (ps @ [p]) \<and> adj r (p # b # n # ns)" by (rule iffD1 [OF adj_append])
  then have a: "adj r (ps @ [p])" "adj r (n # ns)" "b_prev r b = p" "b_next r b = n" by simp_all
  have dp: "distinct (ps @ [p])" "b \<notin> set (ps @ [p])" "set (ps @ [p]) = insert HEAD (set us)"
    using d by (simp_all flip: pp)
  have "distinct (vs @ [HEAD])" "b \<notin> set (vs @ [HEAD])" "HEAD \<notin> set (butlast (vs @ [HEAD]))" "set (butlast (vs @ [HEAD])) = set vs"
    using d by auto
  then have dn: "distinct (n # ns)" "b \<notin> set (n # ns)" "HEAD \<notin> set (butlast (n # ns))" "set (butlast (n # ns)) = set vs"
    unfolding nn by blast+
  have tp: "set (tl (ps @ [p])) = set us" by (simp flip: pp)
  have sn: "set (n # ns) = insert HEAD (set vs)" unfolding nn [symmetric] by simp
  have "p \<in> insert HEAD (set us)" using dp(3) by auto
  then have "p \<notin> set (butlast (n # ns))" unfolding dn(4) using d by auto
  moreover have "n \<in> insert HEAD (set vs)" using sn by auto
  then have "n \<notin> set (tl (ps @ [p]))" unfolding tp using d by auto
  ultimately have "adj (join p n r) (ps @ p # n # ns)"
    using a(1,2) dp(1) dn(1) by (intro adj_join) simp_all
  moreover have "ps @ p # n # ns = HEAD # (us @ vs) @ [HEAD]" using pp nn by (simp flip: append_Cons)
  moreover have "unlink b r = join p n r" using unlink_join [of r b] a(3,4) dn(2) by auto
  ultimately show ?thesis using d by (simp add: ring_def)
qed

lemma ring_brelse:
  assumes r: "ring r xs" and b: "b \<in> set xs"
  shows "ring (brelse_links b r) (b # remove1 b xs)"
proof -
  from split_list_first [OF b] obtain us vs where x: "xs = us @ b # vs" "b \<notin> set us" by blast
  have d: "distinct (HEAD # us @ b # vs)" using r by (simp add: ring_def x)
  have "ring (unlink b r) (us @ vs)" using r by (intro ring_unlink) (simp add: x)
  then have "ring (brelse_links b r) (b # us @ vs)" unfolding brelse_links_def using d by (intro ring_link_front) auto
  then show ?thesis using x by (simp add: remove1_append)
qed

lemma ring_fold: "ring r [] \<Longrightarrow> n \<le> NBUF \<Longrightarrow> ring (fold link_front [0..<n] r) (rev [0..<n])"
proof (induction n)
  case (Suc n)
  then show ?case using ring_link_front [of "fold link_front [0..<n] r" "rev [0..<n]" n] by (simp add: HEAD_def)
qed simp

lemma ring_binit: "ring (binit_links r) (rev [0..<NBUF])"
  unfolding binit_links_def by (rule ring_fold) (simp_all add: ring_def)

text \<open>The loops of \<open>bget\<close> visit the list in order and in reverse.\<close>

lemma chase_next: "adj r (x # xs @ [HEAD]) \<Longrightarrow> HEAD \<notin> set xs \<Longrightarrow> length xs < n \<Longrightarrow> chase n (b_next r) P (b_next r x) = Some (find P xs)"
proof (induction xs arbitrary: x n)
  case Nil
  then show ?case by (cases n) simp_all
next
  case (Cons y ys)
  then show ?case by (cases n) auto
qed

lemma chase_prev: "adj r (HEAD # xs @ [x]) \<Longrightarrow> HEAD \<notin> set xs \<Longrightarrow> length xs < n \<Longrightarrow> chase n (b_prev r) P (b_prev r x) = Some (find P (rev xs))"
proof (induction xs arbitrary: x n rule: rev_induct)
  case Nil
  then show ?case by (cases n) simp_all
next
  case (snoc y ys)
  have a: "adj r ((HEAD # ys) @ y # [x])" using snoc.prems(1) by simp
  from iffD1 [OF adj_append this] have "adj r (HEAD # ys @ [y])" "b_prev r x = y" by simp_all
  then show ?case using snoc.IH [of y "n - 1"] snoc.prems(2,3) by (cases n) auto
qed

lemma chase_ring:
  "ring r xs \<Longrightarrow> length xs < n \<Longrightarrow>
   chase n (b_next r) P (b_next r HEAD) = Some (find P xs) \<and> chase n (b_prev r) P (b_prev r HEAD) = Some (find P (rev xs))"
  by (simp add: ring_def chase_next chase_prev)

section \<open>The cache\<close>

text \<open>
  C21.  The pointers of the buffer cache implement its list: when they form a ring through the buffers of \<open>lru\<close>, the assignments of
  \<open>brelse\<close> make them one through the new \<open>lru\<close>, with the released buffer first, and the two loops of \<open>bget\<close> find there the first and
  the last buffer of the list with any given property.
\<close>

theorem brelse_pointers:
  assumes r: "ring r (lru s)" and b: "b \<in> set (lru s)" and busy: "B_BUSY \<in> b_flags (bufs s b)"
    and lk: "LBcache \<notin> set (held s)" "LPtable \<notin> set (held s)"
  shows "\<exists>t. brelse b s = Ok () t \<and> ring (brelse_links b r) (lru t) \<and> hd (lru t) = b \<and>
    (\<forall>P. chase (Suc (length (lru t))) (b_next (brelse_links b r)) P (b_next (brelse_links b r) HEAD) = Some (find P (lru t))) \<and>
    (\<forall>P. chase (Suc (length (lru t))) (b_prev (brelse_links b r)) P (b_prev (brelse_links b r) HEAD) = Some (find P (rev (lru t))))"
proof -
  let ?B = "(bufs s)(b := (bufs s b)\<lparr>b_flags := b_flags (bufs s b) - {B_BUSY}\<rparr>)"
  let ?t = "s\<lparr>bufs := ?B, lru := b # remove1 b (lru s), ptable := woken (ChBuf b) (ptable s)\<rparr>"
  have "brelse b s = Ok () ?t" using busy lk by (simp add: brelse_def kop_simps upd_buf_def)
  moreover have "ring (brelse_links b r) (lru ?t)" using ring_brelse [OF r b] by simp
  ultimately show ?thesis using chase_ring [of "brelse_links b r" "lru ?t" "Suc (length (lru ?t))"]
    by (intro exI [of _ ?t]) (simp del: chase.simps)
qed

theorem brelse_pointers_witness:
  "\<exists>t. brelse 7 (idle_kernel\<lparr>lru := rev [0..<NBUF], bufs := (\<lambda>_. \<lparr>b_flags = {B_BUSY}, b_dev = 1, b_sector = 0, b_data = (\<lambda>_. 0)\<rparr>)\<rparr>) = Ok () t \<and>
    ring (brelse_links 7 (binit_links \<lparr>b_next = (\<lambda>_. 0), b_prev = (\<lambda>_. 0)\<rparr>)) (lru t) \<and> hd (lru t) = 7"
proof -
  let ?s = "idle_kernel\<lparr>lru := rev [0..<NBUF], bufs := (\<lambda>_. \<lparr>b_flags = {B_BUSY}, b_dev = 1, b_sector = 0, b_data = (\<lambda>_. 0)\<rparr>)\<rparr>"
  have "ring (binit_links \<lparr>b_next = (\<lambda>_. 0), b_prev = (\<lambda>_. 0)\<rparr>) (lru ?s)"
    using ring_binit [of "\<lparr>b_next = (\<lambda>_. 0), b_prev = (\<lambda>_. 0)\<rparr>"] by simp
  from brelse_pointers [OF this, of 7] show ?thesis by auto
qed

end
