(* ===== verification/PipeFifo.thy ===== *)
theory PipeFifo
  imports Pipe States
begin

text \<open>
  What a pipe promises: the ring buffer of \<open>struct pipe\<close>, with its two 32-bit counters that wrap around, is a
  queue of at most \<open>PIPESIZE\<close> bytes; \<open>pipewrite\<close> appends and \<open>piperead\<close> removes from the front.
\<close>

section \<open>A bounded queue\<close>

text \<open>The contract of a ring buffer: an invariant, the queue it stands for, and the laws of its operations.\<close>

locale bounded_queue =
  fixes ok :: "'r \<Rightarrow> bool" and que :: "'r \<Rightarrow> 'a list" and cap :: nat
    and is_empty :: "'r \<Rightarrow> bool" and is_full :: "'r \<Rightarrow> bool"
    and put :: "'a \<Rightarrow> 'r \<Rightarrow> 'r" and front :: "'r \<Rightarrow> 'a" and skip :: "'r \<Rightarrow> 'r"
  assumes bound: "ok r \<Longrightarrow> length (que r) \<le> cap"
    and empty_iff: "ok r \<Longrightarrow> is_empty r \<longleftrightarrow> que r = []"
    and full_iff: "ok r \<Longrightarrow> is_full r \<longleftrightarrow> length (que r) = cap"
    and put_ok: "ok r \<Longrightarrow> length (que r) < cap \<Longrightarrow> ok (put c r) \<and> que (put c r) = que r @ [c]"
    and skip_ok: "ok r \<Longrightarrow> que r \<noteq> [] \<Longrightarrow> ok (skip r) \<and> que r = front r # que (skip r)"
begin

text \<open>Writing as many bytes as fit, and reading at most \<open>n\<close>, in the loops of a client.\<close>

fun puts :: "'a list \<Rightarrow> 'r \<Rightarrow> 'r" where
  "puts [] r = r"
| "puts (c # cs) r = (if is_full r then r else puts cs (put c r))"

fun takes :: "nat \<Rightarrow> 'r \<Rightarrow> 'a list \<times> 'r" where
  "takes 0 r = ([], r)"
| "takes (Suc n) r = (if is_empty r then ([], r) else let (cs, r') = takes n (skip r) in (front r # cs, r'))"

lemma puts_spec: "ok r \<Longrightarrow> ok (puts cs r) \<and> que (puts cs r) = que r @ take (cap - length (que r)) cs"
proof (induction cs arbitrary: r)
  case (Cons c cs)
  show ?case
  proof (cases "is_full r")
    case True
    with Cons.prems full_iff show ?thesis by simp
  next
    case False
    with Cons.prems bound full_iff have lt: "length (que r) < cap" by (simp add: order.strict_iff_order)
    from put_ok [OF Cons.prems lt, of c] Cons.IH [of "put c r"] have
      "ok (puts cs (put c r))" "que (puts cs (put c r)) = (que r @ [c]) @ take (cap - Suc (length (que r))) cs" by simp_all
    moreover from lt obtain k where "cap - length (que r) = Suc k" by (metis Suc_diff_Suc)
    moreover from this have "cap - Suc (length (que r)) = k" by simp
    ultimately show ?thesis using False by simp
  qed
qed simp

lemma takes_spec: "ok r \<Longrightarrow> takes n r = (cs, r') \<Longrightarrow> ok r' \<and> cs = take n (que r) \<and> que r' = drop n (que r)"
proof (induction n arbitrary: r cs r')
  case (Suc n)
  show ?case
  proof (cases "is_empty r")
    case True
    with Suc.prems empty_iff show ?thesis by simp
  next
    case False
    with Suc.prems empty_iff skip_ok have s: "ok (skip r)" "que r = front r # que (skip r)" by simp_all
    obtain ds where ds: "takes n (skip r) = (ds, r')" "cs = front r # ds"
      using Suc.prems(2) False by (auto split: prod.splits)
    from Suc.IH [OF s(1) ds(1)] ds(2) s(2) show ?thesis by simp
  qed
qed simp

end

section \<open>The ring buffer of a pipe\<close>

definition pipe_len :: "pipe \<Rightarrow> nat" where
  "pipe_len x = (pi_nwrite x + (W32 - pi_nread x)) mod W32"

definition pipe_queue :: "pipe \<Rightarrow> u8 list" where
  "pipe_queue x = map (\<lambda>i. pi_data x ((pi_nread x + i) mod PIPESIZE)) [0..<pipe_len x]"

definition pipe_ok :: "pipe \<Rightarrow> bool" where
  "pipe_ok x \<longleftrightarrow> pi_nread x < W32 \<and> pi_nwrite x < W32 \<and> pipe_len x \<le> PIPESIZE"

lemma pipe_len_cases:
  assumes "pi_nread x < W32" "pi_nwrite x < W32"
  shows "pipe_len x = (if pi_nread x \<le> pi_nwrite x then pi_nwrite x - pi_nread x else pi_nwrite x + W32 - pi_nread x)"
proof (cases "pi_nread x \<le> pi_nwrite x")
  case True
  then have e: "pi_nwrite x + (W32 - pi_nread x) = (pi_nwrite x - pi_nread x) + W32" using assms by simp
  from True assms show ?thesis unfolding pipe_len_def e mod_add_self2 by simp
qed (use assms in \<open>simp add: pipe_len_def\<close>)

lemma mod_W32_PIPESIZE: "k mod W32 mod PIPESIZE = k mod PIPESIZE"
  by (rule mod_mod_cancel) simp

lemma nwrite_mod: "pi_nread x < W32 \<Longrightarrow> pi_nwrite x < W32 \<Longrightarrow> pi_nwrite x = (pi_nread x + pipe_len x) mod W32"
  by (auto simp: pipe_len_cases)

lemma mod_PIPESIZE_inj:
  assumes "i < PIPESIZE" "j < PIPESIZE" "(a + i) mod PIPESIZE = (a + j) mod PIPESIZE"
  shows "i = j"
proof -
  have "(int a + int i) mod 512 = (int a + int j) mod 512"
    using arg_cong [OF assms(3), of int] by (simp add: zmod_int)
  then have "512 dvd int i - int j" by (simp add: mod_eq_dvd_iff)
  then obtain k where "int i - int j = 512 * k" by (elim dvdE)
  moreover from this assms(1,2) have "k = 0" by linarith
  ultimately show ?thesis by simp
qed

lemma pipe_put_ok:
  assumes "pipe_ok x" "pipe_len x < PIPESIZE"
  shows "pipe_ok (pipe_put c x)" "pipe_queue (pipe_put c x) = pipe_queue x @ [c]"
proof -
  let ?y = "pipe_put c x"
  have x: "pi_nread x < W32" "pi_nwrite x < W32" using assms(1) by (simp_all add: pipe_ok_def)
  have w: "pi_nwrite x mod PIPESIZE = (pi_nread x + pipe_len x) mod PIPESIZE"
    using nwrite_mod [OF x] by (metis mod_W32_PIPESIZE)
  have len: "pipe_len ?y = Suc (pipe_len x)"
  proof -
    have "pipe_len ?y = (Suc (pi_nwrite x + (W32 - pi_nread x))) mod W32"
      by (simp add: pipe_len_def pipe_put_def mod_simps)
    also have "\<dots> = Suc (pipe_len x) mod W32" by (simp add: pipe_len_def mod_simps)
    finally show ?thesis using assms(2) by simp
  qed
  then show "pipe_ok ?y" using x assms(2) by (simp add: pipe_ok_def pipe_put_def)
  have "pi_data ?y ((pi_nread x + i) mod PIPESIZE) = (if i = pipe_len x then c else pi_data x ((pi_nread x + i) mod PIPESIZE))"
    if "i \<le> pipe_len x" for i
    using mod_PIPESIZE_inj [of i "pipe_len x" "pi_nread x"] that assms(2) by (auto simp: pipe_put_def w)
  moreover have "pi_nread ?y = pi_nread x" by (simp add: pipe_put_def)
  ultimately show "pipe_queue ?y = pipe_queue x @ [c]" by (simp add: pipe_queue_def len)
qed

lemma pipe_skip_ok:
  assumes "pipe_ok x" "pipe_len x \<noteq> 0"
  shows "pipe_ok (pipe_skip x)" "pipe_queue x = pipe_head x # pipe_queue (pipe_skip x)"
proof -
  let ?y = "pipe_skip x"
  have x: "pi_nread x < W32" "pi_nwrite x < W32" using assms(1) by (simp_all add: pipe_ok_def)
  have y: "pi_nread ?y < W32" "pi_nwrite ?y < W32" using x by (simp_all add: pipe_skip_def)
  have len: "pipe_len x = Suc (pipe_len ?y)"
    unfolding pipe_len_cases [OF x] pipe_len_cases [OF y]
    using x assms(2) pipe_len_cases [OF x] by (cases "pi_nread x = W32 - 1") (auto simp: pipe_skip_def)
  then show "pipe_ok ?y" using y assms by (simp add: pipe_ok_def)
  have "(pi_nread ?y + i) mod PIPESIZE = (pi_nread x + Suc i) mod PIPESIZE" for i
    using mod_W32_PIPESIZE [of "pi_nread x + 1"] by (simp add: pipe_skip_def) (metis add_Suc mod_add_left_eq)
  then show "pipe_queue x = pipe_head x # pipe_queue ?y"
    by (simp add: pipe_queue_def len upt_conv_Cons pipe_head_def pipe_skip_def del: upt_Suc flip: map_Suc_upt)
qed

lemma length_pipe_queue [simp]: "length (pipe_queue x) = pipe_len x"
  by (simp add: pipe_queue_def)

lemma pipe_full_iff: "pipe_ok x \<Longrightarrow> pipe_full x \<longleftrightarrow> pipe_len x = PIPESIZE"
proof -
  assume "pipe_ok x"
  then have x: "pi_nread x < W32" "pi_nwrite x < W32" by (simp_all add: pipe_ok_def)
  show ?thesis
  proof
    assume "pipe_full x"
    then show "pipe_len x = PIPESIZE" unfolding pipe_len_cases [OF x] using x by (auto simp: pipe_full_def mod_if)
  next
    assume "pipe_len x = PIPESIZE"
    with nwrite_mod [OF x] show "pipe_full x" by (simp add: pipe_full_def)
  qed
qed

lemma pipe_empty_iff: "pipe_ok x \<Longrightarrow> pipe_empty x \<longleftrightarrow> pipe_len x = 0"
  using pipe_len_cases [of x] by (auto simp: pipe_ok_def pipe_empty_def)

interpretation pipe: bounded_queue pipe_ok pipe_queue PIPESIZE pipe_empty pipe_full pipe_put pipe_head pipe_skip
proof
  fix r c
  assume r: "pipe_ok r"
  then show "length (pipe_queue r) \<le> PIPESIZE" by (simp add: pipe_ok_def)
  show "pipe_empty r = (pipe_queue r = [])" using pipe_empty_iff [OF r] by (simp flip: length_0_conv)
  show "pipe_full r = (length (pipe_queue r) = PIPESIZE)" using pipe_full_iff [OF r] by simp
  show "pipe_ok (pipe_put c r) \<and> pipe_queue (pipe_put c r) = pipe_queue r @ [c]" if "length (pipe_queue r) < PIPESIZE"
    using pipe_put_ok [OF r] that by simp
  show "pipe_ok (pipe_skip r) \<and> pipe_queue r = pipe_head r # pipe_queue (pipe_skip r)" if "pipe_queue r \<noteq> []"
    using pipe_skip_ok [OF r] that by (simp flip: length_0_conv)
qed

section \<open>Writing\<close>

lemma puts_open [simp]: "pi_readopen (pipe.puts cs x) = pi_readopen x" "pi_writeopen (pipe.puts cs x) = pi_writeopen x"
  by (induction cs arbitrary: x) (auto simp: pipe_put_def)

definition pipe_after :: "nat \<Rightarrow> pipe \<Rightarrow> 'z kpipe_scheme \<Rightarrow> 'z kpipe_scheme" where
  "pipe_after p x s = s\<lparr>pipes := (pipes s)(p := x)\<rparr>"

lemma pipe_after_simps [simp]:
  "pipes (pipe_after p x s) p = x" "held (pipe_after p x s) = held s" "ptable (pipe_after p x s) = ptable s"
  "curproc (pipe_after p x s) = curproc s" "pipe_after p y (pipe_after p x s) = pipe_after p y s"
  "pipe_after p (pipes s p) s = s" "upd_pipe p f s = pipe_after p (f (pipes s p)) s"
  by (simp_all add: pipe_after_def upd_pipe_def)

definition pipewrite_result :: "nat \<Rightarrow> int \<Rightarrow> u8 list \<Rightarrow> nat \<Rightarrow> 'z kpipe_scheme \<Rightarrow> (int, 'z kpipe_scheme) res" where
  "pipewrite_result p n bs i s =
     (let t = pipe_after p (pipe.puts bs (pipes s p)) s; pt = woken (ChPipeR p) (ptable s) in
      if pipe_len (pipes s p) + length bs \<le> PIPESIZE then Ok n (t\<lparr>ptable := pt, held := []\<rparr>)
      else if \<not> pi_readopen (pipes s p) \<or> p_killed (cur s) then Ok (-1) (t\<lparr>held := []\<rparr>)
      else Switch (Asleep (ChPipeW p)) (t\<lparr>held := [LPtable], ptable := pt(i := go_to_sleep (ChPipeW p) (pt i))\<rparr>))"

lemma run_pipewrite_loop:
  assumes "pipe_ok (pipes s p)" "held s = [LPipe p]" "curproc s = Some i"
  shows "pipewrite_loop p n bs s = pipewrite_result p n bs i s"
  using assms
proof (induction bs arbitrary: s)
  case Nil
  then show ?case by (simp add: kop_simps pipewrite_result_def Let_def pipe_ok_def)
next
  case (Cons c cs)
  note full = pipe_full_iff [OF Cons.prems(1)]
  show ?case
  proof (cases "pipe_full (pipes s p)")
    case True
    with full Cons.prems show ?thesis
      by (simp add: kop_simps pipewrite_result_def Let_def run_sleep [where i = i])
  next
    case False
    with full Cons.prems(1) have lt: "pipe_len (pipes s p) < PIPESIZE" by (simp add: pipe_ok_def)
    let ?t = "pipe_after p (pipe_put c (pipes s p)) s"
    have ok: "pipe_ok (pipes ?t p)" using pipe_put_ok(1) [OF Cons.prems(1) lt] by simp
    have len: "pipe_len (pipe_put c (pipes s p)) = Suc (pipe_len (pipes s p))"
      using arg_cong [OF pipe_put_ok(2) [OF Cons.prems(1) lt], of length] by simp
    have op: "pi_readopen (pipe_put c (pipes s p)) = pi_readopen (pipes s p)" "cur ?t = cur s"
      by (simp_all add: pipe_put_def cur_def)
    have "pipewrite_loop p n (c # cs) s = pipewrite_loop p n cs ?t" using False by (simp add: kop_simps)
    also have "\<dots> = pipewrite_result p n cs i ?t" using ok Cons.prems by (intro Cons.IH) simp_all
    also have "\<dots> = pipewrite_result p n (c # cs) i s"
      using False lt by (simp add: pipewrite_result_def Let_def len op)
    finally show ?thesis .
  qed
qed

text \<open>
  C9.  \<open>pipewrite\<close> on a pipe with its ring buffer in order appends as many bytes as there is room for, across
  wrap-around of the buffer and of the counters.  It returns the caller's count when all bytes fit, after waking the readers; else
  it returns -1 if no reader is left or the writer was killed, or goes to sleep on the pipe's write channel
  with the readers woken.  It never panics.
\<close>

theorem pipewrite_appends:
  assumes "pipe_ok (pipes s p)" "held s = []" "curproc s = Some i"
  shows "\<exists>x. pipe_ok x \<and> pipe_queue x = pipe_queue (pipes s p) @ take (PIPESIZE - length (pipe_queue (pipes s p))) bs \<and>
    pipewrite p n bs s =
      (if length (pipe_queue (pipes s p)) + length bs \<le> PIPESIZE
       then Ok n (pipe_after p x s\<lparr>ptable := woken (ChPipeR p) (ptable s)\<rparr>)
       else if \<not> pi_readopen (pipes s p) \<or> p_killed (cur s) then Ok (-1) (pipe_after p x s)
       else Switch (Asleep (ChPipeW p)) (pipe_after p x s\<lparr>held := [LPtable],
         ptable := (woken (ChPipeR p) (ptable s))(i := go_to_sleep (ChPipeW p) (woken (ChPipeR p) (ptable s) i))\<rparr>))"
proof -
  let ?s = "s\<lparr>held := [LPipe p]\<rparr>" and ?x = "pipe.puts bs (pipes s p)"
  have [simp]: "pipe_after p x ?s = (pipe_after p x s)\<lparr>held := [LPipe p]\<rparr>" "cur ?s = cur s" for x
    by (simp_all add: pipe_after_def cur_def)
  have "pipewrite p n bs s = pipewrite_result p n bs i ?s"
    using assms run_pipewrite_loop [of ?s p i n bs] by (simp add: pipewrite_def kop_simps)
  then show ?thesis
    using pipe.puts_spec [OF assms(1), of bs] assms(2)
    by (intro exI [of _ ?x]) (simp add: pipewrite_result_def Let_def pipe_after_def)
qed

section \<open>Reading\<close>

lemma run_piperead_copy:
  "piperead_copy p n acc s = (case pipe.takes n (pipes s p) of (bs, x) \<Rightarrow> Ok (acc @ bs) (pipe_after p x s))"
  by (induction n arbitrary: acc s) (auto simp: kop_simps split: prod.splits)

text \<open>
  C10.  \<open>piperead\<close> removes at most \<open>n\<close> bytes from the front of the queue, returns them in order with their number and
  wakes the writers.  On an empty pipe with a writer it returns -1 if the reader was killed and goes to sleep
  otherwise; on an empty pipe without writers it returns 0.
\<close>

theorem piperead_takes:
  assumes "pipe_ok (pipes s p)" "held s = []" "curproc s = Some i"
  shows "\<exists>x. pipe_ok x \<and> pipe_queue x = drop (nat n) (pipe_queue (pipes s p)) \<and>
    piperead p n s =
      (if pipe_queue (pipes s p) = [] \<and> pi_writeopen (pipes s p)
       then if p_killed (cur s) then Ok (-1, []) s
         else Switch (Asleep (ChPipeR p)) (s\<lparr>held := [LPtable], ptable := (ptable s)(i := go_to_sleep (ChPipeR p) (ptable s i))\<rparr>)
       else let bs = take (nat n) (pipe_queue (pipes s p)) in
         Ok (int (length bs), bs) (pipe_after p x s\<lparr>ptable := woken (ChPipeW p) (ptable s)\<rparr>))"
proof -
  let ?s = "s\<lparr>held := [LPipe p]\<rparr>"
  obtain bs x where t: "pipe.takes (nat n) (pipes s p) = (bs, x)" by fastforce
  note spec = pipe.takes_spec [OF assms(1) t]
  have c: "cur ?s = cur s" by (simp add: cur_def)
  have e: "pipe_empty (pipes s p) \<longleftrightarrow> pipe_queue (pipes s p) = []" by (rule pipe.empty_iff [OF assms(1)])
  show ?thesis
    using assms t spec
    by (intro exI [of _ x]) (simp add: piperead_def piperead_loop_def kop_simps run_piperead_copy run_sleep [where i = i] c e
        Let_def pipe_after_def)
qed

text \<open>A pipe whose counters are about to wrap around, holding two bytes.\<close>

definition wrapping_pipe :: pipe where
  "wrapping_pipe = \<lparr>pi_data = (\<lambda>i. if i = 511 then 65 else 66), pi_nread = W32 - 1, pi_nwrite = 1,
     pi_readopen = True, pi_writeopen = True\<rparr>"

lemma wrapping_pipe_ok: "pipe_ok wrapping_pipe" "pipe_queue wrapping_pipe = [65, 66]"
  by (simp_all add: pipe_ok_def pipe_queue_def pipe_len_def wrapping_pipe_def numeral_2_eq_2)

definition piping :: kuser where
  "piping = idle_kernel\<lparr>pipes := (\<lambda>_. wrapping_pipe)\<rparr>"

lemma piping_fields [simp]: "pipes piping p = wrapping_pipe" "held piping = []" "curproc piping = Some 0"
  by (simp_all add: piping_def)

theorem pipewrite_appends_witness:
  "\<exists>x. pipe_queue x = [65, 66, 67] \<and>
     pipewrite 0 1 [67] piping = Ok 1 (pipe_after 0 x piping\<lparr>ptable := woken (ChPipeR 0) (ptable piping)\<rparr>)"
  using pipewrite_appends [of piping 0 0 "[67]" 1] wrapping_pipe_ok by auto

theorem piperead_takes_witness:
  "\<exists>x. pipe_queue x = [66] \<and>
     piperead 0 1 piping = Ok (1, [65]) (pipe_after 0 x piping\<lparr>ptable := woken (ChPipeW 0) (ptable piping)\<rparr>)"
  using piperead_takes [of piping 0 0 1] wrapping_pipe_ok by auto

end
