(* ===== verification/User.thy ===== *)
theory User
  imports Fs
begin

text \<open>
  User programs.  A program sees the kernel through its system calls only, so it is modelled as a function of the replies it gets: the
  state is the list of replies still to come and the calls made so far.  A program that has made a call to which there is no reply yet is
  blocked; \<open>exit\<close> and \<open>exec\<close> that succeeds end it; reading or writing outside of an array or a missing argument of \<open>printf\<close> is a fault.
  The library of \<^verbatim>\<open>src/ulib.c\<close> and \<^verbatim>\<open>src/printf.c\<close> is here too.
\<close>

section \<open>System calls\<close>

datatype ucall =
    UFork | UExit | UWait | UPipe | URead int nat | UWrite int "u8 list" | UClose int | UKill int | UExec cstring "cstring list"
  | UOpen cstring nat | UMknod cstring int int | UUnlink cstring | UFstat int | ULink cstring cstring | UMkdir cstring
  | UChdir cstring | UDup int | UGetpid | USbrk int | USleep int | UUptime

record ureply =
  rv :: int
  rdata :: "u8 list"
  rstat :: stat
  rpipe :: "int \<times> int"

record uworld =
  replies :: "ureply list"
  calls :: "ucall list"

datatype 'a ures = URet 'a uworld | UExited uworld | UBlocked uworld | UFault uworld

type_synonym 'a uprog = "uworld \<Rightarrow> 'a ures"

definition uret :: "'a \<Rightarrow> 'a uprog" where
  "uret a = (\<lambda>w. URet a w)"

definition ubind :: "'a uprog \<Rightarrow> ('a \<Rightarrow> 'b uprog) \<Rightarrow> 'b uprog" where
  "ubind f g = (\<lambda>w. case f w of URet a v \<Rightarrow> g a v | UExited v \<Rightarrow> UExited v | UBlocked v \<Rightarrow> UBlocked v | UFault v \<Rightarrow> UFault v)"

abbreviation uthen :: "'a uprog \<Rightarrow> 'b uprog \<Rightarrow> 'b uprog" where
  "uthen f g \<equiv> ubind f (\<lambda>_. g)"

definition usys :: "ucall \<Rightarrow> ureply uprog" where
  "usys c = (\<lambda>w. let v = w\<lparr>calls := calls w @ [c]\<rparr> in
     case replies w of [] \<Rightarrow> UBlocked v | r # rs \<Rightarrow> URet r (v\<lparr>replies := rs\<rparr>))"

definition uexit :: "'a uprog" where
  "uexit = (\<lambda>w. UExited (w\<lparr>calls := calls w @ [UExit]\<rparr>))"

definition ufault :: "'a uprog" where
  "ufault = (\<lambda>w. UFault w)"

definition sysv :: "ucall \<Rightarrow> int uprog" where
  "sysv c = ubind (usys c) (\<lambda>r. uret (rv r))"

text \<open>\<open>exec\<close> returns only if it fails; a reply that is not negative means that the program was replaced.\<close>

definition uexec :: "cstring \<Rightarrow> cstring list \<Rightarrow> unit uprog" where
  "uexec path argv = ubind (usys (UExec path argv)) (\<lambda>r. if rv r < 0 then uret () else (\<lambda>w. UExited w))"

lemma ubind_cong [fundef_cong]:
  "w = w' \<Longrightarrow> f w' = f' w' \<Longrightarrow> (\<And>a v. f' w' = URet a v \<Longrightarrow> g a v = g' a v) \<Longrightarrow> ubind f g w = ubind f' g' w'"
  by (auto simp: ubind_def split: ures.splits)

lemmas u_simps = ubind_def uret_def usys_def uexit_def ufault_def sysv_def uexec_def

text \<open>No program gives a reply back, and a system call uses one up.\<close>

definition consumes :: "'a uprog \<Rightarrow> bool" where
  "consumes f \<longleftrightarrow> (\<forall>w a v. f w = URet a v \<longrightarrow> length (replies v) \<le> length (replies w))"

lemma consumesD: "consumes f \<Longrightarrow> f w = URet a v \<Longrightarrow> length (replies v) \<le> length (replies w)"
  by (simp add: consumes_def)

lemma consumes_uret [simp]: "consumes (uret a)"
  by (simp add: consumes_def uret_def)

lemma consumes_ubind: "consumes f \<Longrightarrow> (\<And>a. consumes (g a)) \<Longrightarrow> consumes (ubind f g)"
  unfolding consumes_def ubind_def by (fastforce split: ures.splits)

lemma usys_shorter: "usys c w = URet r v \<Longrightarrow> length (replies v) < length (replies w)"
  by (auto simp: usys_def Let_def split: list.splits)

lemma consumes_usys [simp]: "consumes (usys c)"
  using usys_shorter by (fastforce simp: consumes_def)

lemma consumes_other [simp]: "consumes uexit" "consumes ufault" "consumes (sysv c)"
  by (simp_all add: consumes_def uexit_def ufault_def) (simp_all add: sysv_def consumes_ubind flip: consumes_def)

section \<open>Strings\<close>

definition str :: "string \<Rightarrow> cstring" where
  "str = map of_char"

abbreviation (input) "NL \<equiv> (0x0A :: u8)"
abbreviation (input) "O_RDONLY \<equiv> (0 :: nat)"
abbreviation (input) "O_WRONLY \<equiv> (1 :: nat)"
abbreviation (input) "O_RDWR \<equiv> (2 :: nat)"
abbreviation (input) "O_CREATE \<equiv> (0x200 :: nat)"

fun strcpy_u :: "cmem \<Rightarrow> nat \<Rightarrow> cstring \<Rightarrow> cmem" where
  "strcpy_u m s [] = m(s := 0)"
| "strcpy_u m s (c # t) = strcpy_u (m(s := c)) (s + 1) t"

fun strcmp_u :: "cstring \<Rightarrow> cstring \<Rightarrow> int" where
  "strcmp_u (p # ps) (q # qs) = (if p = q then strcmp_u ps qs else int (unat p) - int (unat q))"
| "strcmp_u (p # ps) [] = int (unat p)"
| "strcmp_u [] (q # qs) = - int (unat q)"
| "strcmp_u [] [] = 0"

fun strchr_u :: "cstring \<Rightarrow> u8 \<Rightarrow> nat option" where
  "strchr_u [] c = None"
| "strchr_u (d # s) c = (if d = c then Some 0 else map_option Suc (strchr_u s c))"

fun memset_u :: "cmem \<Rightarrow> nat \<Rightarrow> u8 \<Rightarrow> nat \<Rightarrow> cmem" where
  "memset_u m dst c n = stosb m dst c n"

text \<open>\<open>memmove\<close> of the user library copies upwards only.\<close>

fun memmove_u :: "cmem \<Rightarrow> nat \<Rightarrow> nat \<Rightarrow> nat \<Rightarrow> cmem" where
  "memmove_u m dst src 0 = m"
| "memmove_u m dst src (Suc n) = memmove_u (m(dst := m src)) (dst + 1) (src + 1) n"

text \<open>The 32-bit arithmetic of \<open>atoi\<close>; the result is the word read as a signed number.\<close>

fun atoi_loop :: "u32 \<Rightarrow> cstring \<Rightarrow> u32" where
  "atoi_loop n [] = n"
| "atoi_loop n (c # s) = (if 0x30 \<le> c \<and> c \<le> 0x39 then atoi_loop (n * 10 + ucast c - 0x30) s else n)"

definition atoi :: "cstring \<Rightarrow> int" where
  "atoi s = sint (atoi_loop 0 s)"

text \<open>\<open>gets\<close> reads one byte at a time up to a line end, the end of input or one byte less than the buffer holds.\<close>

fun gets_loop :: "nat \<Rightarrow> u8 list \<Rightarrow> cstring uprog" where
  "gets_loop 0 acc = uret acc"
| "gets_loop (Suc n) acc =
     ubind (usys (URead 0 1)) (\<lambda>r.
     if rv r < 1 then uret acc
     else case rdata r of
       [] \<Rightarrow> ufault
     | c # _ \<Rightarrow> if c = NL \<or> c = 0x0D then uret (acc @ [c]) else gets_loop n (acc @ [c]))"

definition gets :: "nat \<Rightarrow> cstring uprog" where
  "gets nmax = gets_loop (nmax - 1) []"

definition stat_u :: "cstring \<Rightarrow> (int \<times> stat option) uprog" where
  "stat_u n =
     ubind (sysv (UOpen n O_RDONLY)) (\<lambda>fd.
     if fd < 0 then uret (-1, None)
     else ubind (usys (UFstat fd)) (\<lambda>r. uthen (sysv (UClose fd)) (uret (rv r, Some (rstat r)))))"

section \<open>printf\<close>

definition putc :: "int \<Rightarrow> u8 \<Rightarrow> int uprog" where
  "putc fd c = sysv (UWrite fd [c])"

fun puts :: "int \<Rightarrow> cstring \<Rightarrow> unit uprog" where
  "puts fd [] = uret ()"
| "puts fd (c # s) = uthen (putc fd c) (puts fd s)"

definition digits_u :: "u8 list" where
  "digits_u = str ''0123456789ABCDEF''"

function printint_u_loop :: "nat \<Rightarrow> nat \<Rightarrow> u8 list" where
  "printint_u_loop base x =
     digits_u ! (x mod base) # (if x div base = 0 \<or> base < 2 then [] else printint_u_loop base (x div base))"
  by pat_completeness auto
termination
  by (relation "measure (\<lambda>(base, x). x)") (auto simp: div_eq_0_iff)

declare printint_u_loop.simps [simp del]

definition printint_u :: "u32 \<Rightarrow> nat \<Rightarrow> bool \<Rightarrow> u8 list" where
  "printint_u xx base sg =
     (let neg = sg \<and> sint xx < 0; x = (if neg then - xx else xx)
      in rev (printint_u_loop base (unat x) @ (if neg then [0x2D] else [])))"

datatype uarg = UInt u32 | UStr cstring | UNull

text \<open>One conversion: what it prints and the arguments left over.\<close>

definition printf_conv :: "int \<Rightarrow> u8 \<Rightarrow> uarg list \<Rightarrow> (unit uprog \<times> uarg list) option" where
  "printf_conv fd d args =
     (if d = 0x64 then (case args of UInt x # as \<Rightarrow> Some (puts fd (printint_u x 10 True), as) | _ \<Rightarrow> None)
      else if d = 0x78 \<or> d = 0x70 then (case args of UInt x # as \<Rightarrow> Some (puts fd (printint_u x 16 False), as) | _ \<Rightarrow> None)
      else if d = 0x73 then
        (case args of UStr s # as \<Rightarrow> Some (puts fd s, as) | UNull # as \<Rightarrow> Some (puts fd (str ''(null)''), as) | _ \<Rightarrow> None)
      else if d = 0x63 then (case args of UInt x # as \<Rightarrow> Some (puts fd [ucast x], as) | _ \<Rightarrow> None)
      else if d = 0x25 then Some (puts fd [d], args)
      else Some (puts fd [0x25, d], args))"

fun printf_u :: "int \<Rightarrow> cstring \<Rightarrow> uarg list \<Rightarrow> unit uprog" where
  "printf_u fd [] args = uret ()"
| "printf_u fd [c] args = (if c = 0x25 then uret () else puts fd [c])"
| "printf_u fd (c # d # fmt) args =
     (if c = 0x25 then
        (case printf_conv fd d args of Some (p, as) \<Rightarrow> uthen p (printf_u fd fmt as) | None \<Rightarrow> ufault)
      else uthen (putc fd c) (printf_u fd (d # fmt) args))"

section \<open>Properties\<close>

lemma consumes_putc [simp]: "consumes (putc fd c)"
  by (simp add: putc_def)

lemma consumes_puts [simp]: "consumes (puts fd s)"
  by (induction s) (simp_all add: consumes_ubind)

lemma consumes_conv: "printf_conv fd d args = Some (p, as) \<Longrightarrow> consumes p"
  by (cases args; cases "hd args") (auto simp: printf_conv_def intro!: consumes_ubind split: if_splits)

lemma consumes_printf [simp]: "consumes (printf_u fd fmt args)"
proof (induction fd fmt args rule: printf_u.induct)
  case (3 fd c d fmt args)
  then show ?case using consumes_conv by (cases "printf_conv fd d args") (auto intro!: consumes_ubind)
qed (simp_all add: consumes_ubind)

lemma consumes_stat [simp]: "consumes (stat_u n)"
  by (auto simp: stat_u_def consumes_ubind)

text \<open>Printing a number and reading it back.\<close>

lemma digits_u_nth: "d < 10 \<Longrightarrow> digits_u ! d = 0x30 + of_nat d"
proof -
  assume "d < 10"
  then have "d = 0 \<or> d = 1 \<or> d = 2 \<or> d = 3 \<or> d = 4 \<or> d = 5 \<or> d = 6 \<or> d = 7 \<or> d = 8 \<or> d = 9" by presburger
  then show ?thesis by (elim disjE) (simp_all add: digits_u_def str_def)
qed

lemma digit_value:
  assumes "d < 10"
  shows "0x30 \<le> (0x30 + of_nat d :: u8) \<and> (0x30 + of_nat d :: u8) \<le> 0x39 \<and> ucast (0x30 + of_nat d :: u8) = (0x30 + of_nat d :: u32)"
proof -
  from assms have "d = 0 \<or> d = 1 \<or> d = 2 \<or> d = 3 \<or> d = 4 \<or> d = 5 \<or> d = 6 \<or> d = 7 \<or> d = 8 \<or> d = 9" by presburger
  then show ?thesis by (elim disjE) simp_all
qed

lemma atoi_loop_digit: "d < 10 \<Longrightarrow> atoi_loop n (digits_u ! d # s) = atoi_loop (n * 10 + of_nat d) s"
  using digit_value [of d] by (simp add: digits_u_nth)

lemma atoi_loop_print: "atoi_loop n (rev (printint_u_loop 10 x) @ s) = atoi_loop (n * 10 ^ length (printint_u_loop 10 x) + of_nat x) s"
proof (induction x arbitrary: s rule: less_induct)
  case (less x)
  show ?case
  proof (cases "x div 10 = 0")
    case True
    then have "x < 10" by simp
    then show ?thesis using True atoi_loop_digit [of x n s] by (simp add: printint_u_loop.simps [of 10 x])
  next
    case False
    then have lt: "x div 10 < x" by simp
    let ?l = "printint_u_loop 10 (x div 10)"
    have u: "printint_u_loop 10 x = digits_u ! (x mod 10) # ?l" using False by (simp add: printint_u_loop.simps [of 10 x])
    have "atoi_loop n (rev (printint_u_loop 10 x) @ s) = atoi_loop n (rev ?l @ (digits_u ! (x mod 10) # s))" by (simp add: u)
    also have "\<dots> = atoi_loop ((n * 10 ^ length ?l + of_nat (x div 10)) * 10 + of_nat (x mod 10)) s"
      unfolding less.IH [OF lt] by (rule atoi_loop_digit) simp
    also have "(n * 10 ^ length ?l + of_nat (x div 10)) * 10 + of_nat (x mod 10) = n * 10 ^ length (printint_u_loop 10 x) + of_nat (x div 10 * 10 + x mod 10)"
      unfolding u of_nat_add of_nat_mult by (simp add: algebra_simps)
    finally show ?thesis by simp
  qed
qed

text \<open>
  C40.  \<open>atoi\<close> reads back what \<open>printf\<close> with \<open>%d\<close> prints for a number that is not negative.
\<close>

theorem atoi_printint:
  assumes "0 \<le> sint x"
  shows "atoi (printint_u x 10 True) = sint x"
proof -
  have "printint_u x 10 True = rev (printint_u_loop 10 (unat x))" using assms by (simp add: printint_u_def)
  then show ?thesis using atoi_loop_print [of 0 "unat x" "[]"] by (simp add: atoi_def)
qed

theorem atoi_printint_witness: "atoi (printint_u 2147483647 10 True) = 2147483647"
  using atoi_printint [of 2147483647] by simp

end
