(* ===== verification/Regex.thy ===== *)
theory Regex
  imports Fs
begin

text \<open>
  The pattern matcher of \<^verbatim>\<open>src/grep.c\<close> and what its patterns mean.  A C string is the list of its bytes before the terminating
  zero, so \<open>re[1]\<close> of a one-character string is 0 and matches no constructor of the second pattern below.
\<close>

abbreviation (input) "STAR \<equiv> (0x2A :: u8)"
abbreviation (input) "DOT \<equiv> (0x2E :: u8)"
abbreviation (input) "DOLLAR \<equiv> (0x24 :: u8)"
abbreviation (input) "CARET \<equiv> (0x5E :: u8)"

section \<open>The matcher\<close>

text \<open>
  \<open>matchhere\<close> and \<open>matchstar\<close> call each other; the do-while loop of \<open>matchstar\<close> is its own recursion.
\<close>

function (sequential) matchhere :: "cstring \<Rightarrow> cstring \<Rightarrow> bool" and matchstar :: "u8 \<Rightarrow> cstring \<Rightarrow> cstring \<Rightarrow> bool" where
  "matchhere [] line = True"
| "matchhere (c # d # re) line =
     (if d = STAR then matchstar c re line
      else case line of [] \<Rightarrow> False | t # ts \<Rightarrow> (c = DOT \<or> c = t) \<and> matchhere (d # re) ts)"
| "matchhere [c] line =
     (if c = DOLLAR then line = []
      else case line of [] \<Rightarrow> False | t # ts \<Rightarrow> (c = DOT \<or> c = t) \<and> matchhere [] ts)"
| "matchstar c re line =
     (matchhere re line \<or> (case line of [] \<Rightarrow> False | t # ts \<Rightarrow> (t = c \<or> c = DOT) \<and> matchstar c re ts))"
  by pat_completeness auto
termination
  by (relation "measures [\<lambda>x. case x of Inl (re, line) \<Rightarrow> 2 * length re | Inr (c, re, line) \<Rightarrow> 2 * length re + 1,
      \<lambda>x. case x of Inl (re, line) \<Rightarrow> length line | Inr (c, re, line) \<Rightarrow> length line]") auto

declare matchstar.simps [simp del]

fun match_from :: "cstring \<Rightarrow> cstring \<Rightarrow> bool" where
  "match_from re line = (matchhere re line \<or> (case line of [] \<Rightarrow> False | t # ts \<Rightarrow> match_from re ts))"

declare match_from.simps [simp del]

definition match :: "cstring \<Rightarrow> cstring \<Rightarrow> bool" where
  "match re line = (if re \<noteq> [] \<and> hd re = CARET then matchhere (tl re) line else match_from re line)"

section \<open>What patterns mean\<close>

text \<open>
  A pattern is a sequence of pieces, each one character or any number of characters of a class, possibly anchored at the end of the line.
\<close>

datatype piece = One u8 | Many u8

fun pieces :: "cstring \<Rightarrow> piece list" where
  "pieces [] = []"
| "pieces (c # d # re) = (if d = STAR then Many c # pieces re else One c # pieces (d # re))"
| "pieces [c] = (if c = DOLLAR then [] else [One c])"

fun at_end :: "cstring \<Rightarrow> bool" where
  "at_end [] = False"
| "at_end (c # d # re) = (if d = STAR then at_end re else at_end (d # re))"
| "at_end [c] = (c = DOLLAR)"

definition char_class :: "u8 \<Rightarrow> u8 set" where
  "char_class c = {t. c = DOT \<or> t = c}"

fun lang :: "piece list \<Rightarrow> cstring set" where
  "lang [] = {[]}"
| "lang (One c # ps) = {t # w |t w. t \<in> char_class c \<and> w \<in> lang ps}"
| "lang (Many c # ps) = {u @ w |u w. set u \<subseteq> char_class c \<and> w \<in> lang ps}"

text \<open>A prefix of the text is in the language, all of it if the pattern ends in a dollar sign.\<close>

definition matches_here :: "cstring \<Rightarrow> cstring \<Rightarrow> bool" where
  "matches_here re line \<longleftrightarrow> (\<exists>u v. line = u @ v \<and> u \<in> lang (pieces re) \<and> (at_end re \<longrightarrow> v = []))"

lemma lang_One: "line \<in> lang (One c # ps) \<longleftrightarrow> (\<exists>t w. line = t # w \<and> t \<in> char_class c \<and> w \<in> lang ps)"
  by auto

lemma here_One:
  assumes "pieces re = One c # pieces re'" "at_end re = at_end re'"
  shows "matches_here re line \<longleftrightarrow> (case line of [] \<Rightarrow> False | t # ts \<Rightarrow> (c = DOT \<or> c = t) \<and> matches_here re' ts)"
proof (cases line)
  case Nil
  then show ?thesis by (auto simp: matches_here_def assms)
next
  case (Cons t ts)
  have "matches_here re (t # ts) \<longleftrightarrow> (\<exists>w v. ts = w @ v \<and> t \<in> char_class c \<and> w \<in> lang (pieces re') \<and> (at_end re' \<longrightarrow> v = []))"
    by (auto simp: matches_here_def assms Cons_eq_append_conv)
  then show ?thesis using Cons by (auto simp: matches_here_def char_class_def)
qed

lemma here_Many:
  assumes "pieces re = Many c # pieces re'" "at_end re = at_end re'"
  shows "matches_here re line \<longleftrightarrow> (\<exists>u v. line = u @ v \<and> set u \<subseteq> char_class c \<and> matches_here re' v)"
proof
  assume "matches_here re line"
  then obtain p v where p: "line = p @ v" "p \<in> lang (Many c # pieces re')" "at_end re' \<longrightarrow> v = []"
    unfolding matches_here_def assms by blast
  from p(2) obtain u w where "p = u @ w" "set u \<subseteq> char_class c" "w \<in> lang (pieces re')" by auto
  with p have "line = (u @ w) @ v" "set u \<subseteq> char_class c" "w \<in> lang (pieces re')" "at_end re' \<longrightarrow> v = []" by simp_all
  then show "\<exists>u v. line = u @ v \<and> set u \<subseteq> char_class c \<and> matches_here re' v"
    by (intro exI [of _ u] exI [of _ "w @ v"]) (auto simp: matches_here_def)
next
  assume "\<exists>u v. line = u @ v \<and> set u \<subseteq> char_class c \<and> matches_here re' v"
  then obtain u w v where "line = u @ w @ v" "set u \<subseteq> char_class c" "w \<in> lang (pieces re')" "at_end re' \<longrightarrow> v = []"
    unfolding matches_here_def by blast
  then show "matches_here re line"
    unfolding matches_here_def assms by (intro exI [of _ "u @ w"] exI [of _ v]) auto
qed

lemma star_step:
  "(\<exists>u v. line = u @ v \<and> set u \<subseteq> A \<and> P v) \<longleftrightarrow>
   P line \<or> (case line of [] \<Rightarrow> False | t # ts \<Rightarrow> t \<in> A \<and> (\<exists>u v. ts = u @ v \<and> set u \<subseteq> A \<and> P v))"
proof (cases line)
  case (Cons t ts)
  have "(\<exists>u v. t # ts = u @ v \<and> set u \<subseteq> A \<and> P v) \<longleftrightarrow> P (t # ts) \<or> (\<exists>u v. ts = u @ v \<and> t \<in> A \<and> set u \<subseteq> A \<and> P v)"
  proof
    assume "\<exists>u v. t # ts = u @ v \<and> set u \<subseteq> A \<and> P v"
    then obtain u v where "t # ts = u @ v" "set u \<subseteq> A" "P v" by blast
    then show "P (t # ts) \<or> (\<exists>u v. ts = u @ v \<and> t \<in> A \<and> set u \<subseteq> A \<and> P v)" by (cases u) auto
  next
    assume "P (t # ts) \<or> (\<exists>u v. ts = u @ v \<and> t \<in> A \<and> set u \<subseteq> A \<and> P v)"
    then show "\<exists>u v. t # ts = u @ v \<and> set u \<subseteq> A \<and> P v"
    proof
      assume "P (t # ts)"
      then show ?thesis by (intro exI [of _ "[]"] exI [of _ "t # ts"]) simp
    next
      assume "\<exists>u v. ts = u @ v \<and> t \<in> A \<and> set u \<subseteq> A \<and> P v"
      then obtain u v where "ts = u @ v" "t \<in> A" "set u \<subseteq> A" "P v" by blast
      then show ?thesis by (intro exI [of _ "t # u"] exI [of _ v]) simp
    qed
  qed
  then show ?thesis using Cons by auto
qed auto

lemma matchhere_correct:
  "matchhere re line = matches_here re line"
  "matchstar c re line = (\<exists>u v. line = u @ v \<and> set u \<subseteq> char_class c \<and> matches_here re v)"
proof (induction re line and c re line rule: matchhere_matchstar.induct)
  case (1 line)
  then show ?case by (auto simp: matches_here_def)
next
  case (2 c d re line)
  show ?case
  proof (cases "d = STAR")
    case True
    then show ?thesis using 2(1) here_Many [of "c # d # re" c re] by simp
  next
    case False
    then show ?thesis using 2(2) here_One [of "c # d # re" c "d # re"] by (cases line) simp_all
  qed
next
  case (3 c line)
  show ?case
  proof (cases "c = DOLLAR")
    case True
    then show ?thesis by (auto simp: matches_here_def)
  next
    case False
    then show ?thesis using 3 here_One [of "[c]" c "[]"] by (cases line) simp_all
  qed
next
  case (4 c re line)
  have "t \<in> char_class c \<longleftrightarrow> t = c \<or> c = DOT" for t by (auto simp: char_class_def)
  then show ?case using 4 unfolding matchstar.simps [of c re line] star_step [of line] by (auto split: list.splits)
qed

lemma match_from_correct: "match_from re line \<longleftrightarrow> (\<exists>u v. line = u @ v \<and> matches_here re v)"
proof (induction line)
  case Nil
  then show ?case by (simp add: match_from.simps [of re "[]"] matchhere_correct)
next
  case (Cons t ts)
  have "(\<exists>u v. t # ts = u @ v \<and> matches_here re v) \<longleftrightarrow> matches_here re (t # ts) \<or> (\<exists>u v. ts = u @ v \<and> matches_here re v)"
    by (auto simp: Cons_eq_append_conv)
  then show ?case using Cons by (simp add: match_from.simps [of re "t # ts"] matchhere_correct)
qed

text \<open>
  C37.  The backtracking matcher of \<open>grep\<close> decides the language of the pattern: \<open>match\<close> returns 1 exactly if some part of the line,
  starting at its beginning after a caret and ending at its end before a dollar sign, is in the language the pattern denotes.
\<close>

theorem match_correct:
  "match re line \<longleftrightarrow>
     (\<exists>pre u post. line = pre @ u @ post \<and>
       (if re \<noteq> [] \<and> hd re = CARET
        then pre = [] \<and> u \<in> lang (pieces (tl re)) \<and> (at_end (tl re) \<longrightarrow> post = [])
        else u \<in> lang (pieces re) \<and> (at_end re \<longrightarrow> post = [])))"
proof (cases "re \<noteq> [] \<and> hd re = CARET")
  case True
  then show ?thesis unfolding match_def by (auto simp: matchhere_correct matches_here_def)
next
  case False
  then show ?thesis unfolding match_def by (simp add: match_from_correct) (auto simp: matches_here_def)
qed

text \<open>The pattern \<open>a.*b$\<close> on the line \<open>xayb\<close>.\<close>

theorem match_correct_witness: "match [0x61, 0x2E, 0x2A, 0x62, 0x24] [0x78, 0x61, 0x79, 0x62]"
proof -
  let ?re = "[0x61, 0x2E, 0x2A, 0x62, 0x24] :: cstring"
  have "pieces ?re = [One 0x61, Many 0x2E, One 0x62]" by simp
  moreover have "[0x62] \<in> lang [One 0x62]" by (simp add: char_class_def)
  then have "[0x79] @ [0x62] \<in> lang [Many 0x2E, One 0x62]" unfolding lang.simps(3) by (force simp: char_class_def)
  then have "[0x61, 0x79, 0x62] \<in> lang [One 0x61, Many 0x2E, One 0x62]" unfolding lang.simps(2) by (simp add: char_class_def)
  ultimately show ?thesis unfolding match_correct
    by (intro exI [of _ "[0x78]"] exI [of _ "[0x61, 0x79, 0x62]"] exI [of _ "[]"]) simp
qed

end
