(* ===== verification/Programs.thy ===== *)
theory Programs
  imports User Regex Args
begin

text \<open>
  The user programs of \<^verbatim>\<open>src/\<close> but the shell.  \<open>argv\<close> is the list of the arguments, the program name first.  A reply to \<open>read\<close>
  carries the bytes stored.  Loops end because each turn makes a system call and uses up a reply.
\<close>

section \<open>echo, kill, ln, mkdir, rm, zombie\<close>

fun echo_args :: "cstring list \<Rightarrow> unit uprog" where
  "echo_args [] = uret ()"
| "echo_args (a # as) =
     uthen (printf_u 1 (str ''%s%s'') [UStr a, UStr (if as \<noteq> [] then [0x20] else [NL])]) (echo_args as)"

definition echo_main :: "cstring list \<Rightarrow> unit uprog" where
  "echo_main argv = uthen (echo_args (tl argv)) uexit"

fun kill_args :: "cstring list \<Rightarrow> unit uprog" where
  "kill_args [] = uret ()"
| "kill_args (a # as) = uthen (sysv (UKill (atoi a))) (kill_args as)"

definition kill_main :: "cstring list \<Rightarrow> unit uprog" where
  "kill_main argv =
     (if length argv < 1 then uthen (printf_u 2 (str ''usage: kill pid...'' @ [NL]) []) uexit
      else uthen (kill_args (tl argv)) uexit)"

definition ln_main :: "cstring list \<Rightarrow> unit uprog" where
  "ln_main argv =
     (if length argv \<noteq> 3 then uthen (printf_u 2 (str ''Usage: ln old new'' @ [NL]) []) uexit
      else ubind (sysv (ULink (argv ! 1) (argv ! 2))) (\<lambda>r.
        uthen (if r < 0 then printf_u 2 (str ''link %s %s: failed'' @ [NL]) [UStr (argv ! 1), UStr (argv ! 2)] else uret ()) uexit))"

fun rm_args :: "cstring list \<Rightarrow> unit uprog" where
  "rm_args [] = uret ()"
| "rm_args (a # as) =
     ubind (sysv (UUnlink a)) (\<lambda>r. if r < 0 then printf_u 2 (str ''rm: %s failed to delete'' @ [NL]) [UStr a] else rm_args as)"

definition rm_main :: "cstring list \<Rightarrow> unit uprog" where
  "rm_main argv =
     (if length argv < 2 then uthen (printf_u 2 (str ''Usage: rm files...'' @ [NL]) []) uexit else uthen (rm_args (tl argv)) uexit)"

fun mkdir_args :: "cstring list \<Rightarrow> unit uprog" where
  "mkdir_args [] = uret ()"
| "mkdir_args (a # as) =
     ubind (sysv (UMkdir a)) (\<lambda>r. if r < 0 then printf_u 2 (str ''mkdir: %s failed to create'' @ [NL]) [UStr a] else mkdir_args as)"

definition mkdir_main :: "cstring list \<Rightarrow> unit uprog" where
  "mkdir_main argv =
     (if length argv < 2 then uthen (printf_u 2 (str ''Usage: mkdir files...'' @ [NL]) []) uexit else uthen (mkdir_args (tl argv)) uexit)"

definition zombie_main :: "unit uprog" where
  "zombie_main = ubind (sysv UFork) (\<lambda>p. uthen (if p > 0 then sysv (USleep 5) else uret 0) uexit)"

section \<open>cat and wc\<close>

function cat :: "int \<Rightarrow> unit uprog" where
  "cat fd w =
     ubind (usys (URead fd 512)) (\<lambda>r v.
       if rv r > 0 then ubind (usys (UWrite 1 (rdata r))) (\<lambda>_ u. cat fd u) v
       else if rv r < 0 then uthen (printf_u 1 (str ''cat: read error'' @ [NL]) []) uexit v
       else uret () v) w"
  by pat_completeness auto
termination
  by (relation "measure (\<lambda>(_, w). length (replies w))") (auto dest!: usys_shorter)

declare cat.simps [simp del]

fun each_file :: "string \<Rightarrow> (int \<Rightarrow> cstring \<Rightarrow> unit uprog) \<Rightarrow> cstring list \<Rightarrow> unit uprog" where
  "each_file me body [] = uret ()"
| "each_file me body (a # as) =
     ubind (sysv (UOpen a 0)) (\<lambda>fd.
     if fd < 0 then uthen (printf_u 1 (str (me @ '': cannot open %s'') @ [NL]) [UStr a]) uexit
     else uthen (body fd a) (uthen (sysv (UClose fd)) (each_file me body as)))"

definition cat_main :: "cstring list \<Rightarrow> unit uprog" where
  "cat_main argv =
     (if length argv \<le> 1 then uthen (cat 0) uexit else uthen (each_file ''cat'' (\<lambda>fd _. cat fd) (tl argv)) uexit)"

record wcount =
  wc_l :: nat
  wc_w :: nat
  wc_c :: nat
  wc_in :: bool

definition wc_byte :: "u8 \<Rightarrow> wcount \<Rightarrow> wcount" where
  "wc_byte b x =
     (let x1 = x\<lparr>wc_c := wc_c x + 1, wc_l := (if b = NL then wc_l x + 1 else wc_l x)\<rparr> in
      if strchr_u [0x20, 0x0D, 0x09, 0x0A, 0x0B] b \<noteq> None then x1\<lparr>wc_in := False\<rparr>
      else if \<not> wc_in x1 then x1\<lparr>wc_w := wc_w x1 + 1, wc_in := True\<rparr>
      else x1)"

function wc_loop :: "int \<Rightarrow> wcount \<Rightarrow> (int \<times> wcount) uprog" where
  "wc_loop fd x w =
     ubind (usys (URead fd 512)) (\<lambda>r v. if rv r > 0 then wc_loop fd (fold wc_byte (rdata r) x) v else uret (rv r, x) v) w"
  by pat_completeness auto
termination
  by (relation "measure (\<lambda>(_, _, w). length (replies w))") (auto dest!: usys_shorter)

declare wc_loop.simps [simp del]

definition wc :: "int \<Rightarrow> cstring \<Rightarrow> unit uprog" where
  "wc fd name =
     ubind (wc_loop fd \<lparr>wc_l = 0, wc_w = 0, wc_c = 0, wc_in = False\<rparr>) (\<lambda>(n, x).
     if n < 0 then uthen (printf_u 1 (str ''wc: read error'' @ [NL]) []) uexit
     else printf_u 1 (str ''%d %d %d %s'' @ [NL]) [UInt (of_nat (wc_l x)), UInt (of_nat (wc_w x)), UInt (of_nat (wc_c x)), UStr name])"

definition wc_main :: "cstring list \<Rightarrow> unit uprog" where
  "wc_main argv =
     (if length argv \<le> 1 then uthen (wc 0 []) uexit else uthen (each_file ''wc'' wc (tl argv)) uexit)"

section \<open>grep\<close>

text \<open>\<open>strchr(p, c)\<close> in the global buffer of 1024 bytes; reading past its end is a fault.\<close>

datatype found = FFault | FNone | FAt nat

function strchr_buf :: "cmem \<Rightarrow> nat \<Rightarrow> u8 \<Rightarrow> found" where
  "strchr_buf buf p c =
     (if p \<ge> 1024 then FFault else if buf p = 0 then FNone else if buf p = c then FAt p else strchr_buf buf (p + 1) c)"
  by pat_completeness auto
termination
  by (relation "measure (\<lambda>(_, p, _). 1024 - p)") auto

declare strchr_buf.simps [simp del]

lemma strchr_buf_range: "strchr_buf buf p c = FAt q \<Longrightarrow> p \<le> q \<and> q < 1024 \<and> buf q = c"
  by (induction buf p c rule: strchr_buf.induct) (subst (asm) (2) strchr_buf.simps, fastforce split: if_splits)

function grep_scan :: "cstring \<Rightarrow> cmem \<Rightarrow> nat \<Rightarrow> (cmem \<times> nat) uprog" where
  "grep_scan pattern buf p w =
     (case strchr_buf buf p NL of
        FFault \<Rightarrow> ufault w
      | FNone \<Rightarrow> uret (buf, p) w
      | FAt q \<Rightarrow>
          if match pattern (slice buf p (q - p))
          then ubind (usys (UWrite 1 (slice buf p (q + 1 - p)))) (\<lambda>_ v. grep_scan pattern buf (q + 1) v) w
          else grep_scan pattern (buf(q := 0)) (q + 1) w)"
  by pat_completeness auto
termination
  by (relation "measure (\<lambda>(_, _, p, _). 1024 - p)") (auto dest: strchr_buf_range)

declare grep_scan.simps [simp del]

text \<open>
  \<open>m\<close> is the number of bytes the buffer holds.  A negative \<open>m\<close>, which the subtraction below can give, makes \<open>read\<close> store in front of
  the buffer.
\<close>

lemma consumes_grep_scan: "grep_scan pattern buf p w = URet a v \<Longrightarrow> length (replies v) \<le> length (replies w)"
proof (induction pattern buf p w rule: grep_scan.induct)
  case (1 pattern buf p w)
  show ?case
  proof (cases "strchr_buf buf p NL")
    case (FAt q)
    show ?thesis
    proof (cases "match pattern (slice buf p (q - p))")
      case True
      then have "ubind (usys (UWrite 1 (slice buf p (q + 1 - p)))) (\<lambda>_ v. grep_scan pattern buf (q + 1) v) w = URet a v"
        using 1(3) FAt by (simp add: grep_scan.simps [of pattern buf p w])
      then obtain r u where u: "usys (UWrite 1 (slice buf p (q + 1 - p))) w = URet r u" "grep_scan pattern buf (q + 1) u = URet a v"
        by (auto simp: ubind_def split: ures.splits)
      from 1(1) [OF FAt True u] usys_shorter [OF u(1)] show ?thesis by simp
    next
      case False
      then have "grep_scan pattern (buf(q := 0)) (q + 1) w = URet a v"
        using 1(3) FAt by (simp add: grep_scan.simps [of pattern buf p w])
      from 1(2) [OF FAt False this] show ?thesis .
    qed
  qed (use 1(3) in \<open>auto simp: grep_scan.simps [of pattern buf p w] ufault_def uret_def\<close>)
qed

function grep :: "cstring \<Rightarrow> int \<Rightarrow> cmem \<Rightarrow> int \<Rightarrow> cmem uprog" where
  "grep pattern fd buf m w =
     (if m < 0 then ufault w
      else ubind (usys (URead fd (1024 - nat m))) (\<lambda>r v.
        if rv r > 0 then
          ubind (grep_scan pattern (blit buf (nat m) (rdata r)) 0) (\<lambda>x u.
            let buf1 = fst x; p = snd x; m1 = (if p = 0 then 0 else m + rv r) in
            if m1 > 0 then grep pattern fd (memmove_u buf1 0 p (nat (m1 - int p))) (m1 - int p) u
            else grep pattern fd buf1 m1 u) v
        else uret buf v) w)"
  by pat_completeness auto
termination
  by (relation "measure (\<lambda>(_, _, _, _, w). length (replies w))") (auto dest!: usys_shorter consumes_grep_scan)

declare grep.simps [simp del]

text \<open>The buffer is a global variable, so the next file starts with what the last one left in it.\<close>

fun grep_files :: "cstring \<Rightarrow> cmem \<Rightarrow> cstring list \<Rightarrow> unit uprog" where
  "grep_files pattern buf [] = uret ()"
| "grep_files pattern buf (a # as) =
     ubind (sysv (UOpen a 0)) (\<lambda>fd.
     if fd < 0 then uthen (printf_u 1 (str ''grep: cannot open %s'' @ [NL]) [UStr a]) uexit
     else ubind (grep pattern fd buf 0) (\<lambda>buf1. uthen (sysv (UClose fd)) (grep_files pattern buf1 as)))"

definition grep_main :: "cstring list \<Rightarrow> unit uprog" where
  "grep_main argv =
     (if length argv \<le> 1 then uthen (printf_u 2 (str ''usage: grep pattern [file ...]'' @ [NL]) []) uexit
      else if length argv \<le> 2 then uthen (grep (argv ! 1) 0 (\<lambda>_. 0) 0) uexit
      else uthen (grep_files (argv ! 1) (\<lambda>_. 0) (drop 2 argv)) uexit)"

section \<open>ls\<close>

definition fmtname :: "cstring \<Rightarrow> cstring" where
  "fmtname path =
     (let p = rev (takeWhile (\<lambda>c. c \<noteq> slash) (rev path)) in
      if length p \<ge> DIRSIZ then p else p @ replicate (DIRSIZ - length p) 0x20)"

definition ls_line :: "cstring \<Rightarrow> stat \<Rightarrow> unit uprog" where
  "ls_line path st =
     printf_u 1 (str ''%s %d %d %d'' @ [NL])
       [UStr (fmtname path), UInt (of_int (st_type st)), UInt (of_nat (st_ino st)), UInt (of_nat (st_size st))]"

text \<open>The entries of a directory; the name in the entry ends at its first zero or at 14 characters.\<close>

function ls_dir :: "cstring \<Rightarrow> int \<Rightarrow> unit uprog" where
  "ls_dir path fd w =
     ubind (usys (URead fd 16)) (\<lambda>r v.
       if rv r \<noteq> 16 then uret () v
       else if de_inum (rdata r) = 0 then ls_dir path fd v
       else
         let name = path @ [slash] @ takeWhile (\<lambda>c. c \<noteq> 0) (de_name (rdata r)) in
         ubind (stat_u name) (\<lambda>x u.
           ubind (if fst x < 0 then printf_u 1 (str ''ls: cannot stat %s'' @ [NL]) [UStr name]
                  else case snd x of Some st \<Rightarrow> ls_line name st | None \<Rightarrow> ufault) (\<lambda>_ t. ls_dir path fd t) u) v) w"
  by pat_completeness auto
termination
proof (relation "measure (\<lambda>(_, _, w). length (replies w))")
  fix path fd w r v x u y t name
  assume "usys (URead fd 16) w = URet r v" and s: "stat_u name v = URet x u"
    and l: "(if fst x < 0 then printf_u 1 (str ''ls: cannot stat %s'' @ [NL]) [UStr name]
      else case snd x of None \<Rightarrow> ufault | Some st \<Rightarrow> ls_line name st) u = URet y t"
  moreover have "consumes (if fst x < 0 then printf_u 1 (str ''ls: cannot stat %s'' @ [NL]) [UStr name]
      else case snd x of None \<Rightarrow> ufault | Some st \<Rightarrow> ls_line name st)" by (simp add: ls_line_def split: option.split)
  ultimately show "((path, fd, t), path, fd, w) \<in> measure (\<lambda>(_, _, w). length (replies w))"
    using usys_shorter consumesD [OF consumes_stat s] consumesD by fastforce
qed (auto dest!: usys_shorter)

declare ls_dir.simps [simp del]

definition ls :: "cstring \<Rightarrow> unit uprog" where
  "ls path =
     ubind (sysv (UOpen path 0)) (\<lambda>fd.
     if fd < 0 then printf_u 2 (str ''ls: cannot open %s'' @ [NL]) [UStr path]
     else ubind (usys (UFstat fd)) (\<lambda>r.
       if rv r < 0 then
         uthen (printf_u 2 (str ''ls: cannot stat %s'' @ [NL]) [UStr path]) (uthen (sysv (UClose fd)) (uret ()))
       else
         uthen (if st_type (rstat r) = T_FILE then ls_line path (rstat r)
                else if st_type (rstat r) = T_DIR then
                  if length path + 1 + DIRSIZ + 1 > 512 then printf_u 1 (str ''ls: path too long'' @ [NL]) []
                  else ls_dir path fd
                else uret ())
               (uthen (sysv (UClose fd)) (uret ()))))"

fun ls_all :: "cstring list \<Rightarrow> unit uprog" where
  "ls_all [] = uret ()"
| "ls_all (a # as) = uthen (ls a) (ls_all as)"

definition ls_main :: "cstring list \<Rightarrow> unit uprog" where
  "ls_main argv = (if length argv < 2 then uthen (ls [0x2E]) uexit else uthen (ls_all (tl argv)) uexit)"

section \<open>init\<close>

text \<open>\<open>init\<close> waits for the shell it has started and for the orphans it was given.\<close>

function init_wait :: "int \<Rightarrow> unit uprog" where
  "init_wait pid w =
     ubind (usys UWait) (\<lambda>r v.
       if rv r \<ge> 0 \<and> rv r \<noteq> pid then ubind (printf_u 1 (str ''zombie!'' @ [NL]) []) (\<lambda>_ u. init_wait pid u) v
       else uret () v) w"
  by pat_completeness auto
termination
  by (relation "measure (\<lambda>(_, w). length (replies w))") (auto dest!: usys_shorter consumesD [OF consumes_printf])

declare init_wait.simps [simp del]

lemma consumes_init_wait: "init_wait pid w = URet a v \<Longrightarrow> length (replies v) \<le> length (replies w)"
proof (induction pid w rule: init_wait.induct)
  case (1 pid w)
  from 1(2) obtain r u where u: "usys UWait w = URet r u"
    "(if rv r \<ge> 0 \<and> rv r \<noteq> pid then ubind (printf_u 1 (str ''zombie!'' @ [NL]) []) (\<lambda>_ u. init_wait pid u) u else uret () u) = URet a v"
    unfolding init_wait.simps [of pid w] by (auto simp: ubind_def [of "usys UWait"] split: ures.splits)
  note s = usys_shorter [OF u(1)]
  show ?case
  proof (cases "rv r \<ge> 0 \<and> rv r \<noteq> pid")
    case True
    then obtain b t where t: "printf_u 1 (str ''zombie!'' @ [NL]) [] u = URet b t" "init_wait pid t = URet a v"
      using u(2) by (auto simp: ubind_def split: ures.splits)
    from 1(1) [OF u(1) True t] consumesD [OF consumes_printf t(1)] s show ?thesis by simp
  next
    case False
    then show ?thesis using u(2) s by (auto simp: uret_def)
  qed
qed

function init_loop :: "unit uprog" where
  "init_loop w =
     ubind (printf_u 1 (str ''init: starting sh'' @ [NL]) []) (\<lambda>_ v.
     ubind (usys UFork) (\<lambda>r u.
       if rv r < 0 then uthen (printf_u 1 (str ''init: fork failed'' @ [NL]) []) uexit u
       else if rv r = 0 then
         uthen (uexec (str ''sh'') [str ''sh'']) (uthen (printf_u 1 (str ''init: exec sh failed'' @ [NL]) []) uexit) u
       else ubind (init_wait (rv r)) (\<lambda>_ t. init_loop t) u) v) w"
  by pat_completeness auto
termination
  by (relation "measure (\<lambda>w. length (replies w))") (auto dest!: usys_shorter consumesD [OF consumes_printf] consumes_init_wait)

declare init_loop.simps [simp del]

definition init_main :: "unit uprog" where
  "init_main =
     ubind (sysv (UOpen (str ''console'') O_RDWR)) (\<lambda>fd.
     uthen (if fd < 0 then uthen (sysv (UMknod (str ''console'') 1 1)) (sysv (UOpen (str ''console'') O_RDWR)) else uret 0)
    (uthen (sysv (UDup 0)) (uthen (sysv (UDup 0)) init_loop)))"

section \<open>forktest and stressfs\<close>

text \<open>\<open>forktest\<close> brings its own \<open>printf\<close>, a single \<open>write\<close>.\<close>

definition ft_printf :: "int \<Rightarrow> cstring \<Rightarrow> unit uprog" where
  "ft_printf fd s = uthen (sysv (UWrite fd s)) (uret ())"

fun ft_fork :: "nat \<Rightarrow> nat \<Rightarrow> nat uprog" where
  "ft_fork 0 n = uret n"
| "ft_fork (Suc k) n = ubind (sysv UFork) (\<lambda>pid. if pid < 0 then uret n else if pid = 0 then uexit else ft_fork k (n + 1))"

fun ft_wait :: "nat \<Rightarrow> unit uprog" where
  "ft_wait 0 = uret ()"
| "ft_wait (Suc n) = ubind (sysv UWait) (\<lambda>r. if r < 0 then uthen (ft_printf 1 (str ''wait stopped early'' @ [NL])) uexit else ft_wait n)"

definition forktest :: "unit uprog" where
  "forktest =
     uthen (ft_printf 1 (str ''fork test'' @ [NL]))
    (ubind (ft_fork 1000 0) (\<lambda>n.
     if n = 1000 then uthen (ft_printf 1 (str ''fork claimed to work N times!'' @ [NL])) uexit
     else uthen (ft_wait n)
         (ubind (sysv UWait) (\<lambda>r.
          if r \<noteq> -1 then uthen (ft_printf 1 (str ''wait got too many'' @ [NL])) uexit
          else ft_printf 1 (str ''fork test OK'' @ [NL])))))"

fun stress_fork :: "nat \<Rightarrow> nat \<Rightarrow> nat uprog" where
  "stress_fork 0 i = uret i"
| "stress_fork (Suc k) i = ubind (sysv UFork) (\<lambda>pid. if pid > 0 then uret i else stress_fork k (i + 1))"

fun repeat_u :: "nat \<Rightarrow> int uprog \<Rightarrow> unit uprog" where
  "repeat_u 0 p = uret ()"
| "repeat_u (Suc n) p = uthen p (repeat_u n p)"

definition stressfs_main :: "unit uprog" where
  "stressfs_main =
     uthen (printf_u 1 (str ''stressfs starting'' @ [NL]) [])
    (ubind (stress_fork 4 0) (\<lambda>i.
     let path = str ''stressfs'' @ [0x30 + of_nat i] in
     uthen (printf_u 1 (str ''write %d'' @ [NL]) [UInt (of_nat i)])
    (ubind (sysv (UOpen path (O_CREATE + O_RDWR))) (\<lambda>fd.
     uthen (repeat_u 20 (sysv (UWrite fd (replicate 512 0x61))))
    (uthen (sysv (UClose fd))
    (uthen (printf_u 1 (str ''read'' @ [NL]) [])
    (ubind (sysv (UOpen path O_RDONLY)) (\<lambda>fd2.
     uthen (repeat_u 20 (sysv (URead fd2 512)))
    (uthen (sysv (UClose fd2))
    (uthen (sysv UWait) uexit))))))))))"

section \<open>What the programs do\<close>

text \<open>The replies of a file read to its end: one for each piece, then a zero.\<close>

definition data_reply :: "u8 list \<Rightarrow> ureply" where
  "data_reply d = \<lparr>rv = int (length d), rdata = d, rstat = \<lparr>st_type = 0, st_dev = 0, st_ino = 0, st_nlink = 0, st_size = 0\<rparr>, rpipe = (0, 0)\<rparr>"

lemma data_reply_simps [simp]: "rv (data_reply d) = int (length d)" "rdata (data_reply d) = d"
  by (simp_all add: data_reply_def)

lemma usys_Cons: "usys c \<lparr>replies = r # rs, calls = cs\<rparr> = URet r \<lparr>replies = rs, calls = cs @ [c]\<rparr>"
  by (simp add: usys_def)

lemma usys_Nil: "usys c \<lparr>replies = [], calls = cs\<rparr> = UBlocked \<lparr>replies = [], calls = cs @ [c]\<rparr>"
  by (simp add: usys_def)

lemma ubind_usys: "ubind (usys c) f \<lparr>replies = r # rs, calls = cs\<rparr> = f r \<lparr>replies = rs, calls = cs @ [c]\<rparr>"
  by (simp add: ubind_def usys_Cons)

text \<open>\<open>wc\<close> folds over the whole text however the reads cut it up.\<close>

lemma wc_loop_all:
  "\<forall>d\<in>set ds. d \<noteq> [] \<Longrightarrow>
   wc_loop fd x \<lparr>replies = map data_reply ds @ data_reply [] # rs, calls = cs\<rparr> =
   URet (0, fold wc_byte (concat ds) x) \<lparr>replies = rs, calls = cs @ replicate (length ds + 1) (URead fd 512)\<rparr>"
proof (induction ds arbitrary: x cs)
  case Nil
  show ?case by (simp add: wc_loop.simps [of fd x] ubind_usys uret_def)
next
  case (Cons d ds)
  then show ?case by (simp add: wc_loop.simps [of fd x] ubind_usys replicate_append_same)
qed

definition blank :: "u8 \<Rightarrow> bool" where
  "blank b \<longleftrightarrow> b \<in> {0x20, 0x0D, 0x09, 0x0A, 0x0B}"

text \<open>The number of words: the bytes that are not blank and come after a blank or at the start.\<close>

fun words_from :: "bool \<Rightarrow> u8 list \<Rightarrow> nat" where
  "words_from inw [] = 0"
| "words_from inw (b # bs) = (if blank b then words_from False bs else (if inw then 0 else 1) + words_from True bs)"

lemma strchr_blank: "strchr_u [0x20, 0x0D, 0x09, 0x0A, 0x0B] b \<noteq> None \<longleftrightarrow> blank b"
  by (auto simp: blank_def)

lemma wc_fold:
  "wc_c (fold wc_byte bs x) = wc_c x + length bs \<and>
   wc_l (fold wc_byte bs x) = wc_l x + length (filter (\<lambda>b. b = NL) bs) \<and>
   wc_w (fold wc_byte bs x) = wc_w x + words_from (wc_in x) bs"
proof (induction bs arbitrary: x)
  case (Cons b bs)
  then show ?case using strchr_blank [of b] by (simp add: wc_byte_def Let_def)
qed simp

theorem wc_counts:
  "\<forall>d\<in>set ds. d \<noteq> [] \<Longrightarrow>
   \<exists>x. wc_loop fd \<lparr>wc_l = 0, wc_w = 0, wc_c = 0, wc_in = False\<rparr>
         \<lparr>replies = map data_reply ds @ data_reply [] # rs, calls = []\<rparr> =
       URet (0, x) \<lparr>replies = rs, calls = replicate (length ds + 1) (URead fd 512)\<rparr> \<and>
       wc_c x = length (concat ds) \<and> wc_l x = length (filter (\<lambda>b. b = NL) (concat ds)) \<and>
       wc_w x = words_from False (concat ds)"
  using wc_fold [of "concat ds" "\<lparr>wc_l = 0, wc_w = 0, wc_c = 0, wc_in = False\<rparr>"] by (simp add: wc_loop_all)

text \<open>\<open>cat\<close> copies what it reads, piece by piece.\<close>

lemma cat_copies:
  "\<forall>d\<in>set ds. d \<noteq> [] \<Longrightarrow>
   cat fd \<lparr>replies = concat (map (\<lambda>d. [data_reply d, data_reply d]) ds) @ data_reply [] # rs, calls = cs\<rparr> =
   URet () \<lparr>replies = rs, calls = cs @ concat (map (\<lambda>d. [URead fd 512, UWrite 1 d]) ds) @ [URead fd 512]\<rparr>"
proof (induction ds arbitrary: cs)
  case Nil
  show ?case by (simp add: cat.simps [of fd] ubind_usys uret_def)
next
  case (Cons d ds)
  then show ?case by (simp add: cat.simps [of fd] ubind_usys)
qed

text \<open>\<open>grep\<close> on a buffer that holds whole lines.\<close>

lemma strchr_buf_line:
  "slice buf p (length l) = l \<Longrightarrow> buf (p + length l) = c \<Longrightarrow> c \<noteq> 0 \<Longrightarrow> 0 \<notin> set l \<Longrightarrow> c \<notin> set l \<Longrightarrow> p + length l < 1024 \<Longrightarrow>
   strchr_buf buf p c = FAt (p + length l)"
proof (induction l arbitrary: p)
  case Nil
  then show ?case by (simp add: strchr_buf.simps [of buf p c])
next
  case (Cons b l)
  have "buf p = b" "slice buf (p + 1) (length l) = l" using Cons.prems(1) by (simp_all add: slice_Suc)
  then show ?case using Cons.IH [of "p + 1"] Cons.prems by (auto simp: strchr_buf.simps [of buf p c])
qed

lemma strchr_buf_none: "buf p = 0 \<Longrightarrow> p < 1024 \<Longrightarrow> strchr_buf buf p c = FNone"
  by (simp add: strchr_buf.simps [of buf p c])

lemma strchr_buf_end:
  "slice buf p (length l) = l \<Longrightarrow> buf (p + length l) = 0 \<Longrightarrow> c \<notin> set l \<Longrightarrow> p + length l < 1024 \<Longrightarrow> strchr_buf buf p c = FNone"
proof (induction l arbitrary: p)
  case Nil
  then show ?case by (simp add: strchr_buf.simps [of buf p c])
next
  case (Cons b l)
  have "buf p = b" "slice buf (p + 1) (length l) = l" using Cons.prems(1) by (simp_all add: slice_Suc)
  then show ?case using Cons.IH [of "p + 1"] Cons.prems by (auto simp: strchr_buf.simps [of buf p c])
qed

definition unlines :: "cstring list \<Rightarrow> u8 list" where
  "unlines xs = concat (map (\<lambda>l. l @ [NL]) xs)"

lemma unlines_simps [simp]: "unlines [] = []" "unlines (l # xs) = l @ NL # unlines xs"
  by (simp_all add: unlines_def)

definition text_line :: "cstring \<Rightarrow> bool" where
  "text_line l \<longleftrightarrow> 0 \<notin> set l \<and> NL \<notin> set l"

lemma slice_clear: "q < p \<Longrightarrow> slice (buf(q := v)) p n = slice buf p n"
  by (rule nth_equalityI) simp_all

lemma grep_scan_lines:
  "slice buf p (length (unlines xs)) = unlines xs \<Longrightarrow> buf (p + length (unlines xs)) = 0 \<Longrightarrow> p + length (unlines xs) < 1024 \<Longrightarrow>
   list_all text_line xs \<Longrightarrow> length ws = length (filter (match pat) xs) \<Longrightarrow>
   \<exists>buf'. grep_scan pat buf p \<lparr>replies = ws @ rs, calls = cs\<rparr> =
     URet (buf', p + length (unlines xs)) \<lparr>replies = rs, calls = cs @ map (\<lambda>l. UWrite 1 (l @ [NL])) (filter (match pat) xs)\<rparr>"
proof (induction xs arbitrary: buf p ws cs)
  case Nil
  then show ?case by (simp add: grep_scan.simps [of pat buf p] strchr_buf_none uret_def)
next
  case (Cons l xs)
  let ?q = "p + length l"
  have "slice buf p (length l + (1 + length (unlines xs))) = l @ [NL] @ unlines xs" using Cons.prems(1) by simp
  then have sl: "slice buf p (length l) = l" and nl: "buf ?q = NL" and rest: "slice buf (?q + 1) (length (unlines xs)) = unlines xs"
    unfolding slice_add by (simp_all add: slice_Suc)
  have line: "slice buf p (?q + 1 - p) = l @ [NL]"
    using slice_add [of buf p "length l" 1] sl nl by (simp add: slice_Suc)
  have at: "strchr_buf buf p NL = FAt ?q"
    using Cons.prems(3,4) by (intro strchr_buf_line sl nl) (simp_all add: text_line_def)
  show ?case
  proof (cases "match pat l")
    case True
    then obtain r ws' where ws: "ws = r # ws'" "length ws' = length (filter (match pat) xs)"
      using Cons.prems(5) by (cases ws) simp_all
    show ?thesis
      using Cons.IH [OF rest, of ws' "cs @ [UWrite 1 (l @ [NL])]"] Cons.prems(2-4) ws True sl line at
      by (simp add: grep_scan.simps [of pat buf p] ubind_usys add.assoc [symmetric])
  next
    case False
    define buf1 where "buf1 = buf(?q := 0)"
    have "slice buf1 (?q + 1) (length (unlines xs)) = unlines xs" "buf1 (?q + 1 + length (unlines xs)) = 0"
      using rest Cons.prems(2) by (simp_all add: buf1_def slice_clear add.assoc del: fun_upd_apply) simp
    from Cons.IH [OF this, of ws cs] show ?thesis
      using Cons.prems(3-5) False sl at by (simp add: grep_scan.simps [of pat buf p] add.assoc [symmetric] buf1_def [symmetric])
  qed
qed

text \<open>
  C38.  When one \<open>read\<close> delivers a text of whole lines that leaves at least one zero byte in the fresh buffer, \<open>grep\<close> writes exactly the
  lines that match the pattern, in their order, and returns at the end of the file.
\<close>

theorem grep_lines:
  assumes "list_all text_line xs" and "xs \<noteq> []" and "length (unlines xs) < 1024"
    and "length ws = length (filter (match pat) xs)"
  shows "\<exists>buf. grep pat fd (\<lambda>_. 0) 0 \<lparr>replies = data_reply (unlines xs) # ws @ [data_reply []], calls = []\<rparr> =
    URet buf \<lparr>replies = [], calls = URead fd 1024 # map (\<lambda>l. UWrite 1 (l @ [NL])) (filter (match pat) xs) @ [URead fd 1024]\<rparr>"
proof -
  let ?b = "blit (\<lambda>_. 0) 0 (unlines xs)" and ?n = "length (unlines xs)"
  have n: "?n > 0" using assms(2) by (cases xs) simp_all
  have "slice ?b 0 ?n = unlines xs" "?b (0 + ?n) = 0" "0 + ?n < 1024"
    using assms(3) by (simp_all add: blit_outside)
  from grep_scan_lines [OF this assms(1,4), of "[data_reply []]" "[URead fd 1024]"]
  obtain buf' where "grep_scan pat ?b 0 \<lparr>replies = ws @ [data_reply []], calls = [URead fd 1024]\<rparr> =
      URet (buf', ?n) \<lparr>replies = [data_reply []], calls = URead fd 1024 # map (\<lambda>l. UWrite 1 (l @ [NL])) (filter (match pat) xs)\<rparr>"
    by auto
  then show ?thesis using n
    by (simp add: grep.simps [of pat fd] ubind_usys ubind_def [of "grep_scan pat ?b 0"] Let_def uret_def)
qed

theorem grep_lines_witness:
  "\<exists>buf. grep [0x61] 3 (\<lambda>_. 0) 0 \<lparr>replies = data_reply [0x62, NL, 0x61, NL] # [data_reply []] @ [data_reply []], calls = []\<rparr> =
    URet buf \<lparr>replies = [], calls = [URead 3 1024, UWrite 1 [0x61, NL], URead 3 1024]\<rparr>"
proof -
  have "filter (match [0x61]) [[0x62], [0x61]] = [[0x61]]" by (simp add: match_def match_from.simps)
  then show ?thesis using grep_lines [of "[[0x62], [0x61]]" "[data_reply []]" "[0x61]" 3] by (simp add: text_line_def)
qed

text \<open>
  C39.  A line that arrives in two pieces is searched without its first piece.  When the first \<open>read\<close> delivers \<open>d\<close> without a line end and
  the second, no shorter one the rest of the text, \<open>grep\<close> writes the lines of the rest that match, although the first line of the text starts
  with \<open>d\<close>.
\<close>

theorem grep_loses_partial_line:
  assumes "text_line d" and "d \<noteq> []" and "list_all text_line xs" and "length d \<le> length (unlines xs)" and "length (unlines xs) < 1024"
    and "length ws = length (filter (match pat) xs)"
  shows "\<exists>buf. grep pat fd (\<lambda>_. 0) 0 \<lparr>replies = data_reply d # data_reply (unlines xs) # ws @ [data_reply []], calls = []\<rparr> =
    URet buf \<lparr>replies = [], calls = URead fd 1024 # URead fd 1024 # map (\<lambda>l. UWrite 1 (l @ [NL])) (filter (match pat) xs) @ [URead fd 1024]\<rparr>"
proof -
  define b1 where "b1 = blit (\<lambda>_. 0 :: u8) 0 d"
  define b2 where "b2 = blit b1 0 (unlines xs)"
  let ?n = "length (unlines xs)" and ?w = "map (\<lambda>l. UWrite 1 (l @ [NL])) (filter (match pat) xs)"
  have "slice b1 0 (length d) = d" "b1 (0 + length d) = 0" by (simp_all add: b1_def blit_outside)
  then have "strchr_buf b1 0 NL = FNone" using assms(1,4,5) by (intro strchr_buf_end [of _ _ d]) (simp_all add: text_line_def)
  then have g1: "grep_scan pat b1 0 w = URet (b1, 0) w" for w by (simp add: grep_scan.simps [of _ b1] uret_def)
  have "slice b2 0 ?n = unlines xs" "b2 (0 + ?n) = 0" "0 + ?n < 1024"
    using assms(4,5) by (simp_all add: b2_def b1_def blit_outside)
  from grep_scan_lines [OF this assms(3,6), of "[data_reply []]" "[URead fd 1024, URead fd 1024]"]
  obtain buf' where g2: "grep_scan pat b2 0 \<lparr>replies = ws @ [data_reply []], calls = [URead fd 1024, URead fd 1024]\<rparr> =
      URet (buf', ?n) \<lparr>replies = [data_reply []], calls = URead fd 1024 # URead fd 1024 # ?w\<rparr>"
    by auto
  have n: "?n > 0" using assms(2,4) by (metis gr0I le_zero_eq length_0_conv)
  let ?fin = "\<lambda>b. grep pat fd b 0 \<lparr>replies = [data_reply []], calls = URead fd 1024 # URead fd 1024 # ?w\<rparr>"
  have e: "?fin b = URet b \<lparr>replies = [], calls = URead fd 1024 # URead fd 1024 # ?w @ [URead fd 1024]\<rparr>" for b
    by (simp add: grep.simps [of pat fd] ubind_usys uret_def)
  have "grep pat fd b1 0 \<lparr>replies = data_reply (unlines xs) # ws @ [data_reply []], calls = [URead fd 1024]\<rparr> = ?fin (memmove_u buf' 0 ?n 0)"
    using n g2 by (subst grep.simps) (simp add: ubind_usys ubind_def [of "grep_scan pat b2 0"] Let_def b2_def [symmetric])
  moreover have "grep pat fd (\<lambda>_. 0) 0 \<lparr>replies = data_reply d # data_reply (unlines xs) # ws @ [data_reply []], calls = []\<rparr> =
      grep pat fd b1 0 \<lparr>replies = data_reply (unlines xs) # ws @ [data_reply []], calls = [URead fd 1024]\<rparr>"
    using assms(2) g1 by (subst grep.simps) (simp add: ubind_usys ubind_def [of "grep_scan pat b1 0"] Let_def b1_def [symmetric])
  ultimately show ?thesis unfolding e by simp
qed

text \<open>The text is the one line \<open>ab\<close>, which matches the pattern \<open>ab\<close>; nothing is written.\<close>

theorem grep_loses_partial_line_witness:
  "match [0x61, 0x62] [0x61, 0x62] \<and>
   (\<exists>buf. grep [0x61, 0x62] 0 (\<lambda>_. 0) 0 \<lparr>replies = [data_reply [0x61], data_reply [0x62, NL], data_reply []], calls = []\<rparr> =
     URet buf \<lparr>replies = [], calls = [URead 0 1024, URead 0 1024, URead 0 1024]\<rparr>)"
proof -
  have "match [0x61, 0x62] [0x61, 0x62]" "\<not> match [0x61, 0x62] [0x62]" by (simp_all add: match_def match_from.simps)
  then show ?thesis using grep_loses_partial_line [of "[0x61]" "[[0x62]]" "[]" "[0x61, 0x62]" 0] by (simp add: text_line_def)
qed

end
