(* ===== verification/Recovery.thy ===== *)
theory Recovery
  imports Crash
begin

text \<open>
  Recovery, and the crash theorem.  The sectors a committing kernel writes are cut at any point; a kernel that
  boots from that disk runs \<open>initlog\<close>, which may be cut short itself, any number of times.
\<close>

section \<open>Recovery\<close>

definition hsec :: "bytes \<Rightarrow> nat \<Rightarrow> nat" where
  "hsec h i = rd32 h (4 + 4 * i)"

text \<open>The writes of a complete recovery from the disk \<open>d\<close>.\<close>

definition recovery_writes :: "(nat \<Rightarrow> bytes) \<Rightarrow> nat \<Rightarrow> (nat \<times> bytes) list" where
  "recovery_writes d st = insw d (hsec (d st)) st (rd32 (d st) 0) @ [(st, wr32 (d st) 0 0)]"

lemma homes_cong: "(\<And>i. i < n \<Longrightarrow> f i = g i) \<Longrightarrow> homes st z n f \<longleftrightarrow> homes st z n g"
  unfolding homes_def using inj_on_cong [of "{..<n}" f g] by simp

lemma insw_cong: "(\<And>i. i < n \<Longrightarrow> f i = g i) \<Longrightarrow> insw d f st n = insw d g st n"
  by (simp add: insw_def)

lemma head_bytes_empty: "head_bytes 0 sec d = wr32 d 0 0"
  by (simp add: head_bytes_def)

lemma int_of32_nat: "n < LOGSIZE \<Longrightarrow> int_of32 n = int n"
  by (simp add: int_of32_def)

lemma wp_read_head:
  fixes s :: "'z klog_scheme"
  assumes c: "cfx s d {} {} {}" and lg: "log_start s = st" "log_dev s = 1" and n: "rd32 (d st) 0 = n" "n < LOGSIZE"
    and ds: "st < disksize s"
    and Q: "\<And>t. cfx t d {} {} {} \<Longrightarrow> lstp s t [] \<Longrightarrow> lh_n t = int n \<Longrightarrow> (\<And>i. i < n \<Longrightarrow> lh_sector t i = hsec (d st) i) \<Longrightarrow> Q () t"
  shows "wp read_head Q s"
  unfolding read_head_def wp_kbind wp_kget case_prod_conv lg
proof (rule wp_bread [OF c])
  fix x t1 assume 1: "cfx t1 d {} {} {st}" "owns t1 x st" "stp s t1 []"
  let ?t2 = "t1\<lparr>lh_n := int n, lh_sector := (\<lambda>i. if i < n then hsec (d st) i else lh_sector t1 i)\<rparr>"
  have D: "b_data (bufs t1 x) = d st" by (rule cfx_data [OF 1(1,2)])
  have "wp (brelse x) Q ?t2"
  proof (rule wp_brelse [of ?t2 d "{}" "{}" "{st}" x st])
    fix t3 assume 3: "cfx t3 d {} {} ({st} - {st})" "stp ?t2 t3 []"
    have "lstp s ?t2 []" using lstp_stp [OF 1(3)] by simp
    from lstp_trans [OF this lstp_stp [OF 3(2)] refl] show "Q () t3"
      using 3 stp_log_eqs [OF 3(2)] by (intro Q) simp_all
  qed (use 1 in simp_all)
  then show "wp (kthen (kmod (\<lambda>s. s\<lparr>lh_n := int_of32 (rd32 (b_data (bufs t1 x)) 0)\<rparr>))
      (kthen (kmod (\<lambda>s. s\<lparr>lh_sector := \<lambda>i. if i < nat (lh_n s) then rd32 (b_data (bufs t1 x)) (4 + 4 * i) else lh_sector s i\<rparr>))
        (brelse x))) Q t1"
    using n by (simp add: wp_kthen wp_kmod D int_of32_nat hsec_def cong: if_cong)
qed (use ds in auto)

lemma recover_spec:
  fixes s :: "'z klog_scheme"
  assumes c: "cfx s d {} {} {}" and lg: "log_start s = st" "log_dev s = 1"
    and h: "homes st (disksize s) (rd32 (d st) 0) (hsec (d st))"
  shows "wp recover_from_log (\<lambda>_ t. lstp s t (recovery_writes d st) \<and> lh_n t = 0 \<and> (\<exists>N. cfx t N {} {} {})) s"
proof -
  define n where "n = rd32 (d st) 0"
  note h = h [folded n_def]
  have st: "st < disksize s" using homesD(2) [OF h] by simp
  have same: "replay d (insw d (hsec (d st)) st n) st = d st"
    using homes_disjoint [OF h, of st] by (intro replay_notin) (simp add: insw_sectors)
  show ?thesis
    unfolding recover_from_log_def wp_kthen
  proof (rule wp_read_head [OF c lg n_def [symmetric] homesD(1) [OF h] st])
    fix t1 assume 1: "cfx t1 d {} {} {}" "lstp s t1 []" "lh_n t1 = int n" "\<And>i. i < n \<Longrightarrow> lh_sector t1 i = hsec (d st) i"
    let ?sec = "lh_sector t1"
    have e1: "log_start t1 = st" "log_dev t1 = 1" "disksize t1 = disksize s" using 1(2) lg by (simp_all add: lstp_def)
    have h1: "homes st (disksize t1) n ?sec" using h homes_cong [OF 1(4)] e1 by simp
    have w: "insw d ?sec st n = insw d (hsec (d st)) st n" using 1(4) by (rule insw_cong)
    show "wp install_trans (\<lambda>_. wp (kmod (\<lambda>s. s\<lparr>lh_n := 0\<rparr>)) (\<lambda>_. wp write_head
        (\<lambda>_ t. lstp s t (recovery_writes d st) \<and> lh_n t = 0 \<and> (\<exists>N. cfx t N {} {} {})))) t1"
    proof (rule wp_install_trans [OF 1(1) e1(1,2) 1(3) refl h1])
      let ?N = "replay d (insw d ?sec st n)"
      fix t2 assume 2: "cfx t2 ?N {} {} {}" "stp t1 t2 (insw d ?sec st n)"
      note e2 = stp_log_eqs [OF 2(2)] stp_eqs(3) [OF 2(2)]
      let ?u = "t2\<lparr>lh_n := 0\<rparr>"
      show "wp (kmod (\<lambda>s. s\<lparr>lh_n := 0\<rparr>)) (\<lambda>_. wp write_head
          (\<lambda>_ t. lstp s t (recovery_writes d st) \<and> lh_n t = 0 \<and> (\<exists>N. cfx t N {} {} {}))) t2"
        unfolding wp_kmod
      proof (rule wp_write_head [of ?u ?N "{}" st 0 ?sec])
        fix t3 assume 3: "cfx t3 (?N(st := head_bytes 0 ?sec (?N st))) {} {} {}" "stp ?u t3 [(st, head_bytes 0 ?sec (?N st))]"
        from lstp_trans [OF 1(2) lstp_stp [OF 2(2)] refl] have "lstp s ?u (insw d ?sec st n)" by simp
        from lstp_trans [OF this lstp_stp [OF 3(2)] refl] have "lstp s t3 (recovery_writes d st)"
          by (simp add: recovery_writes_def head_bytes_empty w same flip: n_def)
        moreover have "lh_n t3 = 0" using stp_log_eqs(6) [OF 3(2)] by simp
        ultimately show "lstp s t3 (recovery_writes d st) \<and> lh_n t3 = 0 \<and> (\<exists>N. cfx t3 N {} {} {})"
          using 3(1) by blast
      qed (use 2(1) e2 e1 st in simp_all)
    qed simp
  qed
qed

text \<open>\<open>initlog\<close> reads the superblock first.\<close>

definition sb_start :: "bytes \<Rightarrow> nat" where
  "sb_start d = sub32 (sb_size (decode_sb d)) (sb_nlog (decode_sb d))"

lemma initlog_spec:
  fixes s :: "'z klog_scheme"
  assumes c: "cfx s d {} {} {}" and sb: "sb_start (d 1) = st" and d1: "1 < disksize s"
    and h: "homes st (disksize s) (rd32 (d st) 0) (hsec (d st))"
  shows "wp initlog (\<lambda>_ t. dwrites t = dwrites s @ recovery_writes d st \<and> disk t = replay (disk s) (recovery_writes d st) \<and>
    disksize t = disksize s \<and> log_start t = st \<and> lh_n t = 0 \<and> (\<exists>N. cfx t N {} {} {})) s"
  unfolding initlog_def readsb_def wp_kbind wp_kthen wp_kget
proof (rule wp_bread [OF c])
  fix x t1 assume 1: "cfx t1 d {} {} {1}" "owns t1 x 1" "stp s t1 []"
  let ?sb = "decode_sb (b_data (bufs t1 x))"
  have D: "b_data (bufs t1 x) = d 1" by (rule cfx_data [OF 1(1,2)])
  show "wp (brelse x) (\<lambda>_. wp (kret ?sb) (\<lambda>sb. wp (kmod (\<lambda>s. s\<lparr>log_start := sub32 (sb_size sb) (sb_nlog sb),
      log_size := int_of32 (sb_nlog sb), log_dev := ROOTDEV\<rparr>)) (\<lambda>_. wp recover_from_log
      (\<lambda>_ t. dwrites t = dwrites s @ recovery_writes d st \<and> disk t = replay (disk s) (recovery_writes d st) \<and>
        disksize t = disksize s \<and> log_start t = st \<and> lh_n t = 0 \<and> (\<exists>N. cfx t N {} {} {}))))) t1"
    unfolding wp_kret wp_kmod
  proof (rule wp_brelse [OF 1(1,2)])
    fix t2 assume 2: "cfx t2 d {} {} ({1} - {1})" "stp t1 t2 []"
    let ?u = "t2\<lparr>log_start := sub32 (sb_size ?sb) (sb_nlog ?sb), log_size := int_of32 (sb_nlog ?sb), log_dev := ROOTDEV\<rparr>"
    have "cfx ?u d {} {} {}" using 2(1) by (simp add: cfx_def)
    moreover have "log_start ?u = st" using sb by (simp add: D sb_start_def)
    moreover have e: "disksize ?u = disksize s" "dwrites ?u = dwrites s" "disk ?u = disk s"
      using 1(3) 2(2) stp_eqs(3) [OF 1(3)] stp_eqs(3) [OF 2(2)] by (simp_all add: stp_def)
    ultimately have "wp recover_from_log (\<lambda>_ t. lstp ?u t (recovery_writes d st) \<and> lh_n t = 0 \<and> (\<exists>N. cfx t N {} {} {})) ?u"
      using h by (intro recover_spec) simp_all
    then show "wp recover_from_log (\<lambda>_ t. dwrites t = dwrites s @ recovery_writes d st \<and>
        disk t = replay (disk s) (recovery_writes d st) \<and> disksize t = disksize s \<and> log_start t = st \<and> lh_n t = 0 \<and>
        (\<exists>N. cfx t N {} {} {})) ?u"
    proof (rule wp_mono)
      fix r t assume "lstp ?u t (recovery_writes d st) \<and> lh_n t = 0 \<and> (\<exists>N. cfx t N {} {} {})"
      then show "dwrites t = dwrites s @ recovery_writes d st \<and>
        disk t = replay (disk s) (recovery_writes d st) \<and> disksize t = disksize s \<and> log_start t = st \<and> lh_n t = 0 \<and>
        (\<exists>N. cfx t N {} {} {})"
        using e \<open>log_start ?u = st\<close> unfolding lstp_def by auto
    qed
  qed simp
qed (use d1 in auto)

section \<open>Disks after a crash\<close>

text \<open>A predicate that holds of the disk after every prefix of the writes.\<close>

fun along :: "((nat \<Rightarrow> bytes) \<Rightarrow> bool) \<Rightarrow> (nat \<Rightarrow> bytes) \<Rightarrow> (nat \<times> bytes) list \<Rightarrow> bool" where
  "along P d [] = P d"
| "along P d ((x, v) # ws) = (P d \<and> along P (d(x := v)) ws)"

lemma along_take: "along P d ws \<Longrightarrow> P (replay d (take k ws))"
proof (induction ws arbitrary: d k)
  case (Cons w ws)
  then show ?case by (cases w; cases k) auto
qed simp

lemma along_append: "along P d (us @ vs) \<longleftrightarrow> along P d us \<and> along P (replay d us) vs"
proof (induction us arbitrary: d)
  case Nil
  then show ?case by (cases vs) auto
qed auto

lemma along_stable:
  assumes "P d" and "\<And>x v d. (x, v) \<in> set ws \<Longrightarrow> P d \<Longrightarrow> P (d(x := v))"
  shows "along P d ws \<and> P (replay d ws)"
  using assms
proof (induction ws arbitrary: d)
  case (Cons w ws)
  obtain x v where w: "w = (x, v)" by (cases w)
  have "P (d(x := v))" by (rule Cons.prems(2)) (simp add: w, rule Cons.prems(1))
  moreover have "P (e(y := u))" if "(y, u) \<in> set ws" "P e" for y u e
    using that by (intro Cons.prems(2)) simp_all
  ultimately have "along P (d(x := v)) ws \<and> P (replay (d(x := v)) ws)" by (rule Cons.IH)
  with Cons.prems(1) w show ?case by simp
qed simp

lemma along_mono: "along P d ws \<Longrightarrow> (\<And>d. P d \<Longrightarrow> Q d) \<Longrightarrow> along Q d ws"
  by (induction P d ws rule: along.induct) auto

text \<open>The log is empty and the sectors outside it are those of \<open>d0\<close>; or the log holds a committed transaction.\<close>

definition settled :: "nat \<Rightarrow> (nat \<Rightarrow> bytes) \<Rightarrow> (nat \<Rightarrow> bytes) \<Rightarrow> bool" where
  "settled st d0 d \<longleftrightarrow> rd32 (d st) 0 = 0 \<and> (\<forall>x. x \<notin> log_region st \<longrightarrow> d x = d0 x)"

definition pending :: "nat \<Rightarrow> nat \<Rightarrow> (nat \<Rightarrow> nat) \<Rightarrow> (nat \<Rightarrow> bytes) \<Rightarrow> (nat \<Rightarrow> bytes) \<Rightarrow> bool" where
  "pending st n sec M d \<longleftrightarrow> rd32 (d st) 0 = n \<and> (\<forall>i<n. hsec (d st) i = sec i \<and> d (st + i + 1) = M (sec i)) \<and>
     (\<forall>x. x \<notin> log_region st \<longrightarrow> x \<notin> sec ` {..<n} \<longrightarrow> d x = M x)"

lemma settled_log: "settled st d0 d \<Longrightarrow> x \<in> log_region st \<Longrightarrow> x \<noteq> st \<Longrightarrow> settled st d0 (d(x := v))"
  by (auto simp: settled_def)

lemma settled_clear: "settled st d0 d \<Longrightarrow> settled st d0 (d(st := wr32 h 0 0))"
  by (auto simp: settled_def)

lemma pending_home:
  assumes "homes st z n sec" "pending st n sec M d" "i < n"
  shows "pending st n sec M (d(sec i := v))"
proof -
  have "sec i \<noteq> st" "\<And>j. j < n \<Longrightarrow> sec i \<noteq> st + j + 1"
    using homesD(1,4) [OF assms(1)] assms(3) by fastforce+
  then have "\<And>j. j < n \<Longrightarrow> st + j + 1 \<noteq> sec i" by metis
  with \<open>sec i \<noteq> st\<close> assms(2,3) show ?thesis by (simp add: pending_def)
qed

lemma replay_insw:
  assumes "homes st z n sec" "i < n"
  shows "replay d (map (\<lambda>i. (sec i, f i)) [0..<n]) (sec i) = f i"
proof -
  have "m \<le> n \<Longrightarrow> i < m \<Longrightarrow> replay d (map (\<lambda>i. (sec i, f i)) [0..<m]) (sec i) = f i" for m
  proof (induction m)
    case (Suc m)
    have "sec i = sec m \<longleftrightarrow> i = m"
      using assms(1) Suc.prems by (auto simp: homes_def inj_on_def)
    with Suc show ?case by (cases "i = m") auto
  qed simp
  with assms(2) show ?thesis by simp
qed

lemma pending_done:
  assumes h: "homes st z n sec" and p: "pending st n sec M d" and all: "\<And>i. i < n \<Longrightarrow> d (sec i) = M (sec i)"
  shows "settled st M (d(st := wr32 b 0 0))"
  using p all by (auto simp: settled_def pending_def)

lemma homes_pending: "homes st z n sec \<Longrightarrow> pending st n sec M d \<Longrightarrow> homes st z (rd32 (d st) 0) (hsec (d st))"
  by (subst homes_cong [of _ _ sec]) (auto simp: pending_def)

lemma homes_settled: "st + LOGSIZE \<le> z \<Longrightarrow> z \<le> W32 \<Longrightarrow> settled st d0 d \<Longrightarrow> homes st z (rd32 (d st) 0) (hsec (d st))"
  by (simp add: homes_def settled_def)

section \<open>Every prefix of a commit, every prefix of a recovery\<close>

definition crash_disk :: "nat \<Rightarrow> nat \<Rightarrow> (nat \<Rightarrow> nat) \<Rightarrow> (nat \<Rightarrow> bytes) \<Rightarrow> (nat \<Rightarrow> bytes) \<Rightarrow> (nat \<Rightarrow> bytes) \<Rightarrow> bool" where
  "crash_disk st n sec d0 M d \<longleftrightarrow> settled st d0 d \<or> pending st n sec M d \<or> settled st M d"

lemma install_along:
  assumes h: "homes st z n sec" and p: "pending st n sec M d"
  shows "along (pending st n sec M) d (map (\<lambda>i. (sec i, f i)) [0..<n]) \<and>
    pending st n sec M (replay d (map (\<lambda>i. (sec i, f i)) [0..<n]))"
  using p
proof (rule along_stable)
  fix x v e assume "(x, v) \<in> set (map (\<lambda>i. (sec i, f i)) [0..<n])" and e: "pending st n sec M e"
  then obtain i where "x = sec i" "i < n" by auto
  with pending_home [OF h e] show "pending st n sec M (e(x := v))" by blast
qed

lemma logw_length: "length (logw M sec st n) = n"
  by (simp add: logw_def)

lemma commit_crash:
  assumes h: "homes st z n sec" and d0: "rd32 (d0 st) 0 = 0" "\<And>x. x \<notin> sec ` {..<n} \<Longrightarrow> d0 x = M x"
  shows "along (crash_disk st n sec d0 M) d0 (commit_writes M sec st n)" (is "along ?P d0 _")
    and "settled st M (replay d0 (commit_writes M sec st n))"
    and "n < k \<Longrightarrow> crash_disk st n sec M M (replay d0 (take k (commit_writes M sec st n)))"
proof -
  let ?h = "head_bytes n sec (M st)" and ?ins = "map (\<lambda>i. (sec i, M (sec i))) [0..<n]"
  have n: "n < LOGSIZE" by (rule homesD(1) [OF h])
  define d1 where "d1 = replay d0 (logw M sec st n)"
  have "settled st d0 d0" using d0 by (simp add: settled_def)
  then have "along (settled st d0) d0 (logw M sec st n) \<and> settled st d0 d1"
    unfolding d1_def
  proof (rule along_stable)
    fix x v e assume "(x, v) \<in> set (logw M sec st n)" and e: "settled st d0 e"
    then have "x \<in> log_region st" "x \<noteq> st" using n by (auto simp: logw_def)
    with e show "settled st d0 (e(x := v))" by (rule settled_log)
  qed
  then have 1: "along ?P d0 (logw M sec st n)" and s1: "settled st d0 d1"
    by (auto elim: along_mono simp: crash_disk_def)
  define d2 where "d2 = d1(st := ?h)"
  have "pending st n sec M d2"
    using s1 n d0(2) homesD(5) [OF h]
    by (auto simp: pending_def d2_def hsec_def head_bytes_n head_bytes_sector d1_def replay_logw settled_def)
  note 2 = install_along [OF h this, of "\<lambda>i. M (sec i)"]
  define d3 where "d3 = replay d2 ?ins"
  have p3: "pending st n sec M d3" and a2: "along (crash_disk st n sec e M) d2 ?ins" for e
    using 2 by (auto simp: d3_def crash_disk_def elim: along_mono)
  have s4: "settled st M (d3(st := wr32 ?h 0 0))"
    using h p3 by (rule pending_done) (simp add: d3_def replay_insw [OF h])
  have w: "commit_writes M sec st n = logw M sec st n @ (st, ?h) # ?ins @ [(st, wr32 ?h 0 0)]"
    by (simp add: commit_writes_def Let_def head_bytes_empty)
  have P: "?P d1" "crash_disk st n sec e M d3" "crash_disk st n sec e M (d3(st := wr32 ?h 0 0))" for e
    using s1 p3 s4 by (simp_all add: crash_disk_def)
  note defs = d1_def [symmetric] d2_def [symmetric] d3_def [symmetric]
  show "along ?P d0 (commit_writes M sec st n)"
    unfolding w along_append along.simps replay_simps fst_conv snd_conv defs by (intro conjI) (simp_all add: 1 a2 P)
  show "settled st M (replay d0 (commit_writes M sec st n))"
    unfolding w by (simp add: defs s4)
  assume "n < k"
  then obtain j where k: "k = length (logw M sec st n) + Suc j"
    by (metis add_Suc_right less_iff_Suc_add logw_length)
  have "along (crash_disk st n sec M M) d2 (?ins @ [(st, wr32 ?h 0 0)])"
    unfolding along_append along.simps defs by (intro conjI) (simp_all add: a2 P)
  from along_take [OF this] show "crash_disk st n sec M M (replay d0 (take k (commit_writes M sec st n)))"
    unfolding w k by (simp add: defs)
qed

lemma recovery_crash:
  assumes h: "homes st z n sec" and d: "crash_disk st n sec d0 M d"
  shows "along (crash_disk st n sec d0 M) d (recovery_writes d st) \<and>
    (settled st d0 (replay d (recovery_writes d st)) \<or> settled st M (replay d (recovery_writes d st)))"
  using d [unfolded crash_disk_def]
proof (elim disjE)
  assume s: "settled st d0 d"
  then have "recovery_writes d st = [(st, wr32 (d st) 0 0)]" by (simp add: recovery_writes_def settled_def insw_def)
  with s settled_clear [OF s] show ?thesis by (simp add: crash_disk_def)
next
  assume s: "settled st M d"
  then have "recovery_writes d st = [(st, wr32 (d st) 0 0)]" by (simp add: recovery_writes_def settled_def insw_def)
  with s settled_clear [OF s] show ?thesis by (simp add: crash_disk_def)
next
  assume p: "pending st n sec M d"
  let ?ins = "map (\<lambda>i. (sec i, M (sec i))) [0..<n]"
  have "insw d (hsec (d st)) st (rd32 (d st) 0) = ?ins" using p by (auto simp: insw_def pending_def)
  then have w: "recovery_writes d st = ?ins @ [(st, wr32 (d st) 0 0)]" by (simp add: recovery_writes_def)
  note 1 = install_along [OF h p, of "\<lambda>i. M (sec i)"]
  have s: "settled st M ((replay d ?ins)(st := wr32 (d st) 0 0))"
    by (rule pending_done [OF h conjunct2 [OF 1]]) (simp add: replay_insw [OF h])
  with 1 show ?thesis
    by (auto simp: w along_append crash_disk_def elim: along_mono)
qed

section \<open>The crash theorem\<close>

text \<open>
  A state in which \<open>commit\<close> has a transaction to write: \<open>M\<close> are the contents the file system sees, the logged
  sectors are exactly the dirty buffers, the log on disk is empty and the superblock of the disk says where it is.
\<close>

definition tx_ready :: "'z klog_scheme \<Rightarrow> (nat \<Rightarrow> bytes) \<Rightarrow> bool" where
  "tx_ready s M \<longleftrightarrow>
     (let st = log_start s; n = nat (lh_n s); L = lh_sector s ` {..<n} in
      0 < lh_n s \<and> log_dev s = 1 \<and> homes st (disksize s) n (lh_sector s) \<and> cfx s M L L {} \<and>
      rd32 (disk s st) 0 = 0 \<and> sb_start (disk s 1) = st \<and> 1 < disksize s \<and> 1 \<notin> L \<and> 1 \<notin> log_region st)"

text \<open>A booting kernel: its cache is clean and the disk is \<open>d\<close>.\<close>

definition booting :: "nat \<Rightarrow> (nat \<Rightarrow> bytes) \<Rightarrow> 'z klog_scheme \<Rightarrow> bool" where
  "booting z d u \<longleftrightarrow> cfx u d {} {} {} \<and> disksize u = z"

text \<open>The writes between two states.\<close>

definition writes :: "'z kbio_scheme \<Rightarrow> 'z kbio_scheme \<Rightarrow> (nat \<times> bytes) list" where
  "writes s t = drop (length (dwrites s)) (dwrites t)"

text \<open>The disk after any number of boots, each of which crashed somewhere in \<open>initlog\<close>.\<close>

inductive crashes :: "nat \<Rightarrow> (nat \<Rightarrow> bytes) \<Rightarrow> (nat \<Rightarrow> bytes) \<Rightarrow> bool" for z d0 where
  crashes_refl: "crashes z d0 d0"
| crashes_again: "crashes z d0 d \<Longrightarrow> booting z d (u :: klog) \<Longrightarrow> initlog u = Ok () v \<Longrightarrow>
    crashes z d0 (replay d (take k (writes u v)))"

lemma crash_disk_1:
  assumes "crash_disk st n sec d0 M d" "1 \<notin> sec ` {..<n}" "1 \<notin> log_region st" "d0 1 = M 1"
  shows "d 1 = M 1"
  using assms by (auto simp: crash_disk_def settled_def pending_def)

lemma boot_recovers:
  fixes u :: "'z klog_scheme"
  assumes h: "homes st z n sec" and d: "crash_disk st n sec d0 M d" and b: "booting z d u"
    and sb: "sb_start (M 1) = st" "d0 1 = M 1" "1 \<notin> sec ` {..<n}" "1 \<notin> log_region st" "1 < z"
  obtains v where "initlog u = Ok () v" "writes u v = recovery_writes d st"
    "disk v = replay d (recovery_writes d st)" "lh_n v = 0"
proof -
  have geo: "st + LOGSIZE \<le> z" "z \<le> W32" using h by (simp_all add: homes_def)
  have d1: "d 1 = M 1" by (rule crash_disk_1 [OF d sb(3,4,2)])
  have hd: "homes st (disksize u) (rd32 (d st) 0) (hsec (d st))"
    using d homes_pending [OF h] homes_settled [OF geo] b unfolding crash_disk_def booting_def by metis
  have c: "cfx u d {} {} {}" "1 < disksize u" using b sb(5) by (simp_all add: booting_def)
  have "disk u = d" using cfx_disk [OF c(1)] by auto
  with initlog_spec [OF c(1) _ c(2) hd] sb(1) d1 show ?thesis
    by (auto simp: wp_def writes_def split: res.splits intro: that)
qed

lemma crashes_disk:
  assumes c: "crashes z d0' d" and h: "homes st z n sec" and d: "crash_disk st n sec d0 M d0'"
    and sb: "sb_start (M 1) = st" "d0 1 = M 1" "1 \<notin> sec ` {..<n}" "1 \<notin> log_region st" "1 < z"
  shows "crash_disk st n sec d0 M d"
  using c
proof induction
  case (crashes_again d u v k)
  from boot_recovers [OF h crashes_again(4,2) sb] crashes_again(3) have "writes u v = recovery_writes d st" by auto
  with recovery_crash [OF h crashes_again(4)] show ?case by (auto intro: along_take)
qed (rule d)

text \<open>
  C1.  Crash safety of the log.  \<open>commit\<close> returns, leaves the log empty and every sector outside the log as
  the file system sees it.  If the machine stops after any number \<open>k\<close> of the disk writes of \<open>commit\<close>, and again
  any number of times during recovery, then the next complete \<open>initlog\<close> leaves an empty log and either all
  sectors outside it as before the transaction or all of them as after it; once the header was written
  (\<open>k\<close> exceeds the number of logged sectors) it is always the latter.
\<close>

theorem commit_crash_safe:
  fixes s :: "'z klog_scheme"
  assumes ready: "tx_ready s M"
  shows "\<exists>t. commit s = Ok () t \<and> lh_n t = 0 \<and> settled (log_start s) M (disk t) \<and>
    (\<forall>k d (u :: klog). crashes (disksize s) (replay (disk s) (take k (writes s t))) d \<and> booting (disksize s) d u \<longrightarrow>
      (\<exists>v. initlog u = Ok () v \<and> lh_n v = 0 \<and>
        (settled (log_start s) M (disk v) \<or> settled (log_start s) (disk s) (disk v) \<and> int k \<le> lh_n s)))"
proof -
  define st n sec where "st = log_start s" and "n = nat (lh_n s)" and "sec = lh_sector s"
  have r: "0 < n" "lh_n s = int n" "log_dev s = 1" "homes st (disksize s) n sec" "cfx s M (sec ` {..<n}) (sec ` {..<n}) {}"
    "rd32 (disk s st) 0 = 0" "sb_start (disk s 1) = st" "1 < disksize s" "1 \<notin> sec ` {..<n}" "1 \<notin> log_region st"
    using ready unfolding tx_ready_def Let_def st_def n_def sec_def by simp_all
  have d0: "disk s x = M x" if "x \<notin> sec ` {..<n}" for x by (rule cfx_disk [OF r(5) that])
  note sb = r(7) [unfolded d0 [OF r(9)]] d0 [OF r(9)] r(9,10,8)
  from commit_spec [OF r(5) st_def [symmetric] r(3,2) sec_def [symmetric] r(4) refl r(1)]
  obtain t where t: "commit s = Ok () t" "lstp s t (commit_writes M sec st n)" "lh_n t = 0"
    by (auto simp: wp_def split: res.splits)
  have w: "writes s t = commit_writes M sec st n" "disk t = replay (disk s) (commit_writes M sec st n)"
    using t(2) by (simp_all add: lstp_def writes_def)
  let ?ws = "commit_writes M sec st n"
  have cc: "along (crash_disk st n sec (disk s) M) (disk s) ?ws" "settled st M (replay (disk s) ?ws)"
    "n < k \<Longrightarrow> crash_disk st n sec M M (replay (disk s) (take k ?ws))" for k
    using commit_crash [of st "disksize s" n sec "disk s" M] r(4,6) d0 by blast+
  have "\<exists>v. initlog u = Ok () v \<and> lh_n v = 0 \<and> (settled st M (disk v) \<or> settled st (disk s) (disk v) \<and> int k \<le> lh_n s)"
    if a: "crashes (disksize s) (replay (disk s) (take k (writes s t))) d" "booting (disksize s) d u" for k d and u :: klog
  proof (cases "n < k")
    case True
    from crashes_disk [OF a(1) r(4) cc(3) [OF True, folded w(1)] sb(1) refl sb(3-5)]
    have c: "crash_disk st n sec M M d" .
    from boot_recovers [OF r(4) c a(2) sb(1) refl sb(3-5)] recovery_crash [OF r(4) c] show ?thesis by metis
  next
    case False
    from crashes_disk [OF a(1) r(4) along_take [OF cc(1), folded w(1)] sb] have c: "crash_disk st n sec (disk s) M d" .
    from boot_recovers [OF r(4) c a(2) sb] recovery_crash [OF r(4) c] False r(2) show ?thesis by (metis not_less of_nat_le_iff)
  qed
  with t cc(2) w show ?thesis unfolding st_def by metis
qed

text \<open>
  A file system of 1024 sectors with its log at sector 994, one logged update of sector 5 in the cache, and a
  kernel booting from a disk.
\<close>

definition img_disk :: "nat \<Rightarrow> bytes" where
  "img_disk = (\<lambda>_ _. 0)(1 := wr32 (wr32 (\<lambda>_. 0) 0 1024) 12 30)"

definition booted :: "(nat \<Rightarrow> bytes) \<Rightarrow> klog" where
  "booted d = \<lparr>held = [], ptable = (\<lambda>_. blank_proc), curproc = None, initproc = None, nextpid = 1,
     iflag = False, cr3 = 0, ts_ss0 = 0, ts_esp0 = 0, kpgdir = 0, mem = (\<lambda>_ _. 0), freelist = 0,
     kmem_use_lock = False, kend = 0, kdata = 0, disk = d, disksize = 1024, dwrites = [],
     bufs = (\<lambda>_. \<lparr>b_flags = {}, b_dev = W32 - 1, b_sector = 0, b_data = (\<lambda>_. 0)\<rparr>), lru = [0..<NBUF],
     log_start = 0, log_size = 0, log_outstanding = 0, log_committing = False, log_dev = 0, lh_n = 0, lh_sector = (\<lambda>_. 0)\<rparr>"

definition one_update :: klog where
  "one_update = (booted img_disk)\<lparr>
     bufs := (bufs (booted img_disk))(0 := \<lparr>b_flags = {B_VALID, B_DIRTY}, b_dev = 1, b_sector = 5, b_data = (\<lambda>_. 7)\<rparr>),
     log_start := 994, log_size := 30, log_committing := True, log_dev := 1, lh_n := 1, lh_sector := (\<lambda>_. 5)\<rparr>"

lemma booted_ok: "booting 1024 d (booted d)"
  by (auto simp: booting_def cfx_def bcf_def uniq_sectors_def dirty_valid_def holds_data_def booted_def)

lemma one_update_ready: "tx_ready one_update (img_disk(5 := (\<lambda>_. 7)))"
proof -
  have "cfx one_update (img_disk(5 := (\<lambda>_. 7))) {5} {5} {}"
    by (auto simp: cfx_def bcf_def uniq_sectors_def dirty_valid_def holds_data_def pinned_def one_update_def booted_def)
  moreover have "log_start one_update = 994" "disksize one_update = 1024" "disk one_update = img_disk" "lh_n one_update = 1"
    "lh_sector one_update = (\<lambda>_. 5)" "log_dev one_update = 1"
    by (simp_all add: one_update_def booted_def)
  moreover have "(\<lambda>_. 5 :: nat) ` {..<Suc 0} = {5}" "inj_on (\<lambda>_. 5 :: nat) {..<Suc 0}" by (auto simp: inj_on_def)
  moreover have "sb_start (img_disk 1) = 994" by (simp add: img_disk_def sb_start_def decode_sb_def sub32_def)
  moreover have "rd32 (img_disk 994) 0 = 0" by (simp add: img_disk_def rd32_def)
  ultimately show ?thesis by (simp add: tx_ready_def homes_def Let_def)
qed

theorem commit_crash_safe_witness:
  "\<exists>t v. commit one_update = Ok () t \<and>
     initlog (booted (replay img_disk (take 2 (writes one_update t)))) = Ok () v \<and> disk v 5 = (\<lambda>_. 7)"
proof -
  have s: "log_start one_update = 994" "disksize one_update = 1024" "disk one_update = img_disk" "lh_n one_update = 1"
    by (simp_all add: one_update_def booted_def)
  from commit_crash_safe [OF one_update_ready, unfolded s] obtain t where t: "commit one_update = Ok () t"
    "\<forall>k d (u :: klog). crashes 1024 (replay img_disk (take k (writes one_update t))) d \<and> booting 1024 d u \<longrightarrow>
      (\<exists>v. initlog u = Ok () v \<and> lh_n v = 0 \<and>
        (settled 994 (img_disk(5 := (\<lambda>_. 7))) (disk v) \<or> settled 994 img_disk (disk v) \<and> int k \<le> 1))"
    by blast
  from t(2) [rule_format, OF conjI [OF crashes_refl booted_ok], of 2] t(1) show ?thesis
    by (auto simp: settled_def)
qed

end
