(* ===== verification/Shell.thy ===== *)
theory Shell
  imports User Args
begin

text \<open>
  The shell, \<^verbatim>\<open>src/sh.c\<close>.  The parser works on the line buffer with positions in place of the pointers \<open>s\<close>, \<open>es\<close>, \<open>q\<close> and \<open>eq\<close>; it
  returns a command tree whose strings are pairs of positions, and \<open>nulterminate\<close> then stores a zero behind each of them.  A call of
  \<open>panic\<close> is the result \<open>PPanic\<close>.  Memory for the tree is taken to be available.  The parser functions that call each other take the
  function \<open>parseline\<close> as an argument; fuel bounds the recursion, and it is shown that one unit for each byte of the line is enough.
\<close>

section \<open>Commands\<close>

datatype cmd = EXEC "(nat \<times> nat) list" | REDIR cmd nat nat nat int | PIPE cmd cmd | LIST cmd cmd | BACK cmd

definition MAXARGS :: nat where
  "MAXARGS = 10"

definition execcmd :: cmd where
  "execcmd = EXEC []"

definition redircmd :: "cmd \<Rightarrow> nat \<Rightarrow> nat \<Rightarrow> nat \<Rightarrow> int \<Rightarrow> cmd" where
  "redircmd subcmd file efile mode fd = REDIR subcmd file efile mode fd"

definition pipecmd :: "cmd \<Rightarrow> cmd \<Rightarrow> cmd" where
  "pipecmd left right = PIPE left right"

definition listcmd :: "cmd \<Rightarrow> cmd \<Rightarrow> cmd" where
  "listcmd left right = LIST left right"

definition backcmd :: "cmd \<Rightarrow> cmd" where
  "backcmd subcmd = BACK subcmd"

lemmas cmd_defs = execcmd_def redircmd_def pipecmd_def listcmd_def backcmd_def

section \<open>Tokens\<close>

definition whitespace :: cstring where
  "whitespace = [0x20, 0x09, 0x0D, 0x0A, 0x0B]"

definition symbols :: cstring where
  "symbols = str ''<|>&;()''"

abbreviation (input) "LT \<equiv> (0x3C :: u8)"
abbreviation (input) "GT \<equiv> (0x3E :: u8)"
abbreviation (input) "BAR \<equiv> (0x7C :: u8)"
abbreviation (input) "AMP \<equiv> (0x26 :: u8)"
abbreviation (input) "SEMI \<equiv> (0x3B :: u8)"
abbreviation (input) "OPEN \<equiv> (0x28 :: u8)"
abbreviation (input) "CLOSE \<equiv> (0x29 :: u8)"
abbreviation (input) "PLUS \<equiv> (0x2B :: u8)"
abbreviation (input) "WORD \<equiv> (0x61 :: u8)"

function skip_while :: "(u8 \<Rightarrow> bool) \<Rightarrow> cmem \<Rightarrow> nat \<Rightarrow> nat \<Rightarrow> nat" where
  "skip_while P buf es s = (if s < es \<and> P (buf s) then skip_while P buf es (s + 1) else s)"
  by pat_completeness auto
termination
  by (relation "measure (\<lambda>(_, _, es, s). es - s)") auto

declare skip_while.simps [simp del]

definition is_ws :: "u8 \<Rightarrow> bool" where
  "is_ws c \<longleftrightarrow> strchr_u whitespace c \<noteq> None"

definition is_sym :: "u8 \<Rightarrow> bool" where
  "is_sym c \<longleftrightarrow> strchr_u symbols c \<noteq> None"

definition word_char :: "u8 \<Rightarrow> bool" where
  "word_char c \<longleftrightarrow> \<not> is_ws c \<and> \<not> is_sym c"

definition skip_ws :: "cmem \<Rightarrow> nat \<Rightarrow> nat \<Rightarrow> nat" where
  "skip_ws = skip_while is_ws"

record token =
  tk_ret :: u8
  tk_q :: nat
  tk_eq :: nat
  tk_s :: nat

definition gettoken :: "cmem \<Rightarrow> nat \<Rightarrow> nat \<Rightarrow> token" where
  "gettoken buf es s0 =
     (let s = skip_ws buf es s0;
          (ret, eq) =
            (if buf s = 0 then (buf s, s)
             else if buf s \<in> {BAR, OPEN, CLOSE, SEMI, AMP, LT} then (buf s, s + 1)
             else if buf s = GT then (if buf (s + 1) = GT then (PLUS, s + 2) else (GT, s + 1))
             else (WORD, skip_while word_char buf es s))
      in \<lparr>tk_ret = ret, tk_q = s, tk_eq = eq, tk_s = skip_ws buf es eq\<rparr>)"

text \<open>\<open>peek\<close> also moves \<open>s\<close> over blanks; the answer and the new position.\<close>

definition peek :: "cmem \<Rightarrow> nat \<Rightarrow> nat \<Rightarrow> cstring \<Rightarrow> bool \<times> nat" where
  "peek buf es s0 toks = (let s = skip_ws buf es s0 in (buf s \<noteq> 0 \<and> strchr_u toks (buf s) \<noteq> None, s))"

section \<open>The parser\<close>

datatype 'a parsed = PGot 'a nat | PPanic cstring | PFuel

definition pbind :: "'a parsed \<Rightarrow> ('a \<Rightarrow> nat \<Rightarrow> 'b parsed) \<Rightarrow> 'b parsed" where
  "pbind r f = (case r of PGot a s \<Rightarrow> f a s | PPanic m \<Rightarrow> PPanic m | PFuel \<Rightarrow> PFuel)"

type_synonym parser = "cmem \<Rightarrow> nat \<Rightarrow> nat \<Rightarrow> cmd parsed"

fun parseredirs_loop :: "nat \<Rightarrow> cmem \<Rightarrow> nat \<Rightarrow> cmd \<Rightarrow> nat \<Rightarrow> cmd parsed" where
  "parseredirs_loop 0 buf es cmd s = PFuel"
| "parseredirs_loop (Suc n) buf es cmd s =
     (let (b, s1) = peek buf es s [LT, GT] in
      if \<not> b then PGot cmd s1
      else
        let tok = gettoken buf es s1; t = gettoken buf es (tk_s tok) in
        if tk_ret t \<noteq> WORD then PPanic (str ''missing file for redirection'')
        else
          let cmd1 =
            (if tk_ret tok = LT then redircmd cmd (tk_q t) (tk_eq t) O_RDONLY 0
             else if tk_ret tok = GT then redircmd cmd (tk_q t) (tk_eq t) (O_WRONLY + O_CREATE) 1
             else if tk_ret tok = PLUS then redircmd cmd (tk_q t) (tk_eq t) (O_WRONLY + O_CREATE) 1
             else cmd)
          in parseredirs_loop n buf es cmd1 (tk_s t))"

definition parseredirs :: "cmem \<Rightarrow> nat \<Rightarrow> cmd \<Rightarrow> nat \<Rightarrow> cmd parsed" where
  "parseredirs buf es cmd s = parseredirs_loop (Suc (es - s)) buf es cmd s"

definition parseblock :: "parser \<Rightarrow> parser" where
  "parseblock pl buf es s =
     (let (b, s1) = peek buf es s [OPEN] in
      if \<not> b then PPanic (str ''parseblock'')
      else pbind (pl buf es (tk_s (gettoken buf es s1))) (\<lambda>cmd s2.
        let (b2, s3) = peek buf es s2 [CLOSE] in
        if \<not> b2 then PPanic (str ''syntax - missing )'')
        else parseredirs buf es cmd (tk_s (gettoken buf es s3))))"

text \<open>
  The loop of \<open>parseexec\<close> stores arguments in the \<open>EXEC\<close> node, which sits inside of the redirections made so far.
\<close>

fun add_arg :: "cmd \<Rightarrow> nat \<Rightarrow> nat \<Rightarrow> cmd" where
  "add_arg (EXEC as) q eq = EXEC (as @ [(q, eq)])"
| "add_arg (REDIR c f ef m fd) q eq = REDIR (add_arg c q eq) f ef m fd"
| "add_arg c q eq = c"

function parseargs :: "nat \<Rightarrow> cmem \<Rightarrow> nat \<Rightarrow> cmd \<Rightarrow> nat \<Rightarrow> cmd parsed" where
  "parseargs argc buf es ret s =
     (let (b, s1) = peek buf es s [BAR, CLOSE, AMP, SEMI] in
      if b then PGot ret s1
      else
        let t = gettoken buf es s1 in
        if tk_ret t = 0 then PGot ret (tk_s t)
        else if tk_ret t \<noteq> WORD then PPanic (str ''syntax'')
        else if argc + 1 \<ge> MAXARGS then PPanic (str ''too many args'')
        else pbind (parseredirs buf es (add_arg ret (tk_q t) (tk_eq t)) (tk_s t)) (\<lambda>ret1 s2. parseargs (argc + 1) buf es ret1 s2))"
  by pat_completeness auto
termination
  by (relation "measure (\<lambda>(argc, _). MAXARGS - argc)") auto

declare parseargs.simps [simp del]

definition parseexec :: "parser \<Rightarrow> parser" where
  "parseexec pl buf es s =
     (let (b, s1) = peek buf es s [OPEN] in
      if b then parseblock pl buf es s1
      else pbind (parseredirs buf es execcmd s1) (parseargs 0 buf es))"

fun parsepipe :: "nat \<Rightarrow> parser \<Rightarrow> parser" where
  "parsepipe 0 pl buf es s = PFuel"
| "parsepipe (Suc n) pl buf es s =
     pbind (parseexec pl buf es s) (\<lambda>cmd s1.
       let (b, s2) = peek buf es s1 [BAR] in
       if b then pbind (parsepipe n pl buf es (tk_s (gettoken buf es s2))) (\<lambda>right s3. PGot (pipecmd cmd right) s3)
       else PGot cmd s2)"

fun parseback :: "nat \<Rightarrow> cmem \<Rightarrow> nat \<Rightarrow> cmd \<Rightarrow> nat \<Rightarrow> cmd parsed" where
  "parseback 0 buf es cmd s = PFuel"
| "parseback (Suc n) buf es cmd s =
     (let (b, s1) = peek buf es s [AMP] in
      if b then parseback n buf es (backcmd cmd) (tk_s (gettoken buf es s1)) else PGot cmd s1)"

primrec parseline :: "nat \<Rightarrow> parser" where
  "parseline 0 = (\<lambda>buf es s. PFuel)"
| "parseline (Suc n) = (\<lambda>buf es s.
     pbind (parsepipe (Suc (es - s)) (parseline n) buf es s) (\<lambda>cmd s1.
     pbind (parseback (Suc (es - s1)) buf es cmd s1) (\<lambda>cmd2 s2.
       let (b, s3) = peek buf es s2 [SEMI] in
       if b then pbind (parseline n buf es (tk_s (gettoken buf es s3))) (\<lambda>right s4. PGot (listcmd cmd2 right) s4)
       else PGot cmd2 s3)))"

text \<open>The strings are ended in the order in which the code visits the tree.\<close>

fun nulterminate :: "cmd \<Rightarrow> cmem \<Rightarrow> cmem" where
  "nulterminate (EXEC as) buf = foldl (\<lambda>b a. b(snd a := 0)) buf as"
| "nulterminate (REDIR c f ef m fd) buf = (nulterminate c buf)(ef := 0)"
| "nulterminate (PIPE l r) buf = nulterminate r (nulterminate l buf)"
| "nulterminate (LIST l r) buf = nulterminate r (nulterminate l buf)"
| "nulterminate (BACK c) buf = nulterminate c buf"

text \<open>A line as \<open>gets\<close> leaves it in the cleared buffer.\<close>

definition line_mem :: "cstring \<Rightarrow> cmem" where
  "line_mem l = blit (\<lambda>_. 0) 0 l"

definition string_at :: "cmem \<Rightarrow> nat \<Rightarrow> nat \<Rightarrow> cstring" where
  "string_at buf es s = slice buf s (skip_while (\<lambda>c. c \<noteq> 0) buf es s - s)"

text \<open>The tree of positions, or what the parser prints before it gives up.\<close>

definition parsecmd :: "cstring \<Rightarrow> (cstring \<times> cstring option) + (cmd \<times> cmem)" where
  "parsecmd l =
     (let buf = line_mem l; es = length l in
      case parseline (Suc es) buf es 0 of
        PGot cmd s \<Rightarrow>
          let s1 = snd (peek buf es s []) in
          if s1 \<noteq> es then Inl (str ''syntax'', Some (string_at buf es s1)) else Inr (cmd, nulterminate cmd buf)
      | PPanic m \<Rightarrow> Inl (m, None)
      | PFuel \<Rightarrow> Inl ([], None))"

section \<open>Running commands\<close>

text \<open>A command with its strings.\<close>

datatype command =
  Exec "cstring list" | Redir command cstring nat int | Pipe command command | List command command | Back command

fun strings :: "cmem \<Rightarrow> nat \<Rightarrow> cmd \<Rightarrow> command" where
  "strings buf es (EXEC as) = Exec (map (\<lambda>a. string_at buf es (fst a)) as)"
| "strings buf es (REDIR c f ef m fd) = Redir (strings buf es c) (string_at buf es f) m fd"
| "strings buf es (PIPE l r) = Pipe (strings buf es l) (strings buf es r)"
| "strings buf es (LIST l r) = List (strings buf es l) (strings buf es r)"
| "strings buf es (BACK c) = Back (strings buf es c)"

definition sh_panic :: "cstring \<Rightarrow> 'a uprog" where
  "sh_panic s = uthen (printf_u 2 (str ''%s'' @ [NL]) [UStr s]) uexit"

definition fork1 :: "int uprog" where
  "fork1 = ubind (sysv UFork) (\<lambda>pid. uthen (if pid = -1 then sh_panic (str ''fork'') else uret ()) (uret pid))"

fun runcmd :: "command \<Rightarrow> unit uprog" where
  "runcmd (Exec argv) =
     (case argv of
        [] \<Rightarrow> uexit
      | a # as \<Rightarrow> uthen (uexec a argv) (uthen (printf_u 2 (str ''exec %s failed'' @ [NL]) [UStr a]) uexit))"
| "runcmd (Redir c file mode fd) =
     uthen (sysv (UClose fd))
    (ubind (sysv (UOpen file mode)) (\<lambda>r.
     if r < 0 then uthen (printf_u 2 (str ''open %s failed'' @ [NL]) [UStr file]) uexit
     else uthen (runcmd c) uexit))"
| "runcmd (List left right) =
     ubind fork1 (\<lambda>p. uthen (if p = 0 then runcmd left else uret ()) (uthen (sysv UWait) (uthen (runcmd right) uexit)))"
| "runcmd (Pipe left right) =
     ubind (usys UPipe) (\<lambda>r.
     uthen (if rv r < 0 then sh_panic (str ''pipe'') else uret ())
    (ubind fork1 (\<lambda>p.
     uthen (if p = 0 then
              uthen (sysv (UClose 1)) (uthen (sysv (UDup (snd (rpipe r))))
             (uthen (sysv (UClose (fst (rpipe r)))) (uthen (sysv (UClose (snd (rpipe r)))) (runcmd left))))
            else uret ())
    (ubind fork1 (\<lambda>p2.
     uthen (if p2 = 0 then
              uthen (sysv (UClose 0)) (uthen (sysv (UDup (fst (rpipe r))))
             (uthen (sysv (UClose (fst (rpipe r)))) (uthen (sysv (UClose (snd (rpipe r)))) (runcmd right))))
            else uret ())
    (uthen (sysv (UClose (fst (rpipe r)))) (uthen (sysv (UClose (snd (rpipe r))))
    (uthen (sysv UWait) (uthen (sysv UWait) uexit)))))))))"
| "runcmd (Back c) = ubind fork1 (\<lambda>p. uthen (if p = 0 then runcmd c else uret ()) uexit)"

text \<open>The child's part: parse the line and run it.\<close>

definition run_line :: "cstring \<Rightarrow> unit uprog" where
  "run_line l =
     (case parsecmd l of
        Inl (m, left) \<Rightarrow>
          uthen (case left of Some s \<Rightarrow> printf_u 2 (str ''leftovers: %s'' @ [NL]) [UStr s] | None \<Rightarrow> uret ()) (sh_panic m)
      | Inr (cmd, buf) \<Rightarrow> runcmd (strings buf (length l) cmd))"

text \<open>A line that starts with a zero byte reads as the end of the input.\<close>

definition getcmd :: "nat \<Rightarrow> cstring option uprog" where
  "getcmd nbuf =
     uthen (printf_u 2 (str ''$ '') [])
    (ubind (gets nbuf) (\<lambda>l. let s = takeWhile (\<lambda>c. c \<noteq> 0) l in uret (if s = [] then None else Some s)))"

function sh_open :: "unit uprog" where
  "sh_open w =
     ubind (usys (UOpen (str ''console'') O_RDWR)) (\<lambda>r v.
       if rv r \<ge> 0 then (if rv r \<ge> 3 then ubind (usys (UClose (rv r))) (\<lambda>_. uret ()) v else sh_open v) else uret () v) w"
  by pat_completeness auto
termination
  by (relation "measure (\<lambda>w. length (replies w))") (auto dest!: usys_shorter)

declare sh_open.simps [simp del]

text \<open>The comment of \<open>runcmd\<close> says that it never returns.\<close>

definition noret :: "'a uprog \<Rightarrow> bool" where
  "noret f \<longleftrightarrow> (\<forall>w a v. f w \<noteq> URet a v)"

lemma noret_uexit [simp]: "noret uexit"
  by (simp add: noret_def uexit_def)

lemma noret_ubind [simp]: "(\<And>a. noret (g a)) \<Longrightarrow> noret (ubind f g)"
  by (auto simp: noret_def ubind_def split: ures.splits)

lemma noret_panic [simp]: "noret (sh_panic s)"
  by (simp add: sh_panic_def)

lemma noret_if [simp]: "noret f \<Longrightarrow> noret g \<Longrightarrow> noret (if b then f else g)"
  by simp

lemma noret_runcmd [simp]: "noret (runcmd c)"
  by (induction c) (simp_all split: list.split)

lemma noret_run_line [simp]: "noret (run_line l)"
  by (simp add: run_line_def split: sum.split prod.split)

lemma consumes_gets_loop: "consumes (gets_loop n acc)"
proof (induction n arbitrary: acc)
  case (Suc n)
  then show ?case by (auto intro!: consumes_ubind split: list.split)
qed simp

lemma getcmd_shorter:
  assumes "getcmd n w = URet l v"
  shows "length (replies v) < length (replies w)"
proof -
  define k where "k = ubind (gets n) (\<lambda>l. let s = takeWhile (\<lambda>c. c \<noteq> 0) l in uret (if s = [] then None else Some s))"
  have k: "consumes k" by (auto simp: k_def gets_def Let_def consumes_gets_loop intro!: consumes_ubind)
  have "getcmd n w = ubind (usys (UWrite 2 [0x24])) (\<lambda>_. uthen (uthen (putc 2 0x20) (uret ())) k) w"
    unfolding getcmd_def k_def [symmetric] by (simp add: str_def putc_def sysv_def ubind_def uret_def split: ures.splits)
  then obtain r u where u: "usys (UWrite 2 [0x24]) w = URet r u" "uthen (uthen (putc 2 0x20) (uret ())) k u = URet l v"
    using assms by (auto simp: ubind_def [of "usys _"] split: ures.splits)
  have "consumes (uthen (uthen (putc 2 0x20) (uret ())) k)" by (simp add: k consumes_ubind)
  from consumesD [OF this u(2)] usys_shorter [OF u(1)] show ?thesis by simp
qed

lemma consumes_fork1 [simp]: "consumes fork1"
  by (auto simp: fork1_def sh_panic_def intro!: consumes_ubind)

function sh_loop :: "unit uprog" where
  "sh_loop w =
     ubind (getcmd 100) (\<lambda>l v.
       case l of
         None \<Rightarrow> uexit v
       | Some s \<Rightarrow>
           if take 3 s = str ''cd '' then
             ubind (sysv (UChdir (drop 3 (butlast s)))) (\<lambda>r u.
               ubind (if r < 0 then printf_u 2 (str ''cannot cd %s'' @ [NL]) [UStr (drop 3 (butlast s))] else uret ())
                 (\<lambda>_ t. sh_loop t) u) v
           else
             ubind fork1 (\<lambda>p u.
               ubind (if p = 0 then run_line s else uret ()) (\<lambda>_ t. ubind (usys UWait) (\<lambda>_ x. sh_loop x) t) u) v) w"
  by pat_completeness auto
termination
proof (relation "measure (\<lambda>w. length (replies w))")
  fix w l v s r u y t
  assume "getcmd 100 w = URet l v" "sysv (UChdir (drop 3 (butlast s))) v = URet r u"
    "(if r < 0 then printf_u 2 (str ''cannot cd %s'' @ [NL]) [UStr (drop 3 (butlast s))] else uret ()) u = URet y t"
  moreover have "consumes (if r < 0 then printf_u 2 (str ''cannot cd %s'' @ [NL]) [UStr (drop 3 (butlast s))] else uret ())" by simp
  ultimately show "(t, w) \<in> measure (\<lambda>w. length (replies w))"
    using getcmd_shorter consumesD [OF consumes_other(3)] consumesD by fastforce
next
  fix w l v s p u y t z x
  assume "getcmd 100 w = URet l v" "fork1 v = URet p u" "(if p = 0 then run_line s else uret ()) u = URet y t" "usys UWait t = URet z x"
  then have "t = u" using noret_run_line [of s] by (auto simp: noret_def uret_def split: if_splits)
  then show "(x, w) \<in> measure (\<lambda>w. length (replies w))"
    using getcmd_shorter [OF \<open>getcmd 100 w = URet l v\<close>] consumesD [OF consumes_fork1 \<open>fork1 v = URet p u\<close>]
      usys_shorter [OF \<open>usys UWait t = URet z x\<close>] by simp
qed simp

declare sh_loop.simps [simp del]

definition sh_main :: "unit uprog" where
  "sh_main = uthen sh_open sh_loop"

section \<open>What the parser returns\<close>

definition clean :: "cmem \<Rightarrow> nat \<Rightarrow> bool" where
  "clean buf es \<longleftrightarrow> buf es = 0 \<and> (\<forall>i<es. buf i \<noteq> 0)"

lemma clean_line: "0 \<notin> set l \<Longrightarrow> clean (line_mem l) (length l)"
  by (auto simp: clean_def line_mem_def blit_def in_set_conv_nth)

lemma skip_while_range: "s \<le> es \<Longrightarrow> s \<le> skip_while P buf es s \<and> skip_while P buf es s \<le> es"
  by (induction P buf es s rule: skip_while.induct) (subst (1 2) skip_while.simps, auto)

lemma skip_while_all: "s \<le> i \<Longrightarrow> i < skip_while P buf es s \<Longrightarrow> P (buf i)"
proof (induction P buf es s rule: skip_while.induct)
  case (1 P buf es s)
  then show ?case by (cases "s < es \<and> P (buf s)"; cases "i = s") (auto simp: skip_while.simps [of P buf es s])
qed

lemma skip_while_stop: "skip_while P buf es s < es \<Longrightarrow> \<not> P (buf (skip_while P buf es s))"
proof (induction P buf es s rule: skip_while.induct)
  case (1 P buf es s)
  then show ?case by (cases "s < es \<and> P (buf s)") (auto simp: skip_while.simps [of P buf es s])
qed

lemma skip_while_step: "s < es \<Longrightarrow> P (buf s) \<Longrightarrow> s < skip_while P buf es s"
  using skip_while_range [of "s + 1" es P buf] by (subst skip_while.simps) auto

lemma is_sym_iff: "is_sym c \<longleftrightarrow> c \<in> {LT, BAR, GT, AMP, SEMI, OPEN, CLOSE}"
  by (auto simp: is_sym_def symbols_def str_def)

lemma is_ws_iff: "is_ws c \<longleftrightarrow> c \<in> {0x20, 0x09, 0x0D, 0x0A, 0x0B}"
  by (auto simp: is_ws_def whitespace_def)

definition tok_ok :: "cmem \<Rightarrow> nat \<Rightarrow> nat \<times> nat \<Rightarrow> bool" where
  "tok_ok buf es a \<longleftrightarrow> fst a < snd a \<and> snd a \<le> es \<and> (\<forall>i. fst a \<le> i \<longrightarrow> i < snd a \<longrightarrow> word_char (buf i)) \<and>
     (snd a < es \<longrightarrow> \<not> word_char (buf (snd a)))"

lemma skip_ws_range: "s \<le> es \<Longrightarrow> s \<le> skip_ws buf es s \<and> skip_ws buf es s \<le> es"
  by (simp add: skip_ws_def skip_while_range)

lemma gettoken_ok:
  assumes c: "clean buf es" and s: "s \<le> es"
  shows "s \<le> tk_s (gettoken buf es s) \<and> tk_s (gettoken buf es s) \<le> es \<and>
    (tk_ret (gettoken buf es s) \<noteq> 0 \<longrightarrow> s < tk_s (gettoken buf es s)) \<and>
    (tk_ret (gettoken buf es s) = WORD \<longrightarrow> tok_ok buf es (tk_q (gettoken buf es s), tk_eq (gettoken buf es s)))"
proof -
  define q where "q = skip_ws buf es s"
  have q: "s \<le> q" "q \<le> es" using skip_ws_range [OF s] by (simp_all add: q_def)
  have e0: "buf es = 0" using c by (simp add: clean_def)
  show ?thesis
  proof (cases "q < es \<and> word_char (buf q)")
    case True
    define e where "e = skip_while word_char buf es q"
    have e: "q < e" "e \<le> es" "tok_ok buf es (q, e)"
      using True skip_while_step [of q es word_char buf] skip_while_range [of q es word_char buf]
      by (auto simp: e_def tok_ok_def intro: skip_while_all dest: skip_while_stop)
    have "buf q \<noteq> 0" "\<not> is_sym (buf q)" using True c by (simp_all add: clean_def word_char_def)
    then have "gettoken buf es s = \<lparr>tk_ret = WORD, tk_q = q, tk_eq = e, tk_s = skip_ws buf es e\<rparr>"
      by (simp add: gettoken_def q_def [symmetric] e_def is_sym_iff)
    then show ?thesis using e q skip_ws_range [OF e(2), of buf] by simp
  next
    case False
    show ?thesis
    proof (cases "q = es")
      case True
      then show ?thesis using q s e0 skip_ws_range [of es es buf] by (simp add: gettoken_def q_def [symmetric])
    next
      case F: False
      then have lt: "q < es" using q by simp
      then have "\<not> is_ws (buf q)" using skip_while_stop [of is_ws buf es s] by (simp add: q_def skip_ws_def)
      then have sym: "is_sym (buf q)" and nz: "buf q \<noteq> 0" using False lt c by (simp_all add: word_char_def clean_def)
      have "q + 1 < es" if "buf (q + 1) = GT" using that lt e0 by (cases "q + 1 = es") auto
      then show ?thesis using sym nz lt q skip_ws_range [of "q + 1" es buf] skip_ws_range [of "q + 2" es buf]
        by (auto simp: gettoken_def q_def [symmetric] is_sym_iff)
    qed
  qed
qed

fun tokens :: "cmd \<Rightarrow> (nat \<times> nat) list" where
  "tokens (EXEC as) = as"
| "tokens (REDIR c f ef m fd) = tokens c @ [(f, ef)]"
| "tokens (PIPE l r) = tokens l @ tokens r"
| "tokens (LIST l r) = tokens l @ tokens r"
| "tokens (BACK c) = tokens c"

definition good :: "cmem \<Rightarrow> nat \<Rightarrow> cmd \<Rightarrow> bool" where
  "good buf es c \<longleftrightarrow> list_all (tok_ok buf es) (tokens c)"

text \<open>A parser gives an answer, moves forward and returns a tree of whole words.\<close>

definition pok :: "cmem \<Rightarrow> nat \<Rightarrow> nat \<Rightarrow> cmd parsed \<Rightarrow> bool" where
  "pok buf es s r \<longleftrightarrow>
     (case r of PGot c t \<Rightarrow> s \<le> t \<and> t \<le> es \<and> good buf es c | PPanic m \<Rightarrow> m \<noteq> [] | PFuel \<Rightarrow> False)"

lemma pok_simps [simp]:
  "pok buf es s (PGot c t) \<longleftrightarrow> s \<le> t \<and> t \<le> es \<and> good buf es c"
  "pok buf es s (PPanic m) \<longleftrightarrow> m \<noteq> []"
  "\<not> pok buf es s PFuel"
  by (simp_all add: pok_def)

lemma pok_bind:
  "pok buf es s r \<Longrightarrow> (\<And>c t. s \<le> t \<Longrightarrow> t \<le> es \<Longrightarrow> good buf es c \<Longrightarrow> pok buf es s (f c t)) \<Longrightarrow> pok buf es s (pbind r f)"
  by (cases r) (simp_all add: pbind_def)

lemma pok_mono: "pok buf es t r \<Longrightarrow> s \<le> t \<Longrightarrow> pok buf es s r"
  by (cases r) auto

lemma peek_range: "peek buf es s toks = (b, t) \<Longrightarrow> s \<le> es \<Longrightarrow> s \<le> t \<and> t \<le> es"
  using skip_ws_range [of s es buf] by (auto simp: peek_def Let_def)

text \<open>After a successful \<open>peek\<close> there is a token, so \<open>gettoken\<close> moves on.\<close>

lemma peek_token:
  assumes "peek buf es s toks = (True, t)" and "s \<le> es" and "clean buf es"
  shows "t < tk_s (gettoken buf es t) \<and> tk_s (gettoken buf es t) \<le> es"
proof -
  have t: "t = skip_ws buf es s" "buf t \<noteq> 0" "s \<le> t" "t \<le> es"
    using assms(1,2) skip_ws_range [of s es buf] by (auto simp: peek_def Let_def)
  then have "t < es" using assms(3) by (cases "t = es") (auto simp: clean_def)
  then have "\<not> is_ws (buf t)" using t(1) skip_while_stop [of is_ws buf es s] by (simp add: skip_ws_def)
  then have "skip_ws buf es t = t" by (simp add: skip_ws_def skip_while.simps [of is_ws buf es t])
  then have "tk_ret (gettoken buf es t) \<noteq> 0" using t(2) by (simp add: gettoken_def Let_def)
  then show ?thesis using gettoken_ok [OF assms(3) t(4)] by simp
qed

lemma good_simps [simp]:
  "good buf es execcmd" "good buf es (redircmd c f ef m fd) \<longleftrightarrow> good buf es c \<and> tok_ok buf es (f, ef)"
  "good buf es (pipecmd l r) \<longleftrightarrow> good buf es l \<and> good buf es r" "good buf es (listcmd l r) \<longleftrightarrow> good buf es l \<and> good buf es r"
  "good buf es (backcmd c) \<longleftrightarrow> good buf es c"
  by (simp_all add: good_def cmd_defs)

lemma good_add_arg: "good buf es c \<Longrightarrow> tok_ok buf es (q, e) \<Longrightarrow> good buf es (add_arg c q e)"
  by (induction c q e rule: add_arg.induct) (simp_all add: good_def)

lemma parseredirs_loop_pok:
  "clean buf es \<Longrightarrow> s \<le> es \<Longrightarrow> es - s < n \<Longrightarrow> good buf es c \<Longrightarrow> pok buf es s (parseredirs_loop n buf es c s)"
proof (induction n arbitrary: c s)
  case (Suc n)
  obtain b s1 where pk: "peek buf es s [LT, GT] = (b, s1)" by fastforce
  have r: "s \<le> s1" "s1 \<le> es" using peek_range [OF pk Suc.prems(2)] by simp_all
  show ?case
  proof (cases b)
    case True
    define s2 where "s2 = tk_s (gettoken buf es s1)"
    define t where "t = gettoken buf es s2"
    have s2: "s1 < s2" "s2 \<le> es" using peek_token [of buf es s "[LT, GT]" s1] pk True Suc.prems by (simp_all add: s2_def)
    show ?thesis
    proof (cases "tk_ret t = WORD")
      case w: True
      have t: "s2 < tk_s t" "tk_s t \<le> es" "tok_ok buf es (tk_q t, tk_eq t)"
        using gettoken_ok [OF Suc.prems(1) s2(2)] w by (simp_all add: t_def)
      have IH: "pok buf es s (parseredirs_loop n buf es c' (tk_s t))" if "good buf es c'" for c'
        using Suc.prems r s2 t that by (intro pok_mono [OF Suc.IH]) simp_all
      show ?thesis using w True pk t Suc.prems(4) by (simp add: s2_def [symmetric] t_def [symmetric] IH Let_def)
    qed (use True pk in \<open>simp add: s2_def [symmetric] t_def [symmetric] str_def\<close>)
  qed (use r pk Suc.prems in simp)
qed simp

lemma parseredirs_pok: "clean buf es \<Longrightarrow> s \<le> es \<Longrightarrow> good buf es c \<Longrightarrow> pok buf es s (parseredirs buf es c s)"
  by (simp add: parseredirs_def parseredirs_loop_pok del: parseredirs_loop.simps)

lemma parseargs_pok: "clean buf es \<Longrightarrow> s \<le> es \<Longrightarrow> good buf es c \<Longrightarrow> pok buf es s (parseargs argc buf es c s)"
proof (induction "MAXARGS - argc" arbitrary: argc c s rule: less_induct)
  case less
  obtain b s1 where pk: "peek buf es s [BAR, CLOSE, AMP, SEMI] = (b, s1)" by fastforce
  have r: "s \<le> s1" "s1 \<le> es" using peek_range [OF pk less.prems(2)] by simp_all
  define t where "t = gettoken buf es s1"
  have t: "s1 \<le> tk_s t" "tk_s t \<le> es" "tk_ret t = WORD \<Longrightarrow> tok_ok buf es (tk_q t, tk_eq t)"
    using gettoken_ok [OF less.prems(1) r(2)] by (simp_all add: t_def)
  have IH: "pok buf es s (parseargs (argc + 1) buf es c' s')" if "argc + 1 < MAXARGS" "tk_s t \<le> s'" "s' \<le> es" "good buf es c'" for c' s'
    using less.prems(1) r t that by (intro pok_mono [OF less.hyps]) simp_all
  have "pok buf es s (pbind (parseredirs buf es (add_arg c (tk_q t) (tk_eq t)) (tk_s t)) (\<lambda>ret1 s2. parseargs (argc + 1) buf es ret1 s2))"
    if "argc + 1 < MAXARGS" "tk_ret t = WORD"
  proof -
    have "pok buf es (tk_s t) (parseredirs buf es (add_arg c (tk_q t) (tk_eq t)) (tk_s t))"
      using less.prems t that by (intro parseredirs_pok good_add_arg) simp_all
    then show ?thesis using IH that r t(1) by (cases "parseredirs buf es (add_arg c (tk_q t) (tk_eq t)) (tk_s t)") (auto simp: pbind_def)
  qed
  then show ?case using pk r t less.prems(3)
    by (subst parseargs.simps) (auto simp: t_def [symmetric] str_def not_less)
qed

lemma parseblock_pok:
  assumes c: "clean buf es" and s: "s \<le> es" and pl: "\<And>t. s < t \<Longrightarrow> t \<le> es \<Longrightarrow> pok buf es t (pl buf es t)"
  shows "pok buf es s (parseblock pl buf es s)"
proof -
  obtain b s1 where pk: "peek buf es s [OPEN] = (b, s1)" by fastforce
  have r: "s \<le> s1" "s1 \<le> es" using peek_range [OF pk s] by simp_all
  define s2 where "s2 = tk_s (gettoken buf es s1)"
  have k: "pok buf es s (case peek buf es u [CLOSE] of (b2, s3) \<Rightarrow>
      if \<not> b2 then PPanic (str ''syntax - missing )'') else parseredirs buf es d (tk_s (gettoken buf es s3)))"
    if "s \<le> u" "u \<le> es" "good buf es d" for d u
  proof -
    obtain b2 s3 where pk2: "peek buf es u [CLOSE] = (b2, s3)" by fastforce
    have "s3 < tk_s (gettoken buf es s3) \<and> tk_s (gettoken buf es s3) \<le> es" "u \<le> s3" if b2
      using peek_token [of buf es u "[CLOSE]" s3] peek_range [OF pk2] pk2 that \<open>u \<le> es\<close> c by simp_all
    then have "pok buf es s (parseredirs buf es d (tk_s (gettoken buf es s3)))" if b2
      using that \<open>s \<le> u\<close> \<open>good buf es d\<close> c by (intro pok_mono [OF parseredirs_pok]) simp_all
    then show ?thesis using pk2 by (simp add: str_def)
  qed
  show ?thesis
  proof (cases b)
    case True
    have s2: "s1 < s2" "s2 \<le> es" using peek_token [of buf es s "[OPEN]" s1] pk True c s unfolding s2_def by simp_all
    have "pok buf es s (pl buf es s2)" by (rule pok_mono [OF pl]) (use r s2 in simp_all)
    then show ?thesis using True pk k by (simp add: parseblock_def s2_def [symmetric] pok_bind)
  qed (use pk in \<open>simp add: parseblock_def str_def\<close>)
qed

lemma parseexec_pok:
  assumes c: "clean buf es" and s: "s \<le> es" and pl: "\<And>t. s < t \<Longrightarrow> t \<le> es \<Longrightarrow> pok buf es t (pl buf es t)"
  shows "pok buf es s (parseexec pl buf es s)"
proof -
  obtain b s1 where pk: "peek buf es s [OPEN] = (b, s1)" by fastforce
  have r: "s \<le> s1" "s1 \<le> es" using peek_range [OF pk s] by simp_all
  have "pok buf es s (parseblock pl buf es s1)" using c r pl by (intro pok_mono [OF parseblock_pok]) simp_all
  moreover have "pok buf es s (pbind (parseredirs buf es execcmd s1) (parseargs 0 buf es))"
    using c r by (intro pok_bind pok_mono [OF parseredirs_pok] pok_mono [OF parseargs_pok]) simp_all
  ultimately show ?thesis by (simp add: parseexec_def pk)
qed

lemma parsepipe_pok:
  assumes c: "clean buf es"
  shows "s \<le> es \<Longrightarrow> es - s < n \<Longrightarrow> (\<And>t. s < t \<Longrightarrow> t \<le> es \<Longrightarrow> pok buf es t (pl buf es t)) \<Longrightarrow> pok buf es s (parsepipe n pl buf es s)"
proof (induction n arbitrary: s)
  case (Suc n)
  have "pok buf es s (case peek buf es u [BAR] of (b, s2) \<Rightarrow>
       if b then pbind (parsepipe n pl buf es (tk_s (gettoken buf es s2))) (\<lambda>right s3. PGot (pipecmd d right) s3) else PGot d s2)"
    if u: "s \<le> u" "u \<le> es" "good buf es d" for d u
  proof -
    obtain b s2 where pk: "peek buf es u [BAR] = (b, s2)" by fastforce
    have r: "u \<le> s2" "s2 \<le> es" using peek_range [OF pk u(2)] by simp_all
    show ?thesis
    proof (cases b)
      case True
      define s3 where "s3 = tk_s (gettoken buf es s2)"
      have s3: "s2 < s3" "s3 \<le> es" using peek_token [of buf es u "[BAR]" s2] pk True c u by (simp_all add: s3_def)
      have "pok buf es s (parsepipe n pl buf es s3)"
        using u r s3 Suc.prems by (intro pok_mono [OF Suc.IH]) simp_all
      then show ?thesis using True pk u(3) by (simp add: s3_def [symmetric] pok_bind)
    qed (use pk r u in simp)
  qed
  moreover have "pok buf es s (parseexec pl buf es s)" by (rule parseexec_pok [OF c]) (use Suc.prems in simp_all)
  ultimately show ?case by (simp add: pok_bind Let_def)
qed simp

lemma parseback_pok:
  assumes c: "clean buf es"
  shows "s \<le> es \<Longrightarrow> es - s < n \<Longrightarrow> good buf es d \<Longrightarrow> pok buf es s (parseback n buf es d s)"
proof (induction n arbitrary: s d)
  case (Suc n)
  obtain b s1 where pk: "peek buf es s [AMP] = (b, s1)" by fastforce
  have r: "s \<le> s1" "s1 \<le> es" using peek_range [OF pk Suc.prems(1)] by simp_all
  show ?case
  proof (cases b)
    case True
    define s2 where "s2 = tk_s (gettoken buf es s1)"
    have s2: "s1 < s2" "s2 \<le> es" using peek_token [of buf es s "[AMP]" s1] pk True c Suc.prems by (simp_all add: s2_def)
    have "pok buf es s (parseback n buf es (backcmd d) s2)"
      using r s2 Suc.prems by (intro pok_mono [OF Suc.IH]) simp_all
    then show ?thesis using True pk by (simp add: s2_def [symmetric])
  qed (use pk r Suc.prems in simp)
qed simp

lemma parseline_pok:
  assumes c: "clean buf es"
  shows "s \<le> es \<Longrightarrow> es - s < n \<Longrightarrow> pok buf es s (parseline n buf es s)"
proof (induction n arbitrary: s)
  case (Suc n)
  have pl: "pok buf es t (parseline n buf es t)" if "s < t" "t \<le> es" for t
    using Suc.prems that by (intro Suc.IH) simp_all
  have "pok buf es s (case peek buf es u [SEMI] of (b, s3) \<Rightarrow>
       if b then pbind (parseline n buf es (tk_s (gettoken buf es s3))) (\<lambda>right s4. PGot (listcmd d right) s4) else PGot d s3)"
    if u: "s \<le> u" "u \<le> es" "good buf es d" for d u
  proof -
    obtain b s2 where pk: "peek buf es u [SEMI] = (b, s2)" by fastforce
    have r: "u \<le> s2" "s2 \<le> es" using peek_range [OF pk u(2)] by simp_all
    show ?thesis
    proof (cases b)
      case True
      define s3 where "s3 = tk_s (gettoken buf es s2)"
      have s3: "s2 < s3" "s3 \<le> es" using peek_token [of buf es u "[SEMI]" s2] pk True c u by (simp_all add: s3_def)
      have "pok buf es s (parseline n buf es s3)" using u r s3 by (intro pok_mono [OF pl]) simp_all
      then show ?thesis using True pk u(3) by (simp add: s3_def [symmetric] pok_bind)
    qed (use pk r u in simp)
  qed
  moreover have "pok buf es s (parsepipe (Suc (es - s)) (parseline n) buf es s)"
    using Suc.prems pl by (intro parsepipe_pok c) simp_all
  moreover have "pok buf es s (parseback (Suc (es - t)) buf es d t)" if "s \<le> t" "t \<le> es" "good buf es d" for d t
    using that by (intro pok_mono [OF parseback_pok] c) simp_all
  ultimately show ?case by (simp add: pok_bind Let_def del: parsepipe.simps parseback.simps)
qed simp

section \<open>Ending the strings\<close>

lemma foldl_ends: "foldl (\<lambda>b a. b(snd a := 0)) buf as = (\<lambda>i. if i \<in> snd ` set as then 0 else buf i)"
  by (induction as arbitrary: buf) (auto simp: fun_eq_iff)

lemma nulterminate_eq: "nulterminate c buf = (\<lambda>i. if i \<in> snd ` set (tokens c) then 0 else buf i)"
  by (induction c arbitrary: buf) (auto simp: foldl_ends fun_eq_iff)

text \<open>The command with the words as they are in the line.\<close>

fun texts :: "cmem \<Rightarrow> cmd \<Rightarrow> command" where
  "texts buf (EXEC as) = Exec (map (\<lambda>a. slice buf (fst a) (snd a - fst a)) as)"
| "texts buf (REDIR c f ef m fd) = Redir (texts buf c) (slice buf f (ef - f)) m fd"
| "texts buf (PIPE l r) = Pipe (texts buf l) (texts buf r)"
| "texts buf (LIST l r) = List (texts buf l) (texts buf r)"
| "texts buf (BACK c) = Back (texts buf c)"

lemma skip_while_eq:
  "s \<le> e \<Longrightarrow> e \<le> es \<Longrightarrow> (\<And>i. s \<le> i \<Longrightarrow> i < e \<Longrightarrow> P (buf i)) \<Longrightarrow> (e < es \<Longrightarrow> \<not> P (buf e)) \<Longrightarrow> skip_while P buf es s = e"
  using skip_while_range [of s es P buf] skip_while_all [of s e P buf es] skip_while_stop [of P buf es s]
  by (metis le_eq_less_or_eq nat_neq_iff order_trans)

lemma string_at_token:
  assumes ok: "list_all (tok_ok buf es) T" and c: "clean buf es" and a: "a \<in> set T"
  shows "string_at (\<lambda>i. if i \<in> snd ` set T then 0 else buf i) es (fst a) = slice buf (fst a) (snd a - fst a)"
proof -
  let ?b = "\<lambda>i. if i \<in> snd ` set T then 0 else buf i"
  have t: "tok_ok buf es a" using ok a by (simp add: list_all_iff)
  have keep: "?b i = buf i" if i: "fst a \<le> i" "i < snd a" for i
  proof -
    have "word_char (buf i)" "i < es" using t i by (auto simp: tok_ok_def)
    then have "i \<notin> snd ` set T" using ok by (auto simp: list_all_iff tok_ok_def)
    then show ?thesis by simp
  qed
  have "skip_while (\<lambda>c. c \<noteq> 0) ?b es (fst a) = snd a"
  proof (rule skip_while_eq)
    show "?b i \<noteq> 0" if "fst a \<le> i" "i < snd a" for i using keep [OF that] that t c by (auto simp: tok_ok_def clean_def)
  qed (use t a in \<open>auto simp: tok_ok_def\<close>)
  moreover have "slice ?b (fst a) (snd a - fst a) = slice buf (fst a) (snd a - fst a)"
    by (rule nth_equalityI) (use keep in auto)
  ultimately show ?thesis by (simp add: string_at_def)
qed

lemma strings_texts:
  "list_all (tok_ok buf es) T \<Longrightarrow> clean buf es \<Longrightarrow> set (tokens c) \<subseteq> set T \<Longrightarrow>
   strings (\<lambda>i. if i \<in> snd ` set T then 0 else buf i) es c = texts buf c"
proof (induction c)
  case (EXEC as)
  then show ?case using string_at_token [OF EXEC(1,2)] by (auto simp: subset_iff)
next
  case (REDIR c f ef m fd)
  then show ?case using string_at_token [OF REDIR(2,3), of "(f, ef)"] by simp
qed simp_all

text \<open>
  C36.  The parser of the shell gives an answer on every line: it stops with a message, or it returns a command, and after
  \<open>nulterminate\<close> every string of the command is the whole word of the line that it points to, a longest run of characters that are neither
  blanks nor symbols.
\<close>

theorem parsecmd_answers:
  assumes "0 \<notin> set l"
  shows "case parsecmd l of
      Inl (m, left) \<Rightarrow> m \<noteq> []
    | Inr (c, buf) \<Rightarrow> list_all (tok_ok (line_mem l) (length l)) (tokens c) \<and> strings buf (length l) c = texts (line_mem l) c"
proof -
  note c = clean_line [OF assms]
  have "pok (line_mem l) (length l) 0 (parseline (Suc (length l)) (line_mem l) (length l) 0)"
    using c by (intro parseline_pok) simp_all
  then show ?thesis using strings_texts [OF _ c]
    by (cases "parseline (Suc (length l)) (line_mem l) (length l) 0")
      (auto simp: parsecmd_def Let_def good_def nulterminate_eq str_def simp del: parseline.simps)
qed

theorem parsecmd_answers_witness:
  "case parsecmd [0x6C, 0x73, BAR, 0x77, 0x63] of
      Inl (m, left) \<Rightarrow> m \<noteq> []
    | Inr (c, buf) \<Rightarrow>
        list_all (tok_ok (line_mem [0x6C, 0x73, BAR, 0x77, 0x63]) (length [0x6C, 0x73, BAR, 0x77, 0x63 :: u8])) (tokens c) \<and>
        strings buf (length [0x6C, 0x73, BAR, 0x77, 0x63 :: u8]) c = texts (line_mem [0x6C, 0x73, BAR, 0x77, 0x63]) c"
  by (rule parsecmd_answers) simp

end
