(* ===== verification/ShellParse.thy ===== *)
theory ShellParse
  imports Shell
begin

text \<open>
  Every command can be written as a line that the shell's parser reads as that command.  The printer separates tokens by blanks and puts
  parentheses where the grammar needs them; the parser is followed token by token.
\<close>

section \<open>Writing commands\<close>

datatype tok = Sym u8 | Word cstring

fun chars :: "tok \<Rightarrow> cstring" where
  "chars (Sym c) = [c]"
| "chars (Word w) = w"

definition untok :: "tok list \<Rightarrow> cstring" where
  "untok ts = concat (map (\<lambda>t. 0x20 # chars t) ts)"

lemma untok_simps [simp]: "untok [] = []" "untok (t # ts) = 0x20 # chars t @ untok ts"
  by (simp_all add: untok_def)

definition word :: "cstring \<Rightarrow> bool" where
  "word w \<longleftrightarrow> w \<noteq> [] \<and> (\<forall>c\<in>set w. c \<noteq> 0 \<and> word_char c)"

fun tok_wf :: "tok \<Rightarrow> bool" where
  "tok_wf (Sym c) \<longleftrightarrow> is_sym c"
| "tok_wf (Word w) \<longleftrightarrow> word w"

abbreviation paren :: "bool \<Rightarrow> tok list \<Rightarrow> tok list" where
  "paren b ts \<equiv> (if b then Sym OPEN # ts @ [Sym CLOSE] else ts)"

text \<open>The number is the place: 0 for a line, 1 in front of \<open>&\<close> or \<open>;\<close>, 2 for a pipeline, 3 for a part of one.\<close>

fun shown :: "nat \<Rightarrow> command \<Rightarrow> tok list" where
  "shown p (Exec ws) = map Word ws"
| "shown p (Redir c f m fd) = shown 3 c @ [Sym (if m = 0 then LT else GT), Word f]"
| "shown p (Pipe l r) = paren (p > 2) (shown 3 l @ Sym BAR # shown 2 r)"
| "shown p (Back c) = paren (p > 1) (shown 1 c @ [Sym AMP])"
| "shown p (List l r) = paren (p > 0) (shown 1 l @ Sym SEMI # shown 0 r)"

text \<open>The commands the parser can make: fewer than 10 arguments, and the two kinds of redirection.\<close>

fun command_ok :: "command \<Rightarrow> bool" where
  "command_ok (Exec ws) \<longleftrightarrow> length ws < MAXARGS \<and> list_all word ws"
| "command_ok (Redir c f m fd) \<longleftrightarrow> command_ok c \<and> word f \<and> (m = O_RDONLY \<and> fd = 0 \<or> m = O_WRONLY + O_CREATE \<and> fd = 1)"
| "command_ok (Pipe l r) \<longleftrightarrow> command_ok l \<and> command_ok r"
| "command_ok (Back c) \<longleftrightarrow> command_ok c"
| "command_ok (List l r) \<longleftrightarrow> command_ok l \<and> command_ok r"

lemma shown_wf: "command_ok c \<Longrightarrow> list_all tok_wf (shown p c)"
  by (induction p c rule: shown.induct) (auto simp: is_sym_iff list_all_iff)

section \<open>Reading tokens\<close>

definition rest :: "cmem \<Rightarrow> nat \<Rightarrow> nat \<Rightarrow> cstring" where
  "rest buf es s = slice buf s (es - s)"

lemma rest_end: "rest buf es es = []"
  by (simp add: rest_def)

lemma rest_Cons: "s < es \<Longrightarrow> rest buf es s = buf s # rest buf es (s + 1)"
  by (cases "es - s") (simp_all add: rest_def slice_Suc, metis Suc_diff_Suc nat.inject)

lemma rest_skip: "s \<le> es \<Longrightarrow> rest buf es (skip_while P buf es s) = dropWhile P (rest buf es s)"
proof (induction P buf es s rule: skip_while.induct)
  case (1 P buf es s)
  show ?case
  proof (cases "s < es")
    case True
    then show ?thesis using 1 by (cases "P (buf s)") (simp_all add: skip_while.simps [of P buf es s] rest_Cons [of s])
  next
    case False
    then have "s = es" using 1 by simp
    then show ?thesis using skip_while.simps [of P buf es es] by (simp add: rest_end)
  qed
qed

lemma rest_prefix: "rest buf es s = w @ r \<Longrightarrow> s \<le> es \<Longrightarrow> slice buf s (length w) = w \<and> rest buf es (s + length w) = r \<and> s + length w \<le> es"
proof (induction w arbitrary: s)
  case (Cons c w)
  then have "s < es" by (cases "s = es") (auto simp: rest_end)
  then show ?case using Cons.IH [of "s + 1"] Cons.prems by (simp add: rest_Cons [of s] slice_Suc)
qed simp

text \<open>From a position on, up to blanks, the line holds these tokens.\<close>

definition at :: "cmem \<Rightarrow> nat \<Rightarrow> nat \<Rightarrow> tok list \<Rightarrow> bool" where
  "at buf es s ts \<longleftrightarrow> clean buf es \<and> s \<le> es \<and> list_all tok_wf ts \<and> dropWhile is_ws (rest buf es s) = dropWhile is_ws (untok ts)"

lemma ws_sym: "is_ws c \<Longrightarrow> \<not> is_sym c"
  by (auto simp: is_ws_iff is_sym_iff)

lemma drop_untok: "list_all tok_wf (t # ts) \<Longrightarrow> dropWhile is_ws (untok (t # ts)) = chars t @ untok ts"
proof -
  assume wf: "list_all tok_wf (t # ts)"
  have "is_ws 0x20" by (simp add: is_ws_iff)
  moreover have "\<exists>c w. chars t = c # w \<and> \<not> is_ws c"
    using wf ws_sym by (cases t) (auto simp: word_def word_char_def neq_Nil_conv)
  ultimately show ?thesis by auto
qed

lemma drop_untok_head: "ts = [] \<or> (\<exists>r. untok ts = 0x20 # r)"
  by (cases ts) simp_all

fun first_in :: "u8 list \<Rightarrow> tok list \<Rightarrow> bool" where
  "first_in S [] = False"
| "first_in S (Sym c # ts) = (c \<in> set S)"
| "first_in S (Word w # ts) = False"

lemma at_skip: "at buf es s ts \<Longrightarrow> at buf es (skip_ws buf es s) ts \<and> rest buf es (skip_ws buf es s) = dropWhile is_ws (untok ts)"
  using skip_ws_range [of s es buf] by (simp add: at_def skip_ws_def rest_skip)

lemma rest_head: "rest buf es s = c # r \<Longrightarrow> s \<le> es \<Longrightarrow> s < es \<and> buf s = c \<and> rest buf es (s + 1) = r"
  by (cases "s = es") (auto simp: rest_end rest_Cons [of s])

lemma strchr_set: "strchr_u t c \<noteq> None \<longleftrightarrow> c \<in> set t"
  by (induction t) auto

lemma at_peek:
  assumes "at buf es s ts" and "\<forall>c\<in>set S. is_sym c"
  obtains t where "peek buf es s S = (first_in S ts, t)" "at buf es t ts" "s \<le> t"
proof
  let ?t = "skip_ws buf es s"
  show a: "at buf es ?t ts" using at_skip [OF assms(1)] by simp
  have le: "?t \<le> es" using a by (simp add: at_def)
  have r: "rest buf es ?t = dropWhile is_ws (untok ts)" using at_skip [OF assms(1)] by simp
  show "s \<le> ?t" using skip_ws_range [of s es buf] assms(1) by (simp add: at_def)
  show "peek buf es s S = (first_in S ts, ?t)"
  proof (cases ts)
    case Nil
    then have "?t = es" using r le rest_Cons [of ?t es buf] by (cases "?t < es") simp_all
    then have "buf ?t = 0" using a by (simp add: at_def clean_def)
    then show ?thesis using Nil by (simp add: peek_def Let_def)
  next
    case (Cons x xs)
    have wf: "list_all tok_wf (x # xs)" using assms(1) Cons by (simp add: at_def)
    have r2: "rest buf es ?t = chars x @ untok xs" using r Cons drop_untok [OF wf] by simp
    show ?thesis
    proof (cases x)
      case (Sym c)
      then have "buf ?t = c" "?t < es" using r2 rest_head [of buf es ?t c] le by simp_all
      moreover have "c \<noteq> 0" using wf Sym by (auto simp: is_sym_iff)
      ultimately show ?thesis using Cons Sym strchr_set [of S c] by (simp add: peek_def Let_def)
    next
      case (Word w)
      then obtain c v where w: "w = c # v" "word_char c" using wf by (auto simp: word_def neq_Nil_conv)
      then have "buf ?t = c" using r2 Word rest_head [of buf es ?t c] le by simp
      moreover have "c \<notin> set S" using w assms(2) by (auto simp: word_char_def)
      ultimately show ?thesis using Cons Word strchr_set [of S c] by (simp add: peek_def Let_def)
    qed
  qed
qed

lemma skip_ws_at: "clean buf es \<Longrightarrow> s \<le> es \<Longrightarrow> rest buf es s = untok ts \<Longrightarrow> list_all tok_wf ts \<Longrightarrow> at buf es (skip_ws buf es s) ts"
  by (rule conjunct1 [OF at_skip]) (simp add: at_def)

lemma at_gettoken_nil: "at buf es s [] \<Longrightarrow> tk_ret (gettoken buf es s) = 0 \<and> at buf es (tk_s (gettoken buf es s)) []"
proof -
  assume a: "at buf es s []"
  let ?t = "skip_ws buf es s"
  have t: "at buf es ?t []" "rest buf es ?t = []" using at_skip [OF a] by simp_all
  then have "?t = es" using rest_Cons [of ?t es buf] by (cases "?t < es") (simp_all add: at_def)
  moreover have "buf es = 0" using a by (simp add: at_def clean_def)
  ultimately show ?thesis using t(1) at_skip [of buf es es "[]"] by (simp add: gettoken_def Let_def)
qed

lemma at_gettoken_sym:
  assumes a: "at buf es s (Sym c # ts)"
  shows "tk_ret (gettoken buf es s) = c \<and> at buf es (tk_s (gettoken buf es s)) ts"
proof -
  let ?t = "skip_ws buf es s"
  have wf: "list_all tok_wf (Sym c # ts)" and cl: "clean buf es" using a by (simp_all add: at_def)
  have t: "at buf es ?t (Sym c # ts)" "rest buf es ?t = c # untok ts"
    using at_skip [OF a] drop_untok [OF wf] by simp_all
  have h: "?t < es" "buf ?t = c" "rest buf es (?t + 1) = untok ts" using rest_head [OF t(2)] t(1) by (simp_all add: at_def)
  have n: "at buf es (skip_ws buf es (?t + 1)) ts" using cl h wf by (intro skip_ws_at) simp_all
  have "buf (?t + 1) \<noteq> GT"
  proof (cases ts)
    case Nil
    then have "?t + 1 = es" using h(1,3) rest_Cons [of "?t + 1" es buf] by (cases "?t + 1 < es") simp_all
    then show ?thesis using cl by (simp add: clean_def)
  next
    case (Cons x xs)
    then have "rest buf es (?t + 1) = 0x20 # chars x @ untok xs" using h(3) by simp
    from rest_head [OF this] h(1) show ?thesis by simp
  qed
  moreover have "c \<in> {LT, BAR, GT, AMP, SEMI, OPEN, CLOSE}" using wf is_sym_iff by simp
  ultimately show ?thesis using h n by (auto simp: gettoken_def Let_def)
qed

lemma takeWhile_word: "word w \<Longrightarrow> list_all tok_wf ts \<Longrightarrow> dropWhile word_char (w @ untok ts) = untok ts"
proof -
  assume w: "word w"
  have "\<not> word_char 0x20" by (simp add: word_char_def is_ws_iff)
  then have "dropWhile word_char (untok ts) = untok ts" using drop_untok_head [of ts] by auto
  then show ?thesis using w by (simp add: word_def)
qed

lemma at_gettoken_word:
  assumes a: "at buf es s (Word w # ts)"
  defines "t \<equiv> gettoken buf es s"
  shows "tk_ret t = WORD" "slice buf (tk_q t) (tk_eq t - tk_q t) = w" "at buf es (tk_s t) ts"
proof -
  let ?q = "skip_ws buf es s"
  have wf: "list_all tok_wf (Word w # ts)" and cl: "clean buf es" using a by (simp_all add: at_def)
  have q: "at buf es ?q (Word w # ts)" "rest buf es ?q = w @ untok ts" using at_skip [OF a] drop_untok [OF wf] by simp_all
  have le: "?q \<le> es" using q(1) by (simp add: at_def)
  note p = rest_prefix [OF q(2) le]
  obtain c v where c: "w = c # v" "word_char c" "c \<noteq> 0" using wf by (auto simp: word_def neq_Nil_conv)
  have bq: "buf ?q = c" "?q < es" using rest_head [of buf es ?q c] q(2) c le by simp_all
  let ?e = "skip_while word_char buf es ?q"
  have e: "rest buf es ?e = untok ts" "?e \<le> es" "?q \<le> ?e"
    using rest_skip [OF le, of buf word_char] q(2) takeWhile_word [of w ts] wf skip_while_range [OF le, of word_char buf] by simp_all
  have "length (rest buf es ?q) = es - ?q" "length (rest buf es ?e) = es - ?e" by (simp_all add: rest_def)
  then have ee: "?e = ?q + length w" using q(2) e by simp
  have "t = \<lparr>tk_ret = WORD, tk_q = ?q, tk_eq = ?e, tk_s = skip_ws buf es ?e\<rparr>"
    using bq c by (auto simp: t_def gettoken_def Let_def word_char_def is_sym_iff)
  then show "tk_ret t = WORD" "slice buf (tk_q t) (tk_eq t - tk_q t) = w" "at buf es (tk_s t) ts"
    using p ee skip_ws_at [OF cl e(2,1)] wf by simp_all
qed

section \<open>Reading commands\<close>

text \<open>What a parser is to return: the command written in front of the tokens \<open>k\<close>.\<close>

definition reads :: "cmem \<Rightarrow> nat \<Rightarrow> nat \<Rightarrow> cmd parsed \<Rightarrow> command \<Rightarrow> tok list \<Rightarrow> bool" where
  "reads buf es s r c k \<longleftrightarrow> (\<exists>d t. r = PGot d t \<and> s \<le> t \<and> texts buf d = c \<and> at buf es t k)"

lemma readsI: "s \<le> t \<Longrightarrow> texts buf d = c \<Longrightarrow> at buf es t k \<Longrightarrow> reads buf es s (PGot d t) c k"
  by (simp add: reads_def)

lemma reads_mono: "reads buf es t r c k \<Longrightarrow> s \<le> t \<Longrightarrow> reads buf es s r c k"
  by (auto simp: reads_def)

lemma reads_bind:
  "reads buf es s r c k \<Longrightarrow> (\<And>d t. s \<le> t \<Longrightarrow> texts buf d = c \<Longrightarrow> at buf es t k \<Longrightarrow> reads buf es s (f d t) c' k') \<Longrightarrow>
   reads buf es s (pbind r f) c' k'"
  by (auto simp: reads_def pbind_def)

lemma at_le: "at buf es s ts \<Longrightarrow> s \<le> es \<and> clean buf es"
  by (simp add: at_def)

lemma at_sym:
  assumes "at buf es s (Sym c # ts)"
  shows "at buf es (tk_s (gettoken buf es s)) ts \<and> s < tk_s (gettoken buf es s)"
proof -
  have "c \<noteq> 0" using assms by (auto simp: at_def is_sym_iff)
  then show ?thesis using at_gettoken_sym [OF assms] gettoken_ok [of buf es s] at_le [OF assms] by simp
qed

lemma at_word_step: "at buf es s (Word w # ts) \<Longrightarrow> s < tk_s (gettoken buf es s)"
  using at_gettoken_word(1) [of buf es s w ts] gettoken_ok [of buf es s] at_le [of buf es s] by simp

type_synonym redir = "cstring \<times> nat \<times> int"

fun redir_ok :: "redir \<Rightarrow> bool" where
  "redir_ok (f, m, fd) \<longleftrightarrow> word f \<and> (m = O_RDONLY \<and> fd = 0 \<or> m = O_WRONLY + O_CREATE \<and> fd = 1)"

definition redir_toks :: "redir list \<Rightarrow> tok list" where
  "redir_toks rs = concat (map (\<lambda>(f, m, fd). [Sym (if m = 0 then LT else GT), Word f]) rs)"

definition redirect :: "command \<Rightarrow> redir list \<Rightarrow> command" where
  "redirect = foldl (\<lambda>c (f, m, fd). Redir c f m fd)"

lemma redir_toks_simps [simp]:
  "redir_toks [] = []" "redir_toks ((f, m, fd) # rs) = Sym (if m = 0 then LT else GT) # Word f # redir_toks rs"
  by (simp_all add: redir_toks_def)

lemma redirect_simps [simp]: "redirect c [] = c" "redirect c ((f, m, fd) # rs) = redirect (Redir c f m fd) rs"
  by (simp_all add: redirect_def)

lemma redirs_sym: "\<forall>c\<in>set [LT, GT]. is_sym c" "\<forall>c\<in>set [BAR, CLOSE, AMP, SEMI]. is_sym c" "\<forall>c\<in>set [OPEN]. is_sym c"
  "\<forall>c\<in>set [CLOSE]. is_sym c" "\<forall>c\<in>set [BAR]. is_sym c" "\<forall>c\<in>set [AMP]. is_sym c" "\<forall>c\<in>set [SEMI]. is_sym c"
  by (simp_all add: is_sym_iff)

lemma reads_redirs_loop:
  "at buf es s (redir_toks rs @ k) \<Longrightarrow> es - s < n \<Longrightarrow> list_all redir_ok rs \<Longrightarrow> \<not> first_in [LT, GT] k \<Longrightarrow>
   reads buf es s (parseredirs_loop n buf es d s) (redirect (texts buf d) rs) k"
proof (induction n arbitrary: rs d s)
  case (Suc n)
  obtain s1 where pk: "peek buf es s [LT, GT] = (first_in [LT, GT] (redir_toks rs @ k), s1)" "at buf es s1 (redir_toks rs @ k)" "s \<le> s1"
    using at_peek [OF Suc.prems(1) redirs_sym(1)] by blast
  show ?case
  proof (cases rs)
    case Nil
    then show ?thesis using pk Suc.prems(4) by (simp add: readsI)
  next
    case (Cons r rs')
    obtain f m fd where r: "r = (f, m, fd)" by (cases r)
    define c where "c = (if m = 0 then LT else GT)"
    define s2 where "s2 = tk_s (gettoken buf es s1)"
    define t where "t = gettoken buf es s2"
    have a1: "at buf es s1 (Sym c # Word f # redir_toks rs' @ k)" using pk(2) Cons r by (simp add: c_def)
    note g1 = at_gettoken_sym [OF a1] at_sym [OF a1]
    have a2: "at buf es s2 (Word f # redir_toks rs' @ k)" "s1 < s2" using g1 by (simp_all add: s2_def)
    note g2 = at_gettoken_word [OF a2(1), folded t_def] at_word_step [OF a2(1), folded t_def]
    have ok: "m = O_RDONLY \<and> fd = 0 \<or> m = O_WRONLY + O_CREATE \<and> fd = 1" "list_all redir_ok rs'" using Suc.prems(3) Cons r by simp_all
    define d1 where "d1 = redircmd d (tk_q t) (tk_eq t) m fd"
    have tx: "texts buf d1 = Redir (texts buf d) f m fd" using g2(2) by (simp add: d1_def redircmd_def)
    have "parseredirs_loop (Suc n) buf es d s = parseredirs_loop n buf es d1 (tk_s t)"
      using pk(1) Cons r g1(1) g2(1) ok(1) by (auto simp: s2_def [symmetric] t_def [symmetric] c_def d1_def Let_def)
    moreover have "reads buf es s (parseredirs_loop n buf es d1 (tk_s t)) (redirect (texts buf d1) rs') k"
      using Suc.prems(2,4) g2(3,4) ok(2) a2(2) pk(3) conjunct1 [OF at_le [OF g2(3)]] by (intro reads_mono [OF Suc.IH]) simp_all
    ultimately show ?thesis using Cons r tx by simp
  qed
qed simp

lemma reads_redirs:
  "at buf es s (redir_toks rs @ k) \<Longrightarrow> list_all redir_ok rs \<Longrightarrow> \<not> first_in [LT, GT] k \<Longrightarrow>
   reads buf es s (parseredirs buf es d s) (redirect (texts buf d) rs) k"
  by (simp add: parseredirs_def reads_redirs_loop del: parseredirs_loop.simps)

text \<open>The end of an argument list.\<close>

definition stop :: "u8 list \<Rightarrow> tok list \<Rightarrow> bool" where
  "stop S k \<longleftrightarrow> k = [] \<or> first_in S k"

lemma reads_args_end:
  assumes a: "at buf es s k" and st: "stop [BAR, CLOSE, AMP, SEMI] k"
  shows "reads buf es s (parseargs argc buf es d s) (texts buf d) k"
proof -
  obtain s1 where pk: "peek buf es s [BAR, CLOSE, AMP, SEMI] = (first_in [BAR, CLOSE, AMP, SEMI] k, s1)" "at buf es s1 k" "s \<le> s1"
    using at_peek [OF a redirs_sym(2)] by blast
  show ?thesis
  proof (cases "k = []")
    case True
    then have "tk_ret (gettoken buf es s1) = 0" "at buf es (tk_s (gettoken buf es s1)) k" "s1 \<le> tk_s (gettoken buf es s1)"
      using at_gettoken_nil [of buf es s1] gettoken_ok [of buf es s1] pk(2) at_le [OF pk(2)] by simp_all
    then show ?thesis using pk True by (subst parseargs.simps) (simp add: readsI)
  next
    case False
    then show ?thesis using st pk by (subst parseargs.simps) (simp add: stop_def readsI)
  qed
qed

lemma stop_no_redir: "stop [BAR, CLOSE, AMP, SEMI] k \<Longrightarrow> \<not> first_in [LT, GT] k"
  by (cases "([LT, GT], k)" rule: first_in.cases) (auto simp: stop_def)

lemma reads_args:
  "at buf es s (map Word ws @ redir_toks rs @ k) \<Longrightarrow> ws \<noteq> [] \<Longrightarrow> argc + length ws < MAXARGS \<Longrightarrow> list_all redir_ok rs \<Longrightarrow>
   stop [BAR, CLOSE, AMP, SEMI] k \<Longrightarrow>
   reads buf es s (parseargs argc buf es (EXEC as) s) (redirect (Exec (map (\<lambda>a. slice buf (fst a) (snd a - fst a)) as @ ws)) rs) k"
proof (induction ws arbitrary: argc as s)
  case (Cons w ws)
  let ?S = "[BAR, CLOSE, AMP, SEMI]" and ?tx = "map (\<lambda>a. slice buf (fst a) (snd a - fst a))"
  have a0: "at buf es s (Word w # map Word ws @ redir_toks rs @ k)" using Cons.prems(1) by simp
  obtain s1 where pk: "peek buf es s ?S = (False, s1)" "at buf es s1 (Word w # map Word ws @ redir_toks rs @ k)" "s \<le> s1"
    using at_peek [OF a0 redirs_sym(2)] by auto
  define t where "t = gettoken buf es s1"
  note g = at_gettoken_word [OF pk(2), folded t_def] at_word_step [OF pk(2), folded t_def]
  have lim: "\<not> argc + 1 \<ge> MAXARGS" using Cons.prems(3) by simp
  define as1 where "as1 = as @ [(tk_q t, tk_eq t)]"
  have tx: "?tx as1 = ?tx as @ [w]" using g(2) by (simp add: as1_def)
  have step: "parseargs argc buf es (EXEC as) s =
      pbind (parseredirs buf es (EXEC as1) (tk_s t)) (\<lambda>ret1 s2. parseargs (argc + 1) buf es ret1 s2)"
    using pk(1) g(1) lim by (subst parseargs.simps) (simp add: t_def [symmetric] as1_def)
  have "reads buf es (tk_s t) (pbind (parseredirs buf es (EXEC as1) (tk_s t)) (\<lambda>ret1 s2. parseargs (argc + 1) buf es ret1 s2))
      (redirect (Exec (?tx as1 @ ws)) rs) k"
  proof (cases ws)
    case Nil
    have "at buf es (tk_s t) (redir_toks rs @ k)" using g(3) Nil by simp
    note rd = reads_redirs [OF this Cons.prems(4) stop_no_redir [OF Cons.prems(5)], of "EXEC as1"]
    show ?thesis
    proof (rule reads_bind [OF rd])
      fix d u
      assume u: "tk_s t \<le> u" "texts buf d = redirect (texts buf (EXEC as1)) rs" "at buf es u k"
      from reads_mono [OF reads_args_end [OF u(3) Cons.prems(5)] u(1), of "argc + 1" d] u(2) Nil
      show "reads buf es (tk_s t) (parseargs (argc + 1) buf es d u) (redirect (Exec (?tx as1 @ ws)) rs) k" by simp
    qed
  next
    case (Cons v vs)
    have nr: "\<not> first_in [LT, GT] (map Word ws @ redir_toks rs @ k)" using Cons by simp
    have "at buf es (tk_s t) (redir_toks [] @ map Word ws @ redir_toks rs @ k)" using g(3) by simp
    from at_peek [OF this redirs_sym(1)] obtain s2 where p2: "peek buf es (tk_s t) [LT, GT] = (False, s2)"
      "at buf es s2 (map Word ws @ redir_toks rs @ k)" "tk_s t \<le> s2" using nr by auto
    then have "parseredirs buf es (EXEC as1) (tk_s t) = PGot (EXEC as1) s2" by (simp add: parseredirs_def)
    moreover have "reads buf es (tk_s t) (parseargs (argc + 1) buf es (EXEC as1) s2) (redirect (Exec (?tx as1 @ ws)) rs) k"
      using p2 Cons Cons.prems by (intro reads_mono [OF Cons.IH]) simp_all
    ultimately show ?thesis by (simp add: pbind_def)
  qed
  then show ?case using step tx pk(3) g(4) reads_mono by simp
qed simp

lemma reads_no_redirs:
  assumes "at buf es s ts" and "\<not> first_in [LT, GT] ts"
  shows "reads buf es s (parseredirs buf es d s) (texts buf d) ts" "\<exists>t. parseredirs buf es d s = PGot d t \<and> s \<le> t \<and> at buf es t ts"
proof -
  obtain s1 where "peek buf es s [LT, GT] = (False, s1)" "at buf es s1 ts" "s \<le> s1"
    using at_peek [OF assms(1) redirs_sym(1)] assms(2) by auto
  then show "\<exists>t. parseredirs buf es d s = PGot d t \<and> s \<le> t \<and> at buf es t ts" by (simp add: parseredirs_def)
  then show "reads buf es s (parseredirs buf es d s) (texts buf d) ts" by (auto simp: reads_def)
qed

lemma reads_exec_simple:
  assumes a: "at buf es s (map Word ws @ redir_toks rs @ k)" and n: "length ws < MAXARGS" and r: "list_all redir_ok rs"
    and st: "stop [BAR, CLOSE, AMP, SEMI] k"
  shows "reads buf es s (parseexec pl buf es s) (redirect (Exec ws) rs) k"
proof -
  have "\<not> first_in [OPEN] (map Word ws @ redir_toks rs @ k)"
    using st by (cases ws; cases rs; cases "([OPEN], k)" rule: first_in.cases) (auto simp: stop_def split: prod.split if_splits)
  then obtain s1 where s1: "peek buf es s [OPEN] = (False, s1)" "at buf es s1 (map Word ws @ redir_toks rs @ k)" "s \<le> s1"
    using at_peek [OF a redirs_sym(3)] by auto
  have "reads buf es s1 (pbind (parseredirs buf es execcmd s1) (parseargs 0 buf es)) (redirect (Exec ws) rs) k"
  proof (cases "ws = []")
    case True
    have "at buf es s1 (redir_toks rs @ k)" using s1(2) True by simp
    note rd = reads_redirs [OF this r stop_no_redir [OF st], of execcmd]
    show ?thesis
    proof (rule reads_bind [OF rd])
      fix d t
      assume t: "s1 \<le> t" "texts buf d = redirect (texts buf execcmd) rs" "at buf es t k"
      from reads_mono [OF reads_args_end [OF t(3) st] t(1), of 0 d] t(2) True
      show "reads buf es s1 (parseargs 0 buf es d t) (redirect (Exec ws) rs) k" by (simp add: execcmd_def)
    qed
  next
    case False
    then have "\<not> first_in [LT, GT] (map Word ws @ redir_toks rs @ k)" by (cases ws) simp_all
    from reads_no_redirs(2) [OF s1(2) this, of execcmd]
    obtain t where t: "parseredirs buf es execcmd s1 = PGot execcmd t" "s1 \<le> t" "at buf es t (map Word ws @ redir_toks rs @ k)" by blast
    have "reads buf es t (parseargs 0 buf es (EXEC []) t) (redirect (Exec ([] @ ws)) rs) k"
      using reads_args [OF t(3) False _ r st, of 0 "[]"] n by simp
    then show ?thesis using t(1,2) by (simp add: pbind_def execcmd_def reads_mono)
  qed
  then show ?thesis using s1 by (simp add: parseexec_def reads_mono)
qed

lemma reads_block:
  assumes a: "at buf es s (Sym OPEN # ts @ Sym CLOSE # redir_toks rs @ k)" and r: "list_all redir_ok rs"
    and nr: "\<not> first_in [LT, GT] k"
    and pl: "\<And>t. s < t \<Longrightarrow> at buf es t (ts @ Sym CLOSE # redir_toks rs @ k) \<Longrightarrow> reads buf es t (pl buf es t) c (Sym CLOSE # redir_toks rs @ k)"
  shows "reads buf es s (parseexec pl buf es s) (redirect c rs) k"
proof -
  let ?K = "redir_toks rs @ k"
  obtain s1 where s1: "peek buf es s [OPEN] = (True, s1)" "at buf es s1 (Sym OPEN # ts @ Sym CLOSE # ?K)" "s \<le> s1"
    using at_peek [OF a redirs_sym(3)] by auto
  obtain s2 where s2: "peek buf es s1 [OPEN] = (True, s2)" "at buf es s2 (Sym OPEN # ts @ Sym CLOSE # ?K)" "s1 \<le> s2"
    using at_peek [OF s1(2) redirs_sym(3)] by auto
  define s3 where "s3 = tk_s (gettoken buf es s2)"
  have s3: "at buf es s3 (ts @ Sym CLOSE # ?K)" "s < s3" using at_sym [OF s2(2)] s1(3) s2(3) by (simp_all add: s3_def)
  have p: "reads buf es s (pl buf es s3) c (Sym CLOSE # ?K)" using pl [OF s3(2,1)] s3(2) by (simp add: reads_mono)
  have k: "reads buf es s (let (b2, s5) = peek buf es t [CLOSE] in if \<not> b2 then PPanic (str ''syntax - missing )'')
        else parseredirs buf es d (tk_s (gettoken buf es s5))) (redirect c rs) k"
    if t: "s \<le> t" "texts buf d = c" "at buf es t (Sym CLOSE # ?K)" for d t
  proof -
    obtain s5 where s5: "peek buf es t [CLOSE] = (True, s5)" "at buf es s5 (Sym CLOSE # ?K)" "t \<le> s5"
      using at_peek [OF t(3) redirs_sym(4)] by auto
    note g = at_sym [OF s5(2)]
    have "reads buf es s (parseredirs buf es d (tk_s (gettoken buf es s5))) (redirect (texts buf d) rs) k"
      using g t(1) s5(3) by (intro reads_mono [OF reads_redirs [OF _ r nr]]) simp_all
    then show ?thesis using s5(1) t(2) by simp
  qed
  show ?thesis using s1(1) s2(1) reads_bind [OF p k] by (simp add: parseexec_def parseblock_def s3_def [symmetric])
qed

text \<open>The four places of the grammar.\<close>

definition RE :: "command \<Rightarrow> bool" where
  "RE c \<longleftrightarrow> (\<forall>n buf es s k. at buf es s (shown 3 c @ k) \<longrightarrow> es - s \<le> n \<longrightarrow> stop [BAR, CLOSE, AMP, SEMI] k \<longrightarrow>
     reads buf es s (parseexec (parseline n) buf es s) c k)"

definition RP :: "command \<Rightarrow> bool" where
  "RP c \<longleftrightarrow> (\<forall>n m buf es s k. at buf es s (shown 2 c @ k) \<longrightarrow> es - s \<le> n \<longrightarrow> es - s < m \<longrightarrow> stop [CLOSE, AMP, SEMI] k \<longrightarrow>
     reads buf es s (parsepipe m (parseline n) buf es s) c k)"

definition RB :: "command \<Rightarrow> bool" where
  "RB c \<longleftrightarrow> (\<forall>n buf es s k. at buf es s (shown 1 c @ k) \<longrightarrow> es - s \<le> n \<longrightarrow> stop [CLOSE, SEMI] k \<longrightarrow>
     reads buf es s (pbind (parsepipe (Suc (es - s)) (parseline n) buf es s) (\<lambda>d t. parseback (Suc (es - t)) buf es d t)) c k)"

definition RL :: "command \<Rightarrow> bool" where
  "RL c \<longleftrightarrow> (\<forall>n buf es s k. at buf es s (shown 0 c @ k) \<longrightarrow> es - s < n \<longrightarrow> stop [CLOSE] k \<longrightarrow>
     reads buf es s (parseline n buf es s) c k)"

lemma RE_D: "RE c \<Longrightarrow> at buf es s (shown 3 c @ k) \<Longrightarrow> es - s \<le> n \<Longrightarrow> stop [BAR, CLOSE, AMP, SEMI] k \<Longrightarrow>
    reads buf es s (parseexec (parseline n) buf es s) c k"
  unfolding RE_def by blast

lemma RP_D: "RP c \<Longrightarrow> at buf es s (shown 2 c @ k) \<Longrightarrow> es - s \<le> n \<Longrightarrow> es - s < m \<Longrightarrow> stop [CLOSE, AMP, SEMI] k \<Longrightarrow>
    reads buf es s (parsepipe m (parseline n) buf es s) c k"
  unfolding RP_def by blast

lemma RB_D: "RB c \<Longrightarrow> at buf es s (shown 1 c @ k) \<Longrightarrow> es - s \<le> n \<Longrightarrow> stop [CLOSE, SEMI] k \<Longrightarrow>
    reads buf es s (pbind (parsepipe (Suc (es - s)) (parseline n) buf es s) (\<lambda>d t. parseback (Suc (es - t)) buf es d t)) c k"
  unfolding RB_def by blast

lemma RL_D: "RL c \<Longrightarrow> at buf es s (shown 0 c @ k) \<Longrightarrow> es - s < n \<Longrightarrow> stop [CLOSE] k \<Longrightarrow> reads buf es s (parseline n buf es s) c k"
  unfolding RL_def by blast

lemma stop_mono: "stop S k \<Longrightarrow> set S \<subseteq> set T \<Longrightarrow> stop T k"
  by (cases "(S, k)" rule: first_in.cases) (auto simp: stop_def)

lemma stop_not: "stop S k \<Longrightarrow> set S \<inter> set T = {} \<Longrightarrow> \<not> first_in T k"
  by (cases "(S, k)" rule: first_in.cases) (auto simp: stop_def)

lemma shown_redirect: "shown 3 (redirect c rs) = shown 3 c @ redir_toks rs"
  by (induction rs arbitrary: c) auto

lemma RE_simple: "length ws < MAXARGS \<Longrightarrow> list_all redir_ok rs \<Longrightarrow> RE (redirect (Exec ws) rs)"
  unfolding RE_def shown_redirect by (auto intro: reads_exec_simple)

lemma RE_block:
  assumes "RL b" and "shown 3 b = Sym OPEN # shown 0 b @ [Sym CLOSE]" and r: "list_all redir_ok rs"
  shows "RE (redirect b rs)"
  unfolding RE_def
proof (intro allI impI)
  fix n buf es s k
  assume a: "at buf es s (shown 3 (redirect b rs) @ k)" "es - s \<le> n" "stop [BAR, CLOSE, AMP, SEMI] k"
  have a1: "at buf es s (Sym OPEN # shown 0 b @ Sym CLOSE # redir_toks rs @ k)" using a(1) assms(2) by (simp add: shown_redirect)
  have pl: "reads buf es t (parseline n buf es t) b (Sym CLOSE # redir_toks rs @ k)"
    if "s < t" "at buf es t (shown 0 b @ Sym CLOSE # redir_toks rs @ k)" for t
    using a(2) that conjunct1 [OF at_le [OF that(2)]] by (intro RL_D [OF assms(1)]) (simp_all add: stop_def)
  show "reads buf es s (parseexec (parseline n) buf es s) (redirect b rs) k"
    by (rule reads_block [OF a1 r stop_no_redir [OF a(3)]]) (rule pl)
qed

lemma RP_single:
  assumes "RE c" and "shown 2 c = shown 3 c"
  shows "RP c"
  unfolding RP_def
proof (intro allI impI)
  fix n m buf es s k
  assume a: "at buf es s (shown 2 c @ k)" "es - s \<le> n" "es - s < m" "stop [CLOSE, AMP, SEMI] k"
  have st: "stop [BAR, CLOSE, AMP, SEMI] k" using a(4) by (rule stop_mono) auto
  have nb: "\<not> first_in [BAR] k" using a(4) by (rule stop_not) simp
  have rd: "reads buf es s (parseexec (parseline n) buf es s) c k" using a(1) assms by (intro RE_D a(2) st) simp_all
  obtain m' where m: "m = Suc m'" using a(3) by (cases m) simp_all
  show "reads buf es s (parsepipe m (parseline n) buf es s) c k" unfolding m parsepipe.simps
  proof (rule reads_bind [OF rd])
    fix d t
    assume t: "s \<le> t" "texts buf d = c" "at buf es t k"
    obtain s2 where "peek buf es t [BAR] = (False, s2)" "at buf es s2 k" "t \<le> s2" using at_peek [OF t(3) redirs_sym(5)] nb by auto
    then show "reads buf es s (let (b, s2) = peek buf es t [BAR] in
        if b then pbind (parsepipe m' (parseline n) buf es (tk_s (gettoken buf es s2))) (\<lambda>right s3. PGot (pipecmd d right) s3)
        else PGot d s2) c k" using t by (simp add: readsI)
  qed
qed

lemma RP_pipe:
  assumes "RE l" and "RP r"
  shows "RP (Pipe l r)"
  unfolding RP_def
proof (intro allI impI)
  fix n m buf es s k
  assume a: "at buf es s (shown 2 (Pipe l r) @ k)" "es - s \<le> n" "es - s < m" "stop [CLOSE, AMP, SEMI] k"
  obtain m' where m: "m = Suc m'" using a(3) by (cases m) simp_all
  have "at buf es s (shown 3 l @ Sym BAR # shown 2 r @ k)" using a(1) by simp
  then have rd: "reads buf es s (parseexec (parseline n) buf es s) l (Sym BAR # shown 2 r @ k)"
    by (intro RE_D assms(1) a(2)) (simp_all add: stop_def)
  have k: "reads buf es s (let (b, s2) = peek buf es t [BAR] in
       if b then pbind (parsepipe m' (parseline n) buf es (tk_s (gettoken buf es s2))) (\<lambda>right s3. PGot (pipecmd d right) s3)
       else PGot d s2) (Pipe l r) k"
    if t: "s \<le> t" "texts buf d = l" "at buf es t (Sym BAR # shown 2 r @ k)" for d t
  proof -
    obtain s2 where s2: "peek buf es t [BAR] = (True, s2)" "at buf es s2 (Sym BAR # shown 2 r @ k)" "t \<le> s2"
      using at_peek [OF t(3) redirs_sym(5)] by auto
    define s3 where "s3 = tk_s (gettoken buf es s2)"
    have s3: "at buf es s3 (shown 2 r @ k)" "s < s3" using at_sym [OF s2(2)] t(1) s2(3) by (simp_all add: s3_def)
    have "reads buf es s3 (parsepipe m' (parseline n) buf es s3) r k"
      using a(2,3) m s3 conjunct1 [OF at_le [OF s3(1)]] by (intro RP_D assms(2) a(4)) simp_all
    then have "reads buf es s (pbind (parsepipe m' (parseline n) buf es s3) (\<lambda>right s3. PGot (pipecmd d right) s3)) (Pipe l r) k"
      using s3(2) t(2) by (intro reads_bind [OF reads_mono]) (auto simp: pipecmd_def intro: readsI)
    then show ?thesis using s2(1) by (simp add: s3_def [symmetric])
  qed
  show "reads buf es s (parsepipe m (parseline n) buf es s) (Pipe l r) k"
    unfolding m parsepipe.simps by (rule reads_bind [OF rd]) (rule k)
qed

lemma reads_back:
  "at buf es s (replicate j (Sym AMP) @ k) \<Longrightarrow> es - s < n \<Longrightarrow> \<not> first_in [AMP] k \<Longrightarrow>
   reads buf es s (parseback n buf es d s) ((Back ^^ j) (texts buf d)) k"
proof (induction n arbitrary: j d s)
  case (Suc n)
  obtain s1 where pk: "peek buf es s [AMP] = (first_in [AMP] (replicate j (Sym AMP) @ k), s1)" "at buf es s1 (replicate j (Sym AMP) @ k)"
    "s \<le> s1" using at_peek [OF Suc.prems(1) redirs_sym(6)] by blast
  show ?case
  proof (cases j)
    case 0
    then show ?thesis using pk Suc.prems(3) by (simp add: readsI)
  next
    case (Suc i)
    then have "at buf es s1 (Sym AMP # replicate i (Sym AMP) @ k)" using pk(2) by simp
    note g = at_sym [OF this]
    have "reads buf es s (parseback n buf es (backcmd d) (tk_s (gettoken buf es s1))) ((Back ^^ i) (texts buf (backcmd d))) k"
      using Suc.prems(2,3) conjunct1 [OF g] conjunct2 [OF g] pk(3) conjunct1 [OF at_le [OF conjunct1 [OF g]]] by (intro reads_mono [OF Suc.IH]) simp_all
    then show ?thesis using pk(1) Suc by (simp add: backcmd_def funpow_swap1)
  qed
qed simp

lemma shown_Back: "shown 1 ((Back ^^ j) c) = shown 1 c @ replicate j (Sym AMP)"
  by (induction j) (simp_all add: replicate_append_same)

lemma RB_back:
  assumes "RP c" and "shown 1 c = shown 2 c"
  shows "RB ((Back ^^ j) c)"
  unfolding RB_def
proof (intro allI impI)
  fix n buf es s k
  assume a: "at buf es s (shown 1 ((Back ^^ j) c) @ k)" "es - s \<le> n" "stop [CLOSE, SEMI] k"
  have st: "stop [CLOSE, AMP, SEMI] (replicate j (Sym AMP) @ k)"
    using stop_mono [OF a(3), of "[CLOSE, AMP, SEMI]"] by (cases j) (auto simp: stop_def)
  have "at buf es s (shown 2 c @ replicate j (Sym AMP) @ k)" using a(1) assms(2) by (simp only: shown_Back append_assoc)
  then have "reads buf es s (parsepipe (Suc (es - s)) (parseline n) buf es s) c (replicate j (Sym AMP) @ k)"
    by (intro RP_D assms(1) a(2) st) simp_all
  then show "reads buf es s (pbind (parsepipe (Suc (es - s)) (parseline n) buf es s) (\<lambda>d t. parseback (Suc (es - t)) buf es d t)) ((Back ^^ j) c) k"
  proof (rule reads_bind)
    fix d t
    assume t: "s \<le> t" "texts buf d = c" "at buf es t (replicate j (Sym AMP) @ k)"
    have "\<not> first_in [AMP] k" using a(3) by (rule stop_not) simp
    from reads_mono [OF reads_back [OF t(3) _ this, of "Suc (es - t)" d] t(1)] t(2)
    show "reads buf es s (parseback (Suc (es - t)) buf es d t) ((Back ^^ j) c) k" by simp
  qed
qed

lemma pbind_assoc: "pbind (pbind r f) g = pbind r (\<lambda>a s. pbind (f a s) g)"
  by (cases r) (simp_all add: pbind_def)

lemma parseline_step:
  "parseline (Suc n) buf es s =
     pbind (pbind (parsepipe (Suc (es - s)) (parseline n) buf es s) (\<lambda>d t. parseback (Suc (es - t)) buf es d t)) (\<lambda>cmd2 s2.
       let (b, s3) = peek buf es s2 [SEMI] in
       if b then pbind (parseline n buf es (tk_s (gettoken buf es s3))) (\<lambda>right s4. PGot (listcmd cmd2 right) s4)
       else PGot cmd2 s3)"
  by (simp add: pbind_assoc del: parsepipe.simps parseback.simps)

lemma RL_single:
  assumes "RB c" and "shown 0 c = shown 1 c"
  shows "RL c"
  unfolding RL_def
proof (intro allI impI)
  fix n buf es s k
  assume a: "at buf es s (shown 0 c @ k)" "es - s < n" "stop [CLOSE] k"
  obtain n' where n: "n = Suc n'" using a(2) by (cases n) simp_all
  have st: "stop [CLOSE, SEMI] k" using a(3) by (rule stop_mono) auto
  have ns: "\<not> first_in [SEMI] k" using a(3) by (rule stop_not) simp
  have rd: "reads buf es s (pbind (parsepipe (Suc (es - s)) (parseline n') buf es s) (\<lambda>d t. parseback (Suc (es - t)) buf es d t)) c k"
    using a(1,2) n assms by (intro RB_D st) simp_all
  show "reads buf es s (parseline n buf es s) c k" unfolding n parseline_step
  proof (rule reads_bind [OF rd])
    fix d t
    assume t: "s \<le> t" "texts buf d = c" "at buf es t k"
    obtain s3 where "peek buf es t [SEMI] = (False, s3)" "at buf es s3 k" "t \<le> s3" using at_peek [OF t(3) redirs_sym(7)] ns by auto
    then show "reads buf es s (let (b, s3) = peek buf es t [SEMI] in
       if b then pbind (parseline n' buf es (tk_s (gettoken buf es s3))) (\<lambda>right s4. PGot (listcmd d right) s4) else PGot d s3) c k"
      using t by (simp add: readsI)
  qed
qed

lemma RL_list:
  assumes "RB l" and "RL r"
  shows "RL (List l r)"
  unfolding RL_def
proof (intro allI impI)
  fix n buf es s k
  assume a: "at buf es s (shown 0 (List l r) @ k)" "es - s < n" "stop [CLOSE] k"
  obtain n' where n: "n = Suc n'" using a(2) by (cases n) simp_all
  have "at buf es s (shown 1 l @ Sym SEMI # shown 0 r @ k)" using a(1) by simp
  then have rd: "reads buf es s (pbind (parsepipe (Suc (es - s)) (parseline n') buf es s) (\<lambda>d t. parseback (Suc (es - t)) buf es d t))
      l (Sym SEMI # shown 0 r @ k)"
    using a(2) n by (intro RB_D assms(1)) (simp_all add: stop_def)
  show "reads buf es s (parseline n buf es s) (List l r) k" unfolding n parseline_step
  proof (rule reads_bind [OF rd])
    fix d t
    assume t: "s \<le> t" "texts buf d = l" "at buf es t (Sym SEMI # shown 0 r @ k)"
    obtain s2 where s2: "peek buf es t [SEMI] = (True, s2)" "at buf es s2 (Sym SEMI # shown 0 r @ k)" "t \<le> s2"
      using at_peek [OF t(3) redirs_sym(7)] by auto
    define s3 where "s3 = tk_s (gettoken buf es s2)"
    have s3: "at buf es s3 (shown 0 r @ k)" "s < s3" using at_sym [OF s2(2)] t(1) s2(3) by (simp_all add: s3_def)
    have "reads buf es s3 (parseline n' buf es s3) r k"
      using a(2) n s3 conjunct1 [OF at_le [OF s3(1)]] by (intro RL_D assms(2) a(3)) simp_all
    then have "reads buf es s (pbind (parseline n' buf es s3) (\<lambda>right s4. PGot (listcmd d right) s4)) (List l r) k"
      using s3(2) t(2) by (intro reads_bind [OF reads_mono]) (auto simp: listcmd_def intro: readsI)
    then show "reads buf es s (let (b, s3) = peek buf es t [SEMI] in
       if b then pbind (parseline n' buf es (tk_s (gettoken buf es s3))) (\<lambda>right s4. PGot (listcmd d right) s4) else PGot d s3) (List l r) k"
      using s2(1) by (simp add: s3_def [symmetric])
  qed
qed

text \<open>Taking a command apart.\<close>

fun is_redir :: "command \<Rightarrow> bool" where
  "is_redir (Redir c f m fd) = True"
| "is_redir c = False"

fun is_back :: "command \<Rightarrow> bool" where
  "is_back (Back c) = True"
| "is_back c = False"

lemma redirect_snoc: "redirect b (rs @ [(f, m, fd)]) = Redir (redirect b rs) f m fd"
  by (simp add: redirect_def)

lemma size_redirect: "size (redirect b rs) = size b + length rs"
  by (induction rs arbitrary: b) auto

lemma split_no_redir:
  "\<not> is_redir c \<Longrightarrow> command_ok c \<Longrightarrow> \<exists>b rs. c = redirect b rs \<and> \<not> is_redir b \<and> list_all redir_ok rs \<and> command_ok b \<and> size b \<le> size c"
  by (intro exI [of _ c] exI [of _ "[]"]) simp

lemma split_no_back:
  "\<not> is_back c \<Longrightarrow> command_ok c \<Longrightarrow> \<exists>b j. c = (Back ^^ j) b \<and> \<not> is_back b \<and> command_ok b \<and> size b + j \<le> size c"
  by (intro exI [of _ c] exI [of _ 0]) simp

lemma split_redirs: "command_ok c \<Longrightarrow> \<exists>b rs. c = redirect b rs \<and> \<not> is_redir b \<and> list_all redir_ok rs \<and> command_ok b \<and> size b \<le> size c"
proof (induction c)
  case (Redir c f m fd)
  then obtain b rs where "c = redirect b rs" "\<not> is_redir b" "list_all redir_ok rs" "command_ok b" "size b \<le> size c" by auto
  then show ?case using Redir.prems by (intro exI [of _ b] exI [of _ "rs @ [(f, m, fd)]"]) (simp add: redirect_snoc)
qed (rule split_no_redir; simp)+

lemma split_backs: "command_ok c \<Longrightarrow> \<exists>b j. c = (Back ^^ j) b \<and> \<not> is_back b \<and> command_ok b \<and> size b + j \<le> size c"
proof (induction c)
  case (Back c)
  then obtain b j where "c = (Back ^^ j) b" "\<not> is_back b" "command_ok b" "size b + j \<le> size c" by auto
  then show ?case by (intro exI [of _ b] exI [of _ "Suc j"]) simp
qed (rule split_no_back; simp)+

lemma shown_1_2: "\<not> is_back c \<Longrightarrow> shown 1 c = shown 2 c"
  by (cases c) simp_all

lemma read_all: "command_ok c \<Longrightarrow> RE c \<and> RP c \<and> RB c \<and> RL c"
proof (induction "size c" arbitrary: c rule: less_induct)
  case less
  note IH = less.hyps
  obtain b rs where b: "c = redirect b rs" "\<not> is_redir b" "list_all redir_ok rs" "command_ok b" "size b \<le> size c"
    using split_redirs [OF less.prems] by blast
  have up: "RB c" "RL c" if "RP c" "\<not> is_back c" "shown 0 c = shown 1 c"
  proof -
    show "RB c" using RB_back [of c 0] that shown_1_2 by simp
    then show "RL c" using that by (intro RL_single) simp_all
  qed
  show ?case
  proof (cases c)
    case (Exec ws)
    have e: "RE c" using RE_simple [of ws "[]"] less.prems Exec by simp
    then have "RP c" using Exec by (intro RP_single) simp_all
    then show ?thesis using e up Exec by simp
  next
    case (Redir c' f m fd)
    then have "size b < size c" using b size_redirect [of b rs] by (cases "rs = []") auto
    then have "RL b" using IH b(4) by simp
    have e: "RE c"
    proof (cases b)
      case (Exec ws)
      then show ?thesis using RE_simple [of ws rs] b by simp
    qed (use RE_block [OF \<open>RL b\<close> _ b(3)] b in simp_all)
    then have "RP c" using Redir by (intro RP_single) simp_all
    then show ?thesis using e up Redir by simp
  next
    case (Pipe l r)
    then have "RP c" using IH [of l] IH [of r] less.prems by (simp add: RP_pipe)
    moreover from this have u: "RB c" "RL c" using up Pipe by simp_all
    moreover have "RE c" using RE_block [OF u(2), of "[]"] Pipe by simp
    ultimately show ?thesis by simp
  next
    case (Back c')
    obtain d j where d: "c = (Back ^^ j) d" "\<not> is_back d" "command_ok d" "size d + j \<le> size c"
      using split_backs [OF less.prems] by blast
    then have "size d < size c" using Back by (cases j) auto
    then have "RP d" using IH d(3) by simp
    then have "RB c" using RB_back [of d j] d shown_1_2 by simp
    moreover from this have u: "RL c" using Back by (intro RL_single) simp_all
    moreover have e: "RE c" using RE_block [OF u, of "[]"] Back by simp
    moreover have "RP c" using RP_single [OF e] Back by simp
    ultimately show ?thesis by simp
  next
    case (List l r)
    then have u: "RL c" using IH [of l] IH [of r] less.prems by (simp add: RL_list)
    have e: "RE c" using RE_block [OF u, of "[]"] List by simp
    then have p: "RP c" using List by (intro RP_single) simp_all
    then have "RB c" using RB_back [OF p, of 0] List by simp
    then show ?thesis using u e p by simp
  qed
qed

lemma untok_no_zero: "list_all tok_wf ts \<Longrightarrow> 0 \<notin> set (untok ts)"
proof (induction ts)
  case (Cons t ts)
  then show ?case by (cases t) (auto simp: word_def is_sym_iff)
qed simp

text \<open>
  C35.  Every command with at most nine arguments per program and the redirections the shell knows can be written as a line, with
  parentheses where the grammar needs them, and the shell's parser reads that line as the same command.
\<close>

theorem parse_shown:
  assumes "command_ok c"
  shows "\<exists>d buf. parsecmd (untok (shown 0 c)) = Inr (d, buf) \<and> strings buf (length (untok (shown 0 c))) d = c"
proof -
  define l where "l = untok (shown 0 c)"
  have wf: "list_all tok_wf (shown 0 c)" using assms by (rule shown_wf)
  have z: "0 \<notin> set l" using untok_no_zero [OF wf] by (simp add: l_def)
  note cl = clean_line [OF z]
  have "rest (line_mem l) (length l) 0 = l" by (simp add: rest_def line_mem_def)
  then have "at (line_mem l) (length l) 0 (shown 0 c @ [])" using cl wf by (simp add: at_def l_def)
  from RL_D [OF _ this, of "Suc (length l)"] read_all [OF assms]
  have "reads (line_mem l) (length l) 0 (parseline (Suc (length l)) (line_mem l) (length l) 0) c []" by (simp add: stop_def del: parseline.simps)
  then obtain d t where d: "parseline (Suc (length l)) (line_mem l) (length l) 0 = PGot d t" "texts (line_mem l) d = c"
    "at (line_mem l) (length l) t []" by (auto simp: reads_def simp del: parseline.simps)
  have "pok (line_mem l) (length l) 0 (PGot d t)" unfolding d(1) [symmetric] using cl by (intro parseline_pok) simp_all
  then have g: "list_all (tok_ok (line_mem l) (length l)) (tokens d)" by (simp add: good_def)
  have "snd (peek (line_mem l) (length l) t []) = length l"
    using at_skip [OF d(3)] rest_Cons [of "skip_ws (line_mem l) (length l) t" "length l" "line_mem l"]
    by (cases "skip_ws (line_mem l) (length l) t < length l") (auto simp: peek_def Let_def at_def)
  then have "parsecmd l = Inr (d, nulterminate d (line_mem l))"
    using d(1) by (simp add: parsecmd_def Let_def del: parseline.simps)
  then show ?thesis using strings_texts [OF g cl] d(2) by (simp add: l_def [symmetric] nulterminate_eq)
qed

theorem parse_shown_witness:
  "\<exists>d buf. parsecmd (untok [Sym OPEN, Word [0x6C, 0x73], Sym SEMI, Word [0x77, 0x63], Sym CLOSE, Sym BAR, Word [0x77, 0x63], Sym GT, Word [0x66]]) =
      Inr (d, buf) \<and>
    strings buf 21 d = Pipe (List (Exec [[0x6C, 0x73]]) (Exec [[0x77, 0x63]])) (Redir (Exec [[0x77, 0x63]]) [0x66] (O_WRONLY + O_CREATE) 1)"
proof -
  let ?c = "Pipe (List (Exec [[0x6C, 0x73]]) (Exec [[0x77, 0x63]])) (Redir (Exec [[0x77, 0x63]]) [0x66] (O_WRONLY + O_CREATE) 1)"
  have "command_ok ?c" by (simp add: MAXARGS_def word_def word_char_def is_ws_iff is_sym_iff)
  moreover have "length (untok (shown 0 ?c)) = 21" by simp
  moreover have "shown 0 ?c = [Sym OPEN, Word [0x6C, 0x73], Sym SEMI, Word [0x77, 0x63], Sym CLOSE, Sym BAR, Word [0x77, 0x63], Sym GT, Word [0x66]]"
    by simp
  ultimately show ?thesis using parse_shown [of ?c] by (simp only:)
qed

end
