(* ===== verification/Spec2Isabelle.thy ===== *)
theory Spec2Isabelle
  imports Dir Family Lru PipeFifo Programs Recovery ShellParse
begin

text \<open>
  A verification development of xv6 as it is in \<^verbatim>\<open>src/\<close>: the kernel, the shell and the other user programs.

  \<^bold>\<open>How the program is modelled.\<close>  A kernel function is a function on an explicit state.  It ends in one of three ways (\<open>Prelude\<close>): \<open>Ok\<close> with a
  value and a new state, \<open>Panic\<close> with the message, or \<open>Switch\<close>, which is the point where the code calls \<open>swtch\<close> and another process
  runs.  The state is one record that grows with the components: locks, process table, memory and free list, disk and buffer
  cache, log, inode cache, devices, console, pipes, open files, user registers.  Every C \<open>struct\<close> is a record, an array a function
  on indices, a pointer to a static object an index.  Words keep their width where the code relies on it (page-table entries, the
  counters of a pipe, sizes in system-call arguments).  The same function models the code for one CPU between two switches; interleavings are
  step relations (\<open>mstep\<close> on the locks, \<open>sl_step\<close> on the actions of \<open>sleep\<close> and \<open>wakeup\<close>, \<open>crashes\<close>).  A user program is a function of the replies to its system calls (\<open>User\<close>).

  \<^bold>\<open>Theories and sources.\<close>
  \<^item> \<open>Prelude\<close>: the outcome type, sequencing, \<open>wp\<close> (the operation returns and the postcondition holds) and \<open>wlp\<close> (if it returns), byte codecs.
  \<^item> \<open>Mmu\<close>: the macros of \<^verbatim>\<open>mmu.h\<close> and \<^verbatim>\<open>memlayout.h\<close>.  \<open>Cstring\<close>: \<^verbatim>\<open>string.c\<close> on a flat byte memory.
  \<^item> \<open>Spinlock\<close>: \<^verbatim>\<open>spinlock.c\<close> on several CPUs, where entering \<open>acquire\<close>, each exchange of its loop, recording the owner and the whole of \<open>release\<close> are one step each, and the list of held locks the other theories use.
  \<^item> \<open>Sched\<close>: \<open>sleep\<close>, \<open>wakeup\<close>, \<open>sched\<close>, \<open>yield\<close>, \<open>kill\<close> and \<open>scheduler\<close> of \<^verbatim>\<open>proc.c\<close>.  \<open>sleep\<close> and \<open>wakeup\<close> are lists of actions, which
    a kernel operation runs at once and the interleavings one by one; a function that sleeps or yields is cut at \<open>swtch\<close>, and \<open>sleep_return\<close>,
    \<open>yield_return\<close> and \<open>trap_resume\<close> are what is left to do when the process runs again.  \<open>Proc\<close>: \<open>allocproc\<close>, \<open>userinit\<close>, \<open>growproc\<close>, \<open>fork\<close>, \<open>exit\<close>, \<open>wait\<close>.
  \<^item> \<open>Kalloc\<close>: \<^verbatim>\<open>kalloc.c\<close>, the free list threaded through the pages.  \<open>Vm\<close>: \<^verbatim>\<open>vm.c\<close>; \<open>AddrSpace\<close> and \<open>Uvm\<close>: what its operations do to address spaces.
  \<^item> \<open>Bio\<close>: \<^verbatim>\<open>bio.c\<close> and \<^verbatim>\<open>memide.c\<close>; \<open>Lru\<close>: its pointer ring; \<open>Cache\<close>, \<open>CacheOps\<close>: the cache as its clients see it.
  \<^item> \<open>Log\<close>: \<^verbatim>\<open>log.c\<close>; \<open>Crash\<close> and \<open>Recovery\<close>: a run cut at any write, and the boots after it.
  \<^item> \<open>Inode\<close>, \<open>Fs\<close>: \<^verbatim>\<open>fs.c\<close> and \<^verbatim>\<open>fs.h\<close>; \<open>Dinode\<close>: the inode on disk; \<open>Tx\<close>, \<open>Extent\<close>, \<open>FileData\<close>, \<open>FileIO\<close>, \<open>Files\<close>, \<open>Dir\<close>: files and directories inside a transaction.
  \<^item> \<open>Devices\<close>: \<^verbatim>\<open>picirq.c\<close>, \<^verbatim>\<open>ioapic.c\<close>, \<^verbatim>\<open>lapic.c\<close>, \<^verbatim>\<open>timer.c\<close>, \<^verbatim>\<open>uart.c\<close>; \<open>Console\<close>: \<^verbatim>\<open>console.c\<close>; \<open>Kbd\<close>: \<^verbatim>\<open>kbd.c\<close>.
  \<^item> \<open>Pipe\<close>: \<^verbatim>\<open>pipe.c\<close>, with \<open>PipeFifo\<close> for its contract; \<open>File\<close>: \<^verbatim>\<open>file.c\<close>; \<open>Syscall\<close>: \<^verbatim>\<open>syscall.c\<close>, with \<open>Args\<close>; \<open>Exec\<close>: \<^verbatim>\<open>exec.c\<close>; \<open>Sysfile\<close>: \<^verbatim>\<open>sysfile.c\<close>.
  \<^item> \<open>Trap\<close>: \<^verbatim>\<open>sysproc.c\<close>, the system-call table, \<open>trap\<close> and \<open>main\<close>; \<open>Discipline\<close>, \<open>Refs\<close>, \<open>Life\<close>, \<open>Family\<close>: properties of the whole kernel,
    of the reference counts and of process lives.
  \<^item> \<open>States\<close>: a concrete kernel state for the instances of the theorems.
  \<^item> \<open>User\<close>: \<^verbatim>\<open>ulib.c\<close>, \<^verbatim>\<open>printf.c\<close>; \<open>Regex\<close>: the matcher of \<^verbatim>\<open>grep.c\<close>; \<open>Programs\<close>: the user programs; \<open>Shell\<close>, \<open>ShellParse\<close>: \<^verbatim>\<open>sh.c\<close>.

  \<^bold>\<open>What is shown.\<close>
  \<^item> Storage.  A commit that is cut at any write, followed by any number of recoveries cut short, leaves either the old or the new contents of all logged
    sectors.  \<open>readi\<close> and \<open>writei\<close> implement an array of bytes that grows, through direct and indirect blocks, with the inode, the free map and
    all other blocks accounted for; a directory implements a map from names to inode numbers; the inode codec is a round trip; the pointer ring of
    the cache implements its list.
  \<^item> Memory.  \<open>kalloc\<close> and \<open>kfree\<close> implement a stack of pages (locale \<open>page_alloc\<close>); \<open>copyuvm\<close>, \<open>freevm\<close> and \<open>copyout\<close> are correct on address spaces, and
    \<open>copyuvm\<close> fails only for lack of pages.
  \<^item> Concurrency.  Mutual exclusion of spin locks in every interleaving, the refinement of the machine lock to the list of held locks (locale
    \<open>spin_lock\<close>), no lost wakeup, and the lock discipline of every trap: it returns with the locks it was entered with, and gives up the CPU only with
    \<open>ptable.lock\<close>.
  \<^item> Processes.  \<open>fork\<close> makes a copy unless pages are short, \<open>exit\<close> gives back the files and the directory and hands over the children, \<open>wait\<close> frees everything of
    one zombie, a killed process does not return to user mode, \<open>sleep\<close> returns after a wakeup of its channel with its lock held.
  \<^item> Interfaces.  A pipe is a bounded queue although its counters wrap around (locale \<open>bounded_queue\<close>); system-call arguments are checked, except for a
    negative size; \<open>memmove\<close>, \<open>memset\<close>, \<open>strncmp\<close> meet their specification.
  \<^item> User programs.  The parser of the shell answers on every line and reads back every command that can be written; the matcher of \<open>grep\<close> accepts
    the language of its pattern; \<open>grep\<close> prints the matching lines of one read and loses the start of a line that comes in two; \<open>atoi\<close> reads what \<open>printf\<close> prints.

  \<^bold>\<open>Bounds and fuel.\<close>  Loops over arrays are recursions over index lists; most other loops have a measure.  \<open>mappages\<close> gets one round for
  each page of the 32-bit address space, which the lemmas of \<open>AddrSpace\<close> show to be enough.  The spinning of \<open>acquire\<close> and the scan of \<open>strlen\<close> may
  not end and are partial functions.  The loops of the shell's parser take fuel,
  one unit for each byte that is left of the line, and \<open>parsecmd_answers\<close> shows that this is enough.  A user program uses up a reply with every
  call, so its loops end when the replies do: it is then blocked, which is a result of its own.  The chase along the pointers in \<open>Lru\<close> takes one turn more
  than there are buffers, and returns.

  \<^bold>\<open>Parameters.\<close>  The disk image, the input of the devices and the contents of memory that the code has not initialised are fields of the state or arguments.

  \<^bold>\<open>Not modelled.\<close>
  \<^item> \<^verbatim>\<open>usertests.c\<close>: a list of system calls with printed diagnostics; it has no behaviour of its own beyond the kernel it exercises.
  \<^item> \<^verbatim>\<open>mkfs.c\<close>: runs on the host and writes the first disk image, which is an argument here.
  \<^item> \<^verbatim>\<open>umalloc.c\<close>: keeps its headers in the raw memory of a process, which the model of user programs does not have.
  \<^item> \<^verbatim>\<open>ide.c\<close>: the kernel is built with it or with \<^verbatim>\<open>memide.c\<close>, and the model has the latter.  \<^verbatim>\<open>mp.c\<close>, \<^verbatim>\<open>bootmain.c\<close> and the assembly files: machine
    set-up before \<open>main\<close>, register switching and trap entry; their effect on the C code is the outcome \<open>Switch\<close>, the trap frame and fields of the state.
  \<^item> Of modelled files: \<open>seginit\<close>, \<open>tvinit\<close> and \<open>idtinit\<close>, which only load descriptor tables, the real-time clock and \<open>cpunum\<close> of \<^verbatim>\<open>lapic.c\<close>.
  \<^item> Simplifications inside modelled functions: \<open>allocuvm\<close> prints no message when memory is short; \<open>switchuvm\<close> sets the task state and \<open>cr3\<close> but not the segment
    descriptors, and its interrupt-off section is not visible; \<open>kinit1\<close> does not initialise the name of its lock; the addresses of \<open>memmove\<close> do
    not wrap around; \<open>read_head\<close> reads a header whose count is at most \<open>LOGSIZE\<close>; \<open>argstr\<close> returns the string itself instead of a
    pointer to it; a process has the fields \<^verbatim>\<open>proc.c\<close> uses, some of which \<^verbatim>\<open>proc.h\<close> declares in \<open>struct thread\<close>.
  \<^item> The headers of threads and monitors (\<^verbatim>\<open>kthread.h\<close>, \<^verbatim>\<open>hoare_cond.h\<close>, \<^verbatim>\<open>mesa_cond.h\<close> and the two of slots) declare functions that no file of the repository defines.
\<close>

end
